(* ===== verification/Wine_Prelude.thy ===== *)
theory Wine_Prelude
  imports Main "HOL-Library.Word"
begin

unbundle bit_operations_syntax

text \<open>
  The shared layer of the development: the C integer types the server uses, its status codes,
  the record of what an allocation request answers, and the generic facts on lists and words
  that the component theories rely on.

  Unsigned C integers are words of their width, whose arithmetic wraps.  Signed C integers are
  \<open>int\<close>; where the code computes with them (and does not only compare them) the result is put
  back into 32 bits by \<open>i32\<close>, the two's complement reading of the low 32 bits.
\<close>

section \<open>C integer types\<close>

type_synonym u8 = "8 word"
type_synonym u16 = "16 word"
type_synonym u32 = "32 word"
type_synonym u64 = "64 word"

type_synonym status = u32

definition i32 :: "int \<Rightarrow> int" where
  "i32 n = signed_take_bit 31 n"

definition is_i32 :: "int \<Rightarrow> bool" where
  "is_i32 n \<longleftrightarrow> - (2 ^ 31) \<le> n \<and> n < 2 ^ 31"

lemma i32_id [simp]: "is_i32 n \<Longrightarrow> i32 n = n"
  unfolding i32_def is_i32_def by (simp add: signed_take_bit_int_eq_self)

lemma is_i32_i32 [simp]: "is_i32 (i32 n)"
  unfolding i32_def is_i32_def
  using signed_take_bit_int_greater_eq_minus_exp [of 31 n] signed_take_bit_int_less_exp [of 31 n]
  by blast

section \<open>Status codes\<close>

text \<open>The values of \<open>include/ntstatus.h\<close> that the modelled code sets.\<close>

abbreviation STATUS_SUCCESS :: status where "STATUS_SUCCESS \<equiv> 0x00000000"
abbreviation STATUS_INVALID_HANDLE :: status where "STATUS_INVALID_HANDLE \<equiv> 0xC0000008"
abbreviation STATUS_INVALID_DEVICE_REQUEST :: status where "STATUS_INVALID_DEVICE_REQUEST \<equiv> 0xC0000010"
abbreviation STATUS_INVALID_PARAMETER :: status where "STATUS_INVALID_PARAMETER \<equiv> 0xC000000D"
abbreviation STATUS_NO_MEMORY :: status where "STATUS_NO_MEMORY \<equiv> 0xC0000017"
abbreviation STATUS_ACCESS_DENIED :: status where "STATUS_ACCESS_DENIED \<equiv> 0xC0000022"
abbreviation STATUS_OBJECT_TYPE_MISMATCH :: status where "STATUS_OBJECT_TYPE_MISMATCH \<equiv> 0xC0000024"
abbreviation STATUS_HANDLE_NOT_CLOSABLE :: status where "STATUS_HANDLE_NOT_CLOSABLE \<equiv> 0xC0000235"
abbreviation STATUS_PROCESS_IS_TERMINATING :: status where "STATUS_PROCESS_IS_TERMINATING \<equiv> 0xC000010A"
abbreviation STATUS_INSUFFICIENT_RESOURCES :: status where "STATUS_INSUFFICIENT_RESOURCES \<equiv> 0xC000009A"
abbreviation STATUS_NOT_SAME_OBJECT :: status where "STATUS_NOT_SAME_OBJECT \<equiv> 0xC00001AC"
abbreviation STATUS_BUFFER_TOO_SMALL :: status where "STATUS_BUFFER_TOO_SMALL \<equiv> 0xC0000023"
abbreviation STATUS_OBJECT_NAME_INVALID :: status where "STATUS_OBJECT_NAME_INVALID \<equiv> 0xC0000033"
abbreviation STATUS_OBJECT_NAME_NOT_FOUND :: status where "STATUS_OBJECT_NAME_NOT_FOUND \<equiv> 0xC0000034"
abbreviation STATUS_OBJECT_NAME_COLLISION :: status where "STATUS_OBJECT_NAME_COLLISION \<equiv> 0xC0000035"
abbreviation STATUS_OBJECT_PATH_NOT_FOUND :: status where "STATUS_OBJECT_PATH_NOT_FOUND \<equiv> 0xC000003A"
abbreviation STATUS_OBJECT_PATH_SYNTAX_BAD :: status where "STATUS_OBJECT_PATH_SYNTAX_BAD \<equiv> 0xC000003B"
abbreviation STATUS_OBJECT_NAME_EXISTS :: status where "STATUS_OBJECT_NAME_EXISTS \<equiv> 0x40000000"
abbreviation STATUS_INFO_LENGTH_MISMATCH :: status where "STATUS_INFO_LENGTH_MISMATCH \<equiv> 0xC0000004"
abbreviation STATUS_NAME_TOO_LONG :: status where "STATUS_NAME_TOO_LONG \<equiv> 0xC0000106"
abbreviation STATUS_KEY_DELETED :: status where "STATUS_KEY_DELETED \<equiv> 0xC000017C"
abbreviation STATUS_NO_MORE_ENTRIES :: status where "STATUS_NO_MORE_ENTRIES \<equiv> 0x8000001A"
abbreviation STATUS_SEMAPHORE_LIMIT_EXCEEDED :: status where "STATUS_SEMAPHORE_LIMIT_EXCEEDED \<equiv> 0xC0000047"
abbreviation STATUS_MUTANT_NOT_OWNED :: status where "STATUS_MUTANT_NOT_OWNED \<equiv> 0xC0000046"
abbreviation STATUS_FILE_LOCK_CONFLICT :: status where "STATUS_FILE_LOCK_CONFLICT \<equiv> 0xC0000054"
abbreviation STATUS_RANGE_NOT_LOCKED :: status where "STATUS_RANGE_NOT_LOCKED \<equiv> 0xC000007E"
abbreviation STATUS_SHARING_VIOLATION :: status where "STATUS_SHARING_VIOLATION \<equiv> 0xC0000043"
abbreviation STATUS_PENDING :: status where "STATUS_PENDING \<equiv> 0x00000103"
abbreviation STATUS_TIMEOUT :: status where "STATUS_TIMEOUT \<equiv> 0x00000102"
abbreviation STATUS_USER_APC :: status where "STATUS_USER_APC \<equiv> 0x000000C0"
abbreviation STATUS_KERNEL_APC :: status where "STATUS_KERNEL_APC \<equiv> 0x00000100"
abbreviation STATUS_ABANDONED_WAIT_0 :: status where "STATUS_ABANDONED_WAIT_0 \<equiv> 0x00000080"
abbreviation STATUS_THREAD_WAS_SUSPENDED :: status where "STATUS_THREAD_WAS_SUSPENDED \<equiv> 0x40000001"
abbreviation STATUS_BUFFER_OVERFLOW :: status where "STATUS_BUFFER_OVERFLOW \<equiv> 0x80000005"

section \<open>Lists\<close>

named_theorems band_simps \<open>facts on bands of rectangles\<close>

lemma sorted_wrt_snoc:
  "sorted_wrt P (xs @ [x]) \<longleftrightarrow> sorted_wrt P xs \<and> (\<forall>y\<in>set xs. P y x)"
  by (simp add: sorted_wrt_append)

lemma takeWhile_append_same:
  assumes "\<forall>x\<in>set xs. P x" and "ys = [] \<or> \<not> P (hd ys)"
  shows "takeWhile P (xs @ ys) = xs" and "dropWhile P (xs @ ys) = ys"
  using assms by (cases ys; simp)+

section \<open>Transition systems\<close>

text \<open>A step relation that keeps an invariant: every state reached by steps has it.\<close>

locale transition_invariant =
  fixes step :: "'s \<Rightarrow> 's \<Rightarrow> bool" and inv :: "'s \<Rightarrow> bool"
  assumes preserved: "inv s \<Longrightarrow> step s s' \<Longrightarrow> inv s'"
begin

lemma reachable: "step\<^sup>*\<^sup>* s s' \<Longrightarrow> inv s \<Longrightarrow> inv s'"
  by (induction rule: rtranclp_induct) (auto intro: preserved)

end

end
