(* ===== verification/Rects.thy ===== *)
theory Rects
  imports Wine_Prelude
begin

text \<open>
  Rectangles: \<open>struct rectangle\<close> of \<open>server/protocol.def\<close> and the inline helpers of
  \<open>server/user.h\<close>.  A rectangle holds the points with \<open>left \<le> x < right\<close> and
  \<open>top \<le> y < bottom\<close>.  Coordinates are C \<open>int\<close>s; the helpers that compute with them
  (\<open>offset_rect\<close>, \<open>mirror_rect\<close>, \<open>scale_dpi\<close>) keep the result in 32 bits.
\<close>

section \<open>Definitions\<close>

record rectangle =
  r_left :: int
  r_top :: int
  r_right :: int
  r_bottom :: int

definition empty_rect :: rectangle where
  "empty_rect = \<lparr>r_left = 0, r_top = 0, r_right = 0, r_bottom = 0\<rparr>"

definition is_rect_equal :: "rectangle \<Rightarrow> rectangle \<Rightarrow> bool" where
  "is_rect_equal rect1 rect2 \<longleftrightarrow>
     r_left rect1 = r_left rect2 \<and> r_right rect1 = r_right rect2 \<and>
     r_top rect1 = r_top rect2 \<and> r_bottom rect1 = r_bottom rect2"

definition is_rect_empty :: "rectangle \<Rightarrow> bool" where
  "is_rect_empty rect \<longleftrightarrow> r_left rect \<ge> r_right rect \<or> r_top rect \<ge> r_bottom rect"

definition point_in_rect :: "rectangle \<Rightarrow> int \<Rightarrow> int \<Rightarrow> bool" where
  "point_in_rect rect x y \<longleftrightarrow>
     x \<ge> r_left rect \<and> x < r_right rect \<and> y \<ge> r_top rect \<and> y < r_bottom rect"

text \<open>
  \<open>struct ratio\<close> has two \<open>unsigned short\<close> members.  Their products are \<open>int\<close>s stored in
  \<open>unsigned int\<close>s, so that \<open>val * num\<close> is computed in unsigned arithmetic: the signed \<open>val\<close>
  is converted first, and the quotient is converted back to \<open>int\<close> on return.
\<close>

record ratio =
  num :: u16
  den :: u16

definition scale_dpi :: "int \<Rightarrow> ratio \<Rightarrow> ratio \<Rightarrow> int" where
  "scale_dpi val dpi_from dpi_to =
     (let n = (ucast (num dpi_to) :: u32) * ucast (den dpi_from);
          d = (ucast (num dpi_from) :: u32) * ucast (den dpi_to)
      in if val \<ge> 0 then sint ((word_of_int val * n + d div 2) div d)
         else sint ((word_of_int val * n - d div 2) div d))"

definition scale_dpi_rect :: "ratio \<Rightarrow> ratio \<Rightarrow> rectangle \<Rightarrow> rectangle" where
  "scale_dpi_rect dpi_from dpi_to rect =
     \<lparr>r_left = scale_dpi (r_left rect) dpi_from dpi_to,
      r_top = scale_dpi (r_top rect) dpi_from dpi_to,
      r_right = scale_dpi (r_right rect) dpi_from dpi_to,
      r_bottom = scale_dpi (r_bottom rect) dpi_from dpi_to\<rparr>"

definition offset_rect :: "int \<Rightarrow> int \<Rightarrow> rectangle \<Rightarrow> rectangle" where
  "offset_rect offset_x offset_y rect =
     \<lparr>r_left = i32 (r_left rect + offset_x), r_top = i32 (r_top rect + offset_y),
      r_right = i32 (r_right rect + offset_x), r_bottom = i32 (r_bottom rect + offset_y)\<rparr>"

definition mirror_rect :: "rectangle \<Rightarrow> rectangle \<Rightarrow> rectangle" where
  "mirror_rect client_rect rect =
     (let width = i32 (r_right client_rect - r_left client_rect)
      in rect\<lparr>r_left := i32 (width - r_right rect), r_right := i32 (width - r_left rect)\<rparr>)"

definition intersect_rect :: "rectangle \<Rightarrow> rectangle \<Rightarrow> rectangle \<times> bool" where
  "intersect_rect src1 src2 =
     (let dst = \<lparr>r_left = max (r_left src1) (r_left src2), r_top = max (r_top src1) (r_top src2),
                 r_right = min (r_right src1) (r_right src2),
                 r_bottom = min (r_bottom src1) (r_bottom src2)\<rparr>
      in (dst, \<not> is_rect_empty dst))"

definition reset_bounds :: rectangle where
  "reset_bounds = \<lparr>r_left = 2147483647, r_top = 2147483647,
                   r_right = - 2147483648, r_bottom = - 2147483648\<rparr>"

definition union_rect :: "rectangle \<Rightarrow> rectangle \<Rightarrow> rectangle" where
  "union_rect src1 src2 =
     (if is_rect_empty src1 then (if is_rect_empty src2 then reset_bounds else src2)
      else if is_rect_empty src2 then src1
      else \<lparr>r_left = min (r_left src1) (r_left src2), r_top = min (r_top src1) (r_top src2),
            r_right = max (r_right src1) (r_right src2),
            r_bottom = max (r_bottom src1) (r_bottom src2)\<rparr>)"

section \<open>Facts\<close>

lemma is_rect_equal_iff [simp]: "is_rect_equal r s \<longleftrightarrow> r = s"
  by (auto simp: is_rect_equal_def)

lemma is_rect_empty_iff: "is_rect_empty r \<longleftrightarrow> (\<nexists>x y. point_in_rect r x y)"
proof
  assume "\<nexists>x y. point_in_rect r x y"
  then have "\<not> point_in_rect r (r_left r) (r_top r)" by blast
  then show "is_rect_empty r" by (auto simp: point_in_rect_def is_rect_empty_def)
qed (auto simp: point_in_rect_def is_rect_empty_def)

lemma point_in_intersect_rect:
  "point_in_rect (fst (intersect_rect r s)) x y \<longleftrightarrow> point_in_rect r x y \<and> point_in_rect s x y"
  by (auto simp: intersect_rect_def point_in_rect_def Let_def)

end
