(* ===== verification/Region.thy ===== *)
theory Region
  imports Rects
begin

text \<open>
  Regions, \<open>server/region.c\<close>: definitions.  A region is a buffer of rectangles in y-x bands
  (the X11 representation) with their extents.

  The buffer's used part is the list \<open>rects\<close> (so \<open>num_rects\<close> is its length) and its capacity is
  \<open>rgn_size\<close>.  The operations work on a heap of regions, because the code lets the destination
  be one of the sources; a region pointer is a \<open>nat\<close>.  What \<open>malloc\<close> and \<open>realloc\<close> answer is a
  parameter \<open>mem\<close>: \<open>mem n\<close> says that a request for \<open>n\<close> rectangles succeeds.  After a failed
  request an operation returns \<open>False\<close> (the code's 0 or \<open>NULL\<close>, with \<open>STATUS_NO_MEMORY\<close> set)
  with the region as the code leaves it.
\<close>

section \<open>State\<close>

record region =
  rgn_size :: nat
  rects :: "rectangle list"
  extents :: rectangle

abbreviation num_rects :: "region \<Rightarrow> nat" where
  "num_rects reg \<equiv> length (rects reg)"

type_synonym region_ptr = nat
type_synonym region_heap = "region_ptr \<rightharpoonup> region"
type_synonym mem = "nat \<Rightarrow> bool"

definition rgn :: "region_heap \<Rightarrow> region_ptr \<Rightarrow> region" where
  "rgn h p = the (h p)"

definition RGN_DEFAULT_RECTS :: nat where
  "RGN_DEFAULT_RECTS = 2"

definition EXTENTCHECK :: "rectangle \<Rightarrow> rectangle \<Rightarrow> bool" where
  "EXTENTCHECK r1 r2 \<longleftrightarrow>
     r_right r1 > r_left r2 \<and> r_left r1 < r_right r2 \<and>
     r_bottom r1 > r_top r2 \<and> r_top r1 < r_bottom r2"

section \<open>Rectangle buffers\<close>

text \<open>A step that returns a success flag beside the region, and the sequence of two such steps.\<close>

type_synonym rgn_result = "region \<times> bool"

definition and_then :: "rgn_result \<Rightarrow> (region \<Rightarrow> rgn_result) \<Rightarrow> rgn_result" where
  "and_then m f = (if snd m then f (fst m) else m)"

text \<open>The caller fills the slot \<open>add_rect\<close> returns; the model takes what it writes there.\<close>

definition add_rect :: "mem \<Rightarrow> region \<Rightarrow> rectangle \<Rightarrow> rgn_result" where
  "add_rect mem reg rect =
     (if num_rects reg \<ge> rgn_size reg then
        (if mem (2 * rgn_size reg) then
           (reg\<lparr>rgn_size := rgn_size reg * 2, rects := rects reg @ [rect]\<rparr>, True)
         else (reg, False))
      else (reg\<lparr>rects := rects reg @ [rect]\<rparr>, True))"

fun validate_rectangles :: "rectangle list \<Rightarrow> bool" where
  "validate_rectangles [] = True"
| "validate_rectangles [r] = (\<not> is_rect_empty r)"
| "validate_rectangles (r # s # rs) =
     (if is_rect_empty r then False
      else if r_top r = r_top s then
        (if r_bottom r \<noteq> r_bottom s then False
         else if r_right r \<ge> r_left s then False
         else validate_rectangles (s # rs))
      else if r_bottom r > r_top s then False
      else validate_rectangles (s # rs))"

text \<open>
  \<open>while (pRegEnd[-1].top == pRegEnd->top) pRegEnd--\<close>: the start of the band that the
  rectangle at index \<open>k\<close> is in.
\<close>

fun band_start :: "rectangle list \<Rightarrow> nat \<Rightarrow> nat" where
  "band_start rs 0 = 0"
| "band_start rs (Suc k) =
     (if r_top (rs ! k) = r_top (rs ! Suc k) then band_start rs k else Suc k)"

definition coalesce_region :: "region \<Rightarrow> nat \<Rightarrow> nat \<Rightarrow> region \<times> nat" where
  "coalesce_region reg prevStart curStart =
     (let rs = rects reg;
          prevNumRects = curStart - prevStart;
          bandtop = r_top (rs ! curStart);
          curNumRects = length (takeWhile (\<lambda>r. r_top r = bandtop) (drop curStart rs));
          pCurRect = curStart + curNumRects;
          ret = (if pCurRect \<noteq> length rs then band_start rs (length rs - 1) else curStart);
          prev = take prevNumRects (drop prevStart rs);
          cur = take curNumRects (drop curStart rs)
      in if curNumRects = prevNumRects \<and> curNumRects \<noteq> 0 then
           (if r_bottom (rs ! prevStart) = r_top (rs ! curStart) then
              (if list_all2 (\<lambda>p c. r_left p = r_left c \<and> r_right p = r_right c) prev cur then
                 (reg\<lparr>rects := take prevStart rs @
                       map2 (\<lambda>p c. p\<lparr>r_bottom := r_bottom c\<rparr>) prev cur @ drop pCurRect rs\<rparr>,
                  if pCurRect = length rs then prevStart else ret)
               else (reg, ret))
            else (reg, ret))
         else (reg, ret))"

section \<open>The band functions\<close>

text \<open>
  The overlap functions get the two bands as lists (\<open>r1\<close> up to \<open>r1End\<close> and \<open>r2\<close> up to
  \<open>r2End\<close>) and append rectangles of the given top and bottom to the region.
\<close>

abbreviation mk_rect :: "int \<Rightarrow> int \<Rightarrow> int \<Rightarrow> int \<Rightarrow> rectangle" where
  "mk_rect l t r b \<equiv> \<lparr>r_left = l, r_top = t, r_right = r, r_bottom = b\<rparr>"

fun intersect_overlapping ::
  "mem \<Rightarrow> region \<Rightarrow> rectangle list \<Rightarrow> rectangle list \<Rightarrow> int \<Rightarrow> int \<Rightarrow> rgn_result" where
  "intersect_overlapping mem reg (r1 # r1s) (r2 # r2s) t b =
     (let l = max (r_left r1) (r_left r2);
          r = min (r_right r1) (r_right r2)
      in and_then
           (if l < r then add_rect mem reg (mk_rect l t r b) else (reg, True))
           (\<lambda>reg.
              if r_right r1 < r_right r2 then intersect_overlapping mem reg r1s (r2 # r2s) t b
              else if r_right r2 < r_right r1 then intersect_overlapping mem reg (r1 # r1s) r2s t b
              else intersect_overlapping mem reg r1s r2s t b))"
| "intersect_overlapping mem reg _ _ t b = (reg, True)"

fun subtract_non_overlapping ::
  "mem \<Rightarrow> region \<Rightarrow> rectangle list \<Rightarrow> int \<Rightarrow> int \<Rightarrow> rgn_result" where
  "subtract_non_overlapping mem reg [] t b = (reg, True)"
| "subtract_non_overlapping mem reg (r # rs) t b =
     and_then (add_rect mem reg (mk_rect (r_left r) t (r_right r) b))
       (\<lambda>reg. subtract_non_overlapping mem reg rs t b)"

text \<open>\<open>left\<close> after \<open>r1++\<close>: \<open>if (r1 != r1End) left = r1->left\<close>.\<close>

definition next_left :: "int \<Rightarrow> rectangle list \<Rightarrow> int" where
  "next_left l rs = (case rs of [] \<Rightarrow> l | r # _ \<Rightarrow> r_left r)"

fun subtract_rest ::
  "mem \<Rightarrow> region \<Rightarrow> int \<Rightarrow> rectangle list \<Rightarrow> int \<Rightarrow> int \<Rightarrow> rgn_result" where
  "subtract_rest mem reg l [] t b = (reg, True)"
| "subtract_rest mem reg l (r1 # r1s) t b =
     and_then (add_rect mem reg (mk_rect l t (r_right r1) b))
       (\<lambda>reg. subtract_rest mem reg (next_left l r1s) r1s t b)"

fun subtract_loop ::
  "mem \<Rightarrow> region \<Rightarrow> int \<Rightarrow> rectangle list \<Rightarrow> rectangle list \<Rightarrow> int \<Rightarrow> int \<Rightarrow> rgn_result" where
  "subtract_loop mem reg l (r1 # r1s) (r2 # r2s) t b =
     (if r_right r2 \<le> l then subtract_loop mem reg l (r1 # r1s) r2s t b
      else if r_left r2 \<le> l then
        (if r_right r2 \<ge> r_right r1
         then subtract_loop mem reg (next_left (r_right r2) r1s) r1s (r2 # r2s) t b
         else subtract_loop mem reg (r_right r2) (r1 # r1s) r2s t b)
      else if r_left r2 < r_right r1 then
        and_then (add_rect mem reg (mk_rect l t (r_left r2) b))
          (\<lambda>reg.
             if r_right r2 \<ge> r_right r1
             then subtract_loop mem reg (next_left (r_right r2) r1s) r1s (r2 # r2s) t b
             else subtract_loop mem reg (r_right r2) (r1 # r1s) r2s t b)
      else
        and_then
          (if r_right r1 > l then add_rect mem reg (mk_rect l t (r_right r1) b) else (reg, True))
          (\<lambda>reg. subtract_loop mem reg (next_left l r1s) r1s (r2 # r2s) t b))"
| "subtract_loop mem reg l r1s r2s t b = subtract_rest mem reg l r1s t b"

definition subtract_overlapping ::
  "mem \<Rightarrow> region \<Rightarrow> rectangle list \<Rightarrow> rectangle list \<Rightarrow> int \<Rightarrow> int \<Rightarrow> rgn_result" where
  "subtract_overlapping mem reg r1s r2s t b = subtract_loop mem reg (r_left (hd r1s)) r1s r2s t b"

fun union_non_overlapping ::
  "mem \<Rightarrow> region \<Rightarrow> rectangle list \<Rightarrow> int \<Rightarrow> int \<Rightarrow> rgn_result" where
  "union_non_overlapping mem reg [] t b = (reg, True)"
| "union_non_overlapping mem reg (r # rs) t b =
     and_then (add_rect mem reg (mk_rect (r_left r) t (r_right r) b))
       (\<lambda>reg. union_non_overlapping mem reg rs t b)"

definition MERGERECT :: "mem \<Rightarrow> region \<Rightarrow> rectangle \<Rightarrow> int \<Rightarrow> int \<Rightarrow> rgn_result" where
  "MERGERECT mem reg r t b =
     (let l = last (rects reg)
      in if rects reg \<noteq> [] \<and> r_top l = t \<and> r_bottom l = b \<and> r_right l \<ge> r_left r then
           (if r_right l < r_right r then
              (reg\<lparr>rects := butlast (rects reg) @ [l\<lparr>r_right := r_right r\<rparr>]\<rparr>, True)
            else (reg, True))
         else add_rect mem reg (mk_rect (r_left r) t (r_right r) b))"

fun union_overlapping ::
  "mem \<Rightarrow> region \<Rightarrow> rectangle list \<Rightarrow> rectangle list \<Rightarrow> int \<Rightarrow> int \<Rightarrow> rgn_result" where
  "union_overlapping mem reg (r1 # r1s) (r2 # r2s) t b =
     (if r_left r1 < r_left r2 then
        and_then (MERGERECT mem reg r1 t b)
          (\<lambda>reg. union_overlapping mem reg r1s (r2 # r2s) t b)
      else
        and_then (MERGERECT mem reg r2 t b)
          (\<lambda>reg. union_overlapping mem reg (r1 # r1s) r2s t b))"
| "union_overlapping mem reg (r1 # r1s) [] t b =
     and_then (MERGERECT mem reg r1 t b) (\<lambda>reg. union_overlapping mem reg r1s [] t b)"
| "union_overlapping mem reg [] (r2 # r2s) t b =
     and_then (MERGERECT mem reg r2 t b) (\<lambda>reg. union_overlapping mem reg [] r2s t b)"
| "union_overlapping mem reg [] [] t b = (reg, True)"

section \<open>Combining two regions\<close>

type_synonym overlap_func =
  "mem \<Rightarrow> region \<Rightarrow> rectangle list \<Rightarrow> rectangle list \<Rightarrow> int \<Rightarrow> int \<Rightarrow> rgn_result"
type_synonym non_overlap_func =
  "mem \<Rightarrow> region \<Rightarrow> rectangle list \<Rightarrow> int \<Rightarrow> int \<Rightarrow> rgn_result"

text \<open>
  The band at the head of a rectangle list (\<open>r1\<close> up to \<open>r1BandEnd\<close>), and what follows it.
  A \<open>NULL\<close> function pointer is \<open>None\<close>.
\<close>

definition band :: "rectangle list \<Rightarrow> rectangle list" where
  "band rs = takeWhile (\<lambda>r. r_top r = r_top (hd rs)) rs"

definition after_band :: "rectangle list \<Rightarrow> rectangle list" where
  "after_band rs = dropWhile (\<lambda>r. r_top r = r_top (hd rs)) rs"

definition call_non_overlap ::
  "mem \<Rightarrow> non_overlap_func option \<Rightarrow> region \<Rightarrow> rectangle list \<Rightarrow> int \<Rightarrow> int \<Rightarrow> rgn_result" where
  "call_non_overlap mem func reg rs t b =
     (case func of None \<Rightarrow> (reg, True)
      | Some f \<Rightarrow> if t \<noteq> b then f mem reg rs t b else (reg, True))"

text \<open>\<open>if (newReg->num_rects != curBand) prevBand = coalesce_region(newReg, prevBand, curBand)\<close>\<close>

definition coalesce_if :: "region \<Rightarrow> nat \<Rightarrow> nat \<Rightarrow> region \<times> nat" where
  "coalesce_if reg prevBand curBand =
     (if num_rects reg \<noteq> curBand then coalesce_region reg prevBand curBand else (reg, prevBand))"

text \<open>
  One iteration of the main loop of \<open>region_op\<close>, up to the advance of \<open>r1\<close> and \<open>r2\<close>: the lines
  that only one of the regions has, then the lines from \<open>ytop\<close> to \<open>ybot\<close> that both have, each
  followed by a call to \<open>coalesce_region\<close> unless the function called failed.
\<close>

definition region_op_top ::
  "mem \<Rightarrow> non_overlap_func option \<Rightarrow> non_overlap_func option \<Rightarrow>
   rectangle list \<Rightarrow> rectangle list \<Rightarrow> int \<Rightarrow> region \<Rightarrow> rgn_result" where
  "region_op_top mem non_overlap1_func non_overlap2_func r1 r2 ybot newReg =
     (if r_top (hd r1) < r_top (hd r2) then
        call_non_overlap mem non_overlap1_func newReg (band r1)
          (max (r_top (hd r1)) ybot) (min (r_bottom (hd r1)) (r_top (hd r2)))
      else if r_top (hd r2) < r_top (hd r1) then
        call_non_overlap mem non_overlap2_func newReg (band r2)
          (max (r_top (hd r2)) ybot) (min (r_bottom (hd r2)) (r_top (hd r1)))
      else (newReg, True))"

definition region_op_common ::
  "mem \<Rightarrow> overlap_func \<Rightarrow> rectangle list \<Rightarrow> rectangle list \<Rightarrow> region \<Rightarrow> rgn_result" where
  "region_op_common mem overlap_func r1 r2 newReg =
     (let ytop = (if r_top (hd r1) < r_top (hd r2) then r_top (hd r2) else r_top (hd r1));
          ybot = min (r_bottom (hd r1)) (r_bottom (hd r2))
      in if ybot > ytop then overlap_func mem newReg (band r1) (band r2) ytop ybot
         else (newReg, True))"

definition coalesced :: "nat \<Rightarrow> nat \<Rightarrow> rgn_result \<Rightarrow> region \<times> nat \<times> bool" where
  "coalesced prevBand curBand res =
     (if snd res
      then (fst (coalesce_if (fst res) prevBand curBand),
            snd (coalesce_if (fst res) prevBand curBand), True)
      else (fst res, prevBand, False))"

definition region_op_body ::
  "mem \<Rightarrow> overlap_func \<Rightarrow> non_overlap_func option \<Rightarrow> non_overlap_func option \<Rightarrow>
   rectangle list \<Rightarrow> rectangle list \<Rightarrow> int \<Rightarrow> nat \<Rightarrow> region \<Rightarrow> region \<times> nat \<times> bool" where
  "region_op_body mem overlap_func non_overlap1_func non_overlap2_func r1 r2 ybot prevBand newReg =
     (case coalesced prevBand (num_rects newReg)
             (region_op_top mem non_overlap1_func non_overlap2_func r1 r2 ybot newReg) of
        (newReg, prevBand, ok) \<Rightarrow>
          if \<not> ok then (newReg, prevBand, False)
          else coalesced prevBand (num_rects newReg)
                 (region_op_common mem overlap_func r1 r2 newReg))"

text \<open>
  \<open>if (r1->bottom == ybot) r1 = r1BandEnd\<close>, with \<open>ybot\<close> the lesser of the two bottoms.
\<close>

definition advance :: "rectangle list \<Rightarrow> int \<Rightarrow> rectangle list" where
  "advance rs ybot = (if r_bottom (hd rs) = ybot then after_band rs else rs)"

lemma length_after_band: "rs \<noteq> [] \<Longrightarrow> length (after_band rs) < length rs"
  by (cases rs) (auto simp: after_band_def less_Suc_eq_le intro: length_dropWhile_le)

lemma advance_decreases:
  assumes "advance r1 (min (r_bottom (hd r1)) (r_bottom (hd r2))) \<noteq> []"
    and "advance r2 (min (r_bottom (hd r1)) (r_bottom (hd r2))) \<noteq> []"
  shows "length (advance r1 (min (r_bottom (hd r1)) (r_bottom (hd r2)))) +
         length (advance r2 (min (r_bottom (hd r1)) (r_bottom (hd r2)))) < length r1 + length r2"
proof -
  have ne: "r1 \<noteq> []" "r2 \<noteq> []"
    using assms by (auto simp: advance_def after_band_def split: if_splits)
  show ?thesis
    using length_after_band [OF ne(1)] length_after_band [OF ne(2)]
    by (auto simp: advance_def min_def)
qed

function region_op_loop ::
  "mem \<Rightarrow> overlap_func \<Rightarrow> non_overlap_func option \<Rightarrow> non_overlap_func option \<Rightarrow>
   rectangle list \<Rightarrow> rectangle list \<Rightarrow> int \<Rightarrow> nat \<Rightarrow> region \<Rightarrow>
   (region \<times> nat \<times> rectangle list \<times> rectangle list \<times> int) \<times> bool" where
  "region_op_loop mem overlap_func non_overlap1_func non_overlap2_func r1 r2 ybot prevBand newReg =
     (let body = region_op_body mem overlap_func non_overlap1_func non_overlap2_func
                   r1 r2 ybot prevBand newReg;
          newReg = fst body;
          prevBand = fst (snd body);
          ybot = min (r_bottom (hd r1)) (r_bottom (hd r2))
      in if \<not> snd (snd body) then ((newReg, prevBand, r1, r2, ybot), False)
         else if advance r1 ybot \<noteq> [] \<and> advance r2 ybot \<noteq> [] then
           region_op_loop mem overlap_func non_overlap1_func non_overlap2_func
             (advance r1 ybot) (advance r2 ybot) ybot prevBand newReg
         else ((newReg, prevBand, advance r1 ybot, advance r2 ybot, ybot), True))"
  by pat_completeness auto
termination
  by (relation "measure (\<lambda>(mem, f, g, h, r1, r2, ybot, prevBand, newReg). length r1 + length r2)")
     (use advance_decreases in auto)

declare region_op_loop.simps [simp del]

text \<open>The loop over the bands that remain in one of the regions.\<close>

function region_op_rest ::
  "mem \<Rightarrow> non_overlap_func \<Rightarrow> region \<Rightarrow> rectangle list \<Rightarrow> int \<Rightarrow> rgn_result" where
  "region_op_rest mem func newReg r ybot =
     (if r = [] then (newReg, True)
      else and_then (func mem newReg (band r) (max (r_top (hd r)) ybot) (r_bottom (hd r)))
             (\<lambda>newReg. region_op_rest mem func newReg (after_band r) ybot))"
  by pat_completeness auto
termination
  by (relation "measure (\<lambda>(mem, f, newReg, r, ybot). length r)") (auto simp: length_after_band)

declare region_op_rest.simps [simp del]

definition call_rest ::
  "mem \<Rightarrow> non_overlap_func option \<Rightarrow> region \<Rightarrow> rectangle list \<Rightarrow> int \<Rightarrow> rgn_result" where
  "call_rest mem func newReg r ybot =
     (case func of None \<Rightarrow> (newReg, True) | Some f \<Rightarrow> region_op_rest mem f newReg r ybot)"

definition shrink_rects :: "mem \<Rightarrow> region \<Rightarrow> region" where
  "shrink_rects mem newReg =
     (if num_rects newReg < rgn_size newReg div 2 \<and> rgn_size newReg > 2 then
        (let new_size = max (num_rects newReg) RGN_DEFAULT_RECTS
         in if mem new_size then newReg\<lparr>rgn_size := new_size\<rparr> else newReg)
      else newReg)"

text \<open>
  \<open>region_op\<close> from the first rectangle lists and \<open>ybot\<close> on, on the fresh buffer \<open>newReg\<close>.
\<close>

definition region_op_rects ::
  "mem \<Rightarrow> overlap_func \<Rightarrow> non_overlap_func option \<Rightarrow> non_overlap_func option \<Rightarrow>
   rectangle list \<Rightarrow> rectangle list \<Rightarrow> int \<Rightarrow> region \<Rightarrow> rgn_result" where
  "region_op_rects mem overlap_func non_overlap1_func non_overlap2_func r1 r2 ybot newReg =
     (case region_op_loop mem overlap_func non_overlap1_func non_overlap2_func r1 r2 ybot 0 newReg of
        ((newReg, prevBand, r1, r2, ybot), ok) \<Rightarrow>
          if \<not> ok then (newReg, False)
          else
            (let curBand = num_rects newReg;
                 rest = (if r1 \<noteq> [] then call_rest mem non_overlap1_func newReg r1 ybot
                         else if r2 \<noteq> [] then call_rest mem non_overlap2_func newReg r2 ybot
                         else (newReg, True))
             in if \<not> snd rest then (fst rest, False)
                else (shrink_rects mem (fst (coalesce_if (fst rest) prevBand curBand)), True)))"

definition region_op ::
  "mem \<Rightarrow> region_heap \<Rightarrow> region_ptr \<Rightarrow> region_ptr \<Rightarrow> region_ptr \<Rightarrow>
   overlap_func \<Rightarrow> non_overlap_func option \<Rightarrow> non_overlap_func option \<Rightarrow> region_heap \<times> bool" where
  "region_op mem h newReg reg1 reg2 overlap_func non_overlap1_func non_overlap2_func =
     (let r1 = rects (rgn h reg1);
          r2 = rects (rgn h reg2);
          new_size = max (length r1) (length r2) * 2
      in if \<not> mem new_size then (h, False)
         else
           (let h = h(newReg \<mapsto> (rgn h newReg)\<lparr>rgn_size := new_size, rects := []\<rparr>);
                ybot = (if r_top (extents (rgn h reg1)) < r_top (extents (rgn h reg2))
                        then r_top (extents (rgn h reg1)) else r_top (extents (rgn h reg2)));
                res = region_op_rects mem overlap_func non_overlap1_func non_overlap2_func
                        r1 r2 ybot (rgn h newReg)
            in (h(newReg \<mapsto> fst res), snd res)))"

definition set_region_extents :: "region \<Rightarrow> region" where
  "set_region_extents reg =
     (if num_rects reg = 0 then reg\<lparr>extents := mk_rect 0 0 0 0\<rparr>
      else
        (let pRect = hd (rects reg); pRectEnd = last (rects reg)
         in reg\<lparr>extents :=
              \<lparr>r_left = fold (\<lambda>r l. if r_left r < l then r_left r else l) (rects reg) (r_left pRect),
               r_top = r_top pRect,
               r_right = fold (\<lambda>r m. if r_right r > m then r_right r else m) (rects reg)
                           (r_right pRectEnd),
               r_bottom = r_bottom pRectEnd\<rparr>\<rparr>))"

section \<open>Operations on regions\<close>

text \<open>
  \<open>ptr\<close> is what \<open>malloc\<close> answers for the region structure, \<open>None\<close> for \<open>NULL\<close>.
\<close>

definition create_empty_region ::
  "mem \<Rightarrow> region_ptr option \<Rightarrow> region_heap \<Rightarrow> region_heap \<times> region_ptr option" where
  "create_empty_region mem ptr h =
     (case ptr of None \<Rightarrow> (h, None)
      | Some region \<Rightarrow>
          if \<not> mem RGN_DEFAULT_RECTS then (h, None)
          else (h(region \<mapsto> \<lparr>rgn_size = RGN_DEFAULT_RECTS, rects = [],
                             extents = mk_rect 0 0 0 0\<rparr>), Some region))"

definition create_region_from_req_data ::
  "mem \<Rightarrow> region_ptr option \<Rightarrow> region_heap \<Rightarrow> rectangle list \<Rightarrow>
   region_heap \<times> (status + region_ptr)" where
  "create_region_from_req_data mem ptr h data =
     (let rs = (if length data = 1 \<and> hd data = empty_rect then [] else data)
      in if \<not> validate_rectangles rs then (h, Inl STATUS_INVALID_PARAMETER)
         else
           (case ptr of None \<Rightarrow> (h, Inl STATUS_NO_MEMORY)
            | Some region \<Rightarrow>
                (let alloc_rects = max (length rs) RGN_DEFAULT_RECTS
                 in if \<not> mem alloc_rects then (h, Inl STATUS_NO_MEMORY)
                    else (h(region \<mapsto> set_region_extents
                              \<lparr>rgn_size = alloc_rects, rects = rs, extents = empty_rect\<rparr>),
                          Inr region))))"

definition free_region :: "region_heap \<Rightarrow> region_ptr \<Rightarrow> region_heap" where
  "free_region h region = h(region := None)"

definition set_region_rect :: "region_heap \<Rightarrow> region_ptr \<Rightarrow> rectangle \<Rightarrow> region_heap" where
  "set_region_rect h region rect =
     (if \<not> is_rect_empty rect
      then h(region \<mapsto> (rgn h region)\<lparr>rects := [rect], extents := rect\<rparr>)
      else h(region \<mapsto> (rgn h region)\<lparr>rects := [], extents := empty_rect\<rparr>))"

text \<open>Sizes are in bytes; \<open>sizeof(struct rectangle)\<close> is 16.\<close>

definition get_region_data ::
  "mem \<Rightarrow> region \<Rightarrow> nat \<Rightarrow> nat \<times> (status + rectangle list)" where
  "get_region_data mem region max_size =
     (let dat = (if num_rects region * 16 = 0 then [empty_rect] else rects region);
          total_size = length dat * 16
      in (total_size,
          if max_size \<ge> total_size then
            (if mem (length dat) then Inr dat else Inl STATUS_NO_MEMORY)
          else Inl STATUS_BUFFER_OVERFLOW))"

definition get_region_data_and_free ::
  "mem \<Rightarrow> region_heap \<Rightarrow> region_ptr \<Rightarrow> nat \<Rightarrow> region_heap \<times> nat \<times> (status + rectangle list)" where
  "get_region_data_and_free mem h region max_size =
     (let rs = rects (rgn h region);
          total_size = (if length rs * 16 = 0 then 16 else length rs * 16);
          ret = (if length rs * 16 = 0 then
                   (if mem 1 then Inr [empty_rect] else Inl STATUS_NO_MEMORY)
                 else Inr rs)
      in (h(region := None), total_size,
          if max_size < total_size then Inl STATUS_BUFFER_OVERFLOW else ret))"

definition is_region_empty :: "region \<Rightarrow> bool" where
  "is_region_empty region \<longleftrightarrow> num_rects region = 0"

definition is_region_equal :: "region \<Rightarrow> region \<Rightarrow> bool" where
  "is_region_equal region1 region2 =
     (if num_rects region1 \<noteq> num_rects region2 then False
      else if num_rects region1 = 0 then True
      else if \<not> is_rect_equal (extents region1) (extents region2) then False
      else list_all2 is_rect_equal (rects region1) (rects region2))"

definition get_region_extents :: "region \<Rightarrow> rectangle" where
  "get_region_extents region = extents region"

definition offset_region :: "region \<Rightarrow> int \<Rightarrow> int \<Rightarrow> region" where
  "offset_region region x y =
     (if num_rects region = 0 then region
      else region\<lparr>rects := map (offset_rect x y) (rects region),
                  extents := offset_rect x y (extents region)\<rparr>)"

definition scale_region :: "region \<Rightarrow> ratio \<Rightarrow> ratio \<Rightarrow> region" where
  "scale_region region dpi_from dpi_to =
     (if num_rects region = 0 then region
      else region\<lparr>rects := map (scale_dpi_rect dpi_from dpi_to) (rects region),
                  extents := scale_dpi_rect dpi_from dpi_to (extents region)\<rparr>)"

text \<open>
  \<open>mirror_region\<close>: the inner loop over one band (\<open>i\<close> from its start up, \<open>j\<close> from its end
  down, each step with the assignments the code makes), the search for the band's end, and the
  loop over the bands.
\<close>

function mirror_band :: "rectangle \<Rightarrow> rectangle list \<Rightarrow> nat \<Rightarrow> nat \<Rightarrow> rectangle list" where
  "mirror_band client_rect rs i j =
     (if i < j then
        (let rect = rs ! j;
             rs = rs[i := rs ! j];
             rs = rs[j := rect];
             rs = rs[j := mirror_rect client_rect (rs ! j)];
             rs = rs[i := mirror_rect client_rect (rs ! i)]
         in mirror_band client_rect rs (i + 1) (j - 1))
      else if i = j then rs[i := mirror_rect client_rect (rs ! i)]
      else rs)"
  by pat_completeness auto
termination by (relation "measure (\<lambda>(c, rs, i, j). j - i)") auto

declare mirror_band.simps [simp del]

function band_end :: "rectangle list \<Rightarrow> nat \<Rightarrow> nat" where
  "band_end rs e =
     (if e < length rs - 1 \<and> r_top (rs ! (e + 1)) = r_top (rs ! e) then band_end rs (e + 1) else e)"
  by pat_completeness auto
termination by (relation "measure (\<lambda>(rs, e). length rs - e)") auto

declare band_end.simps [simp del]

lemma band_end_ge: "e \<le> band_end rs e"
proof (induction rs e rule: band_end.induct)
  case (1 rs e)
  then show ?case by (subst band_end.simps) auto
qed

lemma length_mirror_band [simp]: "length (mirror_band c rs i j) = length rs"
proof (induction c rs i j rule: mirror_band.induct)
  case (1 c rs i j)
  then show ?case by (subst mirror_band.simps) (auto simp: Let_def)
qed

function mirror_bands :: "rectangle \<Rightarrow> rectangle list \<Rightarrow> nat \<Rightarrow> rectangle list" where
  "mirror_bands client_rect rs start =
     (if start < length rs then
        mirror_bands client_rect (mirror_band client_rect rs start (band_end rs start))
          (band_end rs start + 1)
      else rs)"
  by pat_completeness auto
termination
  by (relation "measure (\<lambda>(c, rs, start). length rs - start)")
     (use band_end_ge in \<open>auto intro!: diff_less_mono2 simp: less_Suc_eq_le\<close>)

declare mirror_bands.simps [simp del]

definition mirror_region :: "rectangle \<Rightarrow> region \<Rightarrow> region" where
  "mirror_region client_rect region =
     region\<lparr>rects := mirror_bands client_rect (rects region) 0,
            extents := mirror_rect client_rect (extents region)\<rparr>"

definition copy_region ::
  "mem \<Rightarrow> region_heap \<Rightarrow> region_ptr \<Rightarrow> region_ptr \<Rightarrow> region_heap \<times> bool" where
  "copy_region mem h dst src =
     (if dst = src then (h, True)
      else
        (let s = rgn h src; d = rgn h dst
         in if rgn_size d < num_rects s \<and> \<not> mem (num_rects s) then (h, False)
            else (h(dst \<mapsto> \<lparr>rgn_size = (if rgn_size d < num_rects s then num_rects s
                                         else rgn_size d),
                             rects = rects s, extents = extents s\<rparr>), True)))"

text \<open>Applies a step to the region a pointer refers to, when the operation before succeeded.\<close>

definition finish ::
  "region_heap \<times> bool \<Rightarrow> region_ptr \<Rightarrow> (region \<Rightarrow> region) \<Rightarrow> region_heap \<times> bool" where
  "finish res dst f =
     (if snd res then ((fst res)(dst \<mapsto> f (rgn (fst res) dst)), True) else res)"

definition intersect_region ::
  "mem \<Rightarrow> region_heap \<Rightarrow> region_ptr \<Rightarrow> region_ptr \<Rightarrow> region_ptr \<Rightarrow> region_heap \<times> bool" where
  "intersect_region mem h dst src1 src2 =
     (if num_rects (rgn h src1) = 0 \<or> num_rects (rgn h src2) = 0 \<or>
         \<not> EXTENTCHECK (extents (rgn h src1)) (extents (rgn h src2))
      then (h(dst \<mapsto> (rgn h dst)\<lparr>rects := [], extents := mk_rect 0 0 0 0\<rparr>), True)
      else finish (region_op mem h dst src1 src2 intersect_overlapping None None)
             dst set_region_extents)"

definition subtract_region ::
  "mem \<Rightarrow> region_heap \<Rightarrow> region_ptr \<Rightarrow> region_ptr \<Rightarrow> region_ptr \<Rightarrow> region_heap \<times> bool" where
  "subtract_region mem h dst src1 src2 =
     (if num_rects (rgn h src1) = 0 \<or> num_rects (rgn h src2) = 0 \<or>
         \<not> EXTENTCHECK (extents (rgn h src1)) (extents (rgn h src2))
      then copy_region mem h dst src1
      else finish (region_op mem h dst src1 src2 subtract_overlapping
                     (Some subtract_non_overlapping) None)
             dst set_region_extents)"

definition rect_contains :: "rectangle \<Rightarrow> rectangle \<Rightarrow> bool" where
  "rect_contains e1 e2 \<longleftrightarrow>
     r_left e1 \<le> r_left e2 \<and> r_top e1 \<le> r_top e2 \<and>
     r_right e1 \<ge> r_right e2 \<and> r_bottom e1 \<ge> r_bottom e2"

text \<open>
  The last four assignments of \<open>union_region\<close> read the extents of the sources one field at a
  time; with \<open>dst\<close> one of the sources, no field is read after it was written.
\<close>

definition extents_union :: "rectangle \<Rightarrow> rectangle \<Rightarrow> rectangle" where
  "extents_union e1 e2 =
     \<lparr>r_left = min (r_left e1) (r_left e2), r_top = min (r_top e1) (r_top e2),
      r_right = max (r_right e1) (r_right e2), r_bottom = max (r_bottom e1) (r_bottom e2)\<rparr>"

definition union_region ::
  "mem \<Rightarrow> region_heap \<Rightarrow> region_ptr \<Rightarrow> region_ptr \<Rightarrow> region_ptr \<Rightarrow> region_heap \<times> bool" where
  "union_region mem h dst src1 src2 =
     (let s1 = rgn h src1; s2 = rgn h src2
      in if src1 = src2 then copy_region mem h dst src1
         else if num_rects s1 = 0 then copy_region mem h dst src2
         else if num_rects s2 = 0 then copy_region mem h dst src1
         else if num_rects s1 = 1 \<and> rect_contains (extents s1) (extents s2)
           then copy_region mem h dst src1
         else if num_rects s2 = 1 \<and> rect_contains (extents s2) (extents s1)
           then copy_region mem h dst src2
         else
           (let res = region_op mem h dst src1 src2 union_overlapping
                        (Some union_non_overlapping) (Some union_non_overlapping);
                e1 = extents (rgn (fst res) src1); e2 = extents (rgn (fst res) src2)
            in finish res dst (\<lambda>d. d\<lparr>extents := extents_union e1 e2\<rparr>)))"

definition xor_region ::
  "mem \<Rightarrow> region_ptr option \<Rightarrow> region_heap \<Rightarrow> region_ptr \<Rightarrow> region_ptr \<Rightarrow> region_ptr \<Rightarrow>
   region_heap \<times> bool" where
  "xor_region mem ptr h dst src1 src2 =
     (case create_empty_region mem ptr h of
        (h, None) \<Rightarrow> (h, False)
      | (h, Some tmp) \<Rightarrow>
          (let a = subtract_region mem h tmp src1 src2
           in if \<not> snd a then (free_region (fst a) tmp, False)
              else
                (let b = subtract_region mem (fst a) dst src2 src1
                 in if \<not> snd b then (free_region (fst b) tmp, False)
                    else
                      (let c = union_region mem (fst b) dst dst tmp
                       in (free_region (fst c) tmp, snd c)))))"

fun point_in_rects :: "rectangle list \<Rightarrow> int \<Rightarrow> int \<Rightarrow> bool" where
  "point_in_rects [] x y = False"
| "point_in_rects (ptr # rs) x y =
     (if r_top ptr > y then False
      else if r_bottom ptr \<le> y then point_in_rects rs x y
      else if r_left ptr > x then False
      else if r_right ptr \<le> x then point_in_rects rs x y
      else True)"

definition point_in_region :: "region \<Rightarrow> int \<Rightarrow> int \<Rightarrow> bool" where
  "point_in_region region x y = point_in_rects (rects region) x y"

fun rect_in_rects :: "rectangle list \<Rightarrow> rectangle \<Rightarrow> bool" where
  "rect_in_rects [] rect = False"
| "rect_in_rects (ptr # rs) rect =
     (if r_top ptr \<ge> r_bottom rect then False
      else if r_bottom ptr \<le> r_top rect then rect_in_rects rs rect
      else if r_left ptr \<ge> r_right rect then rect_in_rects rs rect
      else if r_right ptr \<le> r_left rect then rect_in_rects rs rect
      else True)"

definition rect_in_region :: "region \<Rightarrow> rectangle \<Rightarrow> bool" where
  "rect_in_region region rect = rect_in_rects (rects region) rect"

end
