(* ===== verification/Region_Bands.thy ===== *)
theory Region_Bands
  imports Region
begin

text \<open>
  What the rectangle lists of \<open>server/region.c\<close> mean and what its band functions compute.  A list
  of rectangles stands for the set \<open>pts\<close> of its points; \<open>validate_rectangles\<close> is characterised
  by an order on rectangles; a band is a list of separated intervals (\<open>xband\<close>) whose points on
  one line are its \<open>row\<close>.  The overlap functions are shown to append one band whose row is the
  intersection, difference or union of the rows they are given.
\<close>

section \<open>Points, valid lists, bands\<close>

definition pts :: "rectangle list \<Rightarrow> (int \<times> int) set" where
  "pts rs = {(x, y). \<exists>r\<in>set rs. point_in_rect r x y}"

definition rect_before :: "rectangle \<Rightarrow> rectangle \<Rightarrow> bool" where
  "rect_before r s \<longleftrightarrow>
     (r_top r = r_top s \<and> r_bottom r = r_bottom s \<and> r_right r < r_left s) \<or> r_bottom r \<le> r_top s"

definition xband :: "int \<Rightarrow> int \<Rightarrow> rectangle list \<Rightarrow> bool" where
  "xband t b cs \<longleftrightarrow>
     (\<forall>c\<in>set cs. r_top c = t \<and> r_bottom c = b \<and> r_left c < r_right c) \<and>
     sorted_wrt (\<lambda>r s. r_right r < r_left s) cs"

definition row :: "rectangle list \<Rightarrow> int set" where
  "row cs = {x. \<exists>c\<in>set cs. r_left c \<le> x \<and> x < r_right c}"

lemma pts_Nil [simp]: "pts [] = {}"
  and pts_Cons: "pts (r # rs) = {(x, y). point_in_rect r x y} \<union> pts rs"
  and pts_append [simp]: "pts (rs @ ss) = pts rs \<union> pts ss"
  by (auto simp: pts_def)

lemma row_Nil [simp]: "row [] = {}"
  and row_Cons [simp]: "row (c # cs) = {r_left c ..< r_right c} \<union> row cs"
  and row_append [simp]: "row (cs @ ds) = row cs \<union> row ds"
  by (auto simp: row_def)

lemma xband_Nil [simp]: "xband t b []"
  and xband_Cons: "xband t b (c # cs) \<longleftrightarrow>
    r_top c = t \<and> r_bottom c = b \<and> r_left c < r_right c \<and> (\<forall>d\<in>set cs. r_right c < r_left d) \<and>
    xband t b cs"
  and xband_append: "xband t b (cs @ ds) \<longleftrightarrow>
    xband t b cs \<and> xband t b ds \<and> (\<forall>c\<in>set cs. \<forall>d\<in>set ds. r_right c < r_left d)"
  by (auto simp: xband_def sorted_wrt_append)

lemma pts_xband: "xband t b cs \<Longrightarrow> pts cs = {(x, y). x \<in> row cs \<and> t \<le> y \<and> y < b}"
  by (auto simp: xband_def pts_def row_def point_in_rect_def)

lemma row_empty_iff: "xband t b cs \<Longrightarrow> row cs = {} \<longleftrightarrow> cs = []"
  by (cases cs) (auto simp: xband_Cons)

lemma left_in_row: "xband t b cs \<Longrightarrow> c \<in> set cs \<Longrightarrow> r_left c \<in> row cs"
  by (auto simp: xband_def row_def)

text \<open>A rectangle to the left of everything in the row of a band comes before the band.\<close>

lemma xband_ConsI:
  assumes "xband t b cs" and "r_left c < r_right c" and "r_top c = t" and "r_bottom c = b"
    and "\<forall>x\<in>row cs. r_right c < x"
  shows "xband t b (c # cs)"
  using assms left_in_row [OF assms(1)] by (auto simp: xband_Cons)

lemma rect_before_trans:
  "rect_before r s \<Longrightarrow> rect_before s t \<Longrightarrow> \<not> is_rect_empty s \<Longrightarrow> rect_before r t"
  by (auto simp: rect_before_def is_rect_empty_def)

lemma validate_rectangles_Cons_Cons:
  "validate_rectangles (r # s # rs) \<longleftrightarrow>
     \<not> is_rect_empty r \<and> rect_before r s \<and> validate_rectangles (s # rs)"
  by (auto simp: rect_before_def is_rect_empty_def)

lemma validate_rectangles_iff:
  "validate_rectangles rs \<longleftrightarrow> (\<forall>r\<in>set rs. \<not> is_rect_empty r) \<and> sorted_wrt rect_before rs"
proof (induction rs)
  case (Cons r rs)
  show ?case
  proof (cases rs)
    case (Cons s ss)
    with Cons.IH show ?thesis
      by (auto simp only: validate_rectangles_Cons_Cons sorted_wrt.simps list.set
          intro: rect_before_trans)
  qed simp
qed simp

lemma validate_append:
  "validate_rectangles (rs @ ss) \<longleftrightarrow>
     validate_rectangles rs \<and> validate_rectangles ss \<and> (\<forall>r\<in>set rs. \<forall>s\<in>set ss. rect_before r s)"
  by (auto simp: validate_rectangles_iff sorted_wrt_append)

lemma validate_xband: "xband t b cs \<Longrightarrow> t < b \<Longrightarrow> validate_rectangles cs"
proof -
  assume cs: "xband t b cs" and "t < b"
  have "sorted_wrt rect_before cs"
    by (rule sorted_wrt_mono_rel [where P = "\<lambda>r s. r_right r < r_left s"])
       (use cs in \<open>auto simp: xband_def rect_before_def\<close>)
  then show ?thesis
    using cs \<open>t < b\<close> by (auto simp: validate_rectangles_iff xband_def is_rect_empty_def)
qed

lemma validate_append_xband:
  assumes "validate_rectangles rs" and "xband t b cs" and "t < b"
    and "\<forall>r\<in>set rs. r_bottom r \<le> t"
  shows "validate_rectangles (rs @ cs)"
  using assms validate_xband [OF assms(2,3)]
  by (auto simp: validate_append rect_before_def xband_def)

lemma row_right_of: "xband t b (c # cs) \<Longrightarrow> x \<in> row cs \<Longrightarrow> r_right c < x"
  by (auto simp: xband_Cons row_def)

section \<open>The head band of a list\<close>

lemma band_split: "band rs @ after_band rs = rs"
  by (simp add: band_def after_band_def)

lemma band_ne [simp]: "band rs = [] \<longleftrightarrow> rs = []"
  by (cases rs) (auto simp: band_def)

lemma hd_band [simp]: "rs \<noteq> [] \<Longrightarrow> hd (band rs) = hd rs"
  by (cases rs) (auto simp: band_def)

lemma after_band_head: "after_band rs = s # ss \<Longrightarrow> r_top s \<noteq> r_top (hd rs)"
  using hd_dropWhile [of "\<lambda>r. r_top r = r_top (hd rs)" rs] by (simp add: after_band_def)

lemma validate_band:
  assumes "validate_rectangles rs" and "rs \<noteq> []"
  shows "xband (r_top (hd rs)) (r_bottom (hd rs)) (band rs)"
proof -
  have v: "validate_rectangles (band rs)"
    using assms(1) validate_append [of "band rs" "after_band rs"] by (simp add: band_split)
  have tops: "\<forall>r\<in>set (band rs). r_top r = r_top (hd rs)"
    by (auto simp: band_def dest: set_takeWhileD)
  obtain cs where cs: "band rs = hd rs # cs"
    using assms(2) hd_band [OF assms(2)] by (cases "band rs") auto
  have ne: "\<forall>r\<in>set (band rs). \<not> is_rect_empty r" and so: "sorted_wrt rect_before (band rs)"
    using v by (auto simp: validate_rectangles_iff)
  have hd: "hd rs \<in> set (band rs)" by (simp add: cs)
  have bot: "r_bottom r = r_bottom (hd rs)" if r: "r \<in> set (band rs)" for r
  proof -
    have "r = hd rs \<or> rect_before (hd rs) r" using r so by (auto simp: cs)
    then show ?thesis
      using tops [rule_format, OF r] ne [rule_format, OF hd]
      by (auto simp: rect_before_def is_rect_empty_def)
  qed
  have "sorted_wrt (\<lambda>r s. r_right r < r_left s) (band rs)"
  proof (rule sorted_wrt_mono_rel [OF _ so])
    fix r s assume r: "r \<in> set (band rs)" and s: "s \<in> set (band rs)" and "rect_before r s"
    then show "r_right r < r_left s"
      using ne [rule_format, OF r] tops [rule_format, OF r] tops [rule_format, OF s]
      by (auto simp: rect_before_def is_rect_empty_def)
  qed
  then show ?thesis using tops bot ne unfolding xband_def is_rect_empty_def by fastforce
qed

lemma validate_after_band:
  assumes "validate_rectangles rs"
  shows "validate_rectangles (after_band rs)"
    and "r \<in> set (after_band rs) \<Longrightarrow> r_bottom (hd rs) \<le> r_top r"
proof -
  have va: "validate_rectangles (band rs @ after_band rs)" using assms by (simp add: band_split)
  then show "validate_rectangles (after_band rs)" by (simp add: validate_append)
  assume r: "r \<in> set (after_band rs)"
  then obtain s ss where s: "after_band rs = s # ss" by (cases "after_band rs") auto
  have top: "r_top s \<noteq> r_top (hd rs)" using after_band_head s by blast
  have ne: "rs \<noteq> []" using s by (auto simp: after_band_def)
  have hd: "hd rs \<in> set (band rs)" using hd_in_set [of "band rs"] ne by simp
  have so: "\<forall>x\<in>set (band rs). \<forall>y\<in>set (after_band rs). rect_before x y"
    and nes: "\<forall>x\<in>set rs. \<not> is_rect_empty x" and so2: "sorted_wrt rect_before (after_band rs)"
    using va assms by (auto simp: validate_rectangles_iff sorted_wrt_append)
  have set: "set rs = set (band rs) \<union> set (after_band rs)"
    using arg_cong [OF band_split [of rs], of set] by simp
  have "rect_before (hd rs) s" "rect_before (hd rs) r"
    using so hd s r by auto
  moreover have "r = s \<or> rect_before s r" using r so2 s by auto
  ultimately show "r_bottom (hd rs) \<le> r_top r"
    using top nes [rule_format, of "hd rs"] nes [rule_format, of s] hd_in_set [OF ne]
    by (auto simp: rect_before_def is_rect_empty_def set s)
qed

section \<open>Appending to the new region\<close>

text \<open>
  \<open>cap_ok\<close>: the used part of the buffer fits its capacity, so that every write of the band
  functions is inside the allocation.
\<close>

definition cap_ok :: "region \<Rightarrow> bool" where
  "cap_ok reg \<longleftrightarrow> num_rects reg \<le> rgn_size reg \<and> 0 < rgn_size reg"

definition appended :: "region \<Rightarrow> rectangle list \<Rightarrow> region \<Rightarrow> bool" where
  "appended reg cs reg' \<longleftrightarrow> rects reg' = rects reg @ cs \<and> extents reg' = extents reg"

lemma appended_Nil [simp]: "appended reg [] reg"
  by (simp add: appended_def)

lemma appended_trans: "appended a cs b \<Longrightarrow> appended b ds c \<Longrightarrow> appended a (cs @ ds) c"
  by (simp add: appended_def)

lemma appended_Cons: "appended a [x] b \<Longrightarrow> appended b ds c \<Longrightarrow> appended a (x # ds) c"
  by (simp add: appended_def)

lemma add_rect_appended: "add_rect mem reg r = (reg', True) \<Longrightarrow> appended reg [r] reg'"
  by (auto simp: add_rect_def appended_def split: if_splits)

text \<open>\<open>keeps\<close>: what every step of the construction leaves as it is, failing or not.\<close>

definition keeps :: "region \<Rightarrow> region \<Rightarrow> bool" where
  "keeps reg reg' \<longleftrightarrow> extents reg' = extents reg \<and> (cap_ok reg \<longrightarrow> cap_ok reg')"

lemma keeps_refl [simp]: "keeps reg reg"
  by (simp add: keeps_def)

lemma keeps_trans: "keeps a b \<Longrightarrow> keeps b c \<Longrightarrow> keeps a c"
  by (simp add: keeps_def)

lemma add_rect_keeps: "keeps reg (fst (add_rect mem reg r))"
  by (auto simp: add_rect_def cap_ok_def keeps_def)

lemma add_rect_total: "\<forall>n. mem n \<Longrightarrow> snd (add_rect mem reg r)"
  by (auto simp: add_rect_def)

lemma and_then_True:
  "and_then m f = (reg, True) \<longleftrightarrow> (\<exists>reg0. m = (reg0, True) \<and> f reg0 = (reg, True))"
  by (cases m) (auto simp: and_then_def)

lemma and_then_keeps:
  "keeps reg (fst m) \<Longrightarrow> (\<And>r. keeps r (fst (f r))) \<Longrightarrow> keeps reg (fst (and_then m f))"
  by (auto simp: and_then_def intro: keeps_trans)

lemma and_then_total: "snd m \<Longrightarrow> (\<And>r. snd (f r)) \<Longrightarrow> snd (and_then m f)"
  by (auto simp: and_then_def)

lemma opt_add_rect_appended:
  "(if P then add_rect mem reg r else (reg, True)) = (reg', True) \<Longrightarrow>
   appended reg (if P then [r] else []) reg'"
  by (auto dest: add_rect_appended split: if_splits)

section \<open>The overlap functions\<close>

text \<open>
  \<open>emits reg reg' t b S\<close>: between \<open>reg\<close> and \<open>reg'\<close> one well-formed band on the lines
  \<open>t \<le> y < b\<close> has been appended, and it covers the columns \<open>S\<close>.
\<close>

definition emits :: "region \<Rightarrow> region \<Rightarrow> int \<Rightarrow> int \<Rightarrow> int set \<Rightarrow> bool" where
  "emits reg reg' t b S \<longleftrightarrow> (\<exists>cs. appended reg cs reg' \<and> xband t b cs \<and> row cs = S)"

lemma emits_Nil [simp]: "emits reg reg t b {}"
  by (auto simp: emits_def intro!: exI [where x = "[]"])

lemma emits_Cons:
  assumes "appended reg [mk_rect l t r b] reg0" "emits reg0 reg' t b S" "l < r" "\<forall>x\<in>S. r < x"
    and "S' = {l ..< r} \<union> S"
  shows "emits reg reg' t b S'"
proof -
  obtain cs where cs: "appended reg0 cs reg'" "xband t b cs" "row cs = S"
    using assms(2) by (auto simp: emits_def)
  have "xband t b (mk_rect l t r b # cs)" using cs assms(3,4) by (intro xband_ConsI) auto
  moreover have "row (mk_rect l t r b # cs) = S'" using cs assms(5) by simp
  ultimately show ?thesis using appended_Cons [OF assms(1) cs(1)] by (auto simp: emits_def)
qed

lemma intersect_overlapping_ok:
  "intersect_overlapping mem reg r1 r2 t b = (reg', True) \<Longrightarrow> xband t1 b1 r1 \<Longrightarrow> xband t2 b2 r2 \<Longrightarrow>
   emits reg reg' t b (row r1 \<inter> row r2)"
proof (induction mem reg r1 r2 t b rule: intersect_overlapping.induct)
  case (1 mem reg r1 r1s r2 r2s t b)
  let ?l = "max (r_left r1) (r_left r2)" and ?r = "min (r_right r1) (r_right r2)"
  let ?s1 = "if r_right r1 \<le> r_right r2 then r1s else r1 # r1s"
  let ?s2 = "if r_right r2 \<le> r_right r1 then r2s else r2 # r2s"
  have x1: "xband t1 b1 r1s" "\<forall>x\<in>row r1s. r_right r1 < x"
    and x2: "xband t2 b2 r2s" "\<forall>x\<in>row r2s. r_right r2 < x"
    using "1.prems"(2,3) row_right_of by (auto simp: xband_Cons)
  obtain reg0 where
    add: "(if ?l < ?r then add_rect mem reg (mk_rect ?l t ?r b) else (reg, True)) = (reg0, True)"
    and rec: "intersect_overlapping mem reg0 ?s1 ?s2 t b = (reg', True)"
    using "1.prems"(1) unfolding intersect_overlapping.simps Let_def and_then_True
    by (auto split: if_splits)
  have em: "emits reg0 reg' t b (row ?s1 \<inter> row ?s2)"
    using "1.IH" "1.prems"(2,3) rec x1(1) x2(1) by (auto split: if_splits)
  have right: "\<forall>x\<in>row ?s1 \<inter> row ?s2. ?r < x"
    using x1(2) x2(2) by (auto split: if_splits)
  have eq: "row (r1 # r1s) \<inter> row (r2 # r2s) = {?l ..< ?r} \<union> (row ?s1 \<inter> row ?s2)"
    using x1(2) x2(2) by (auto split: if_splits)
  show ?case
  proof (cases "?l < ?r")
    case True
    then show ?thesis
      using emits_Cons [OF add_rect_appended em True right eq] add by (simp split: if_splits)
  next
    case False
    have "reg0 = reg" using add unfolding if_not_P [OF False] by simp
    moreover have "{?l ..< ?r} = {}" using False by simp
    ultimately show ?thesis using em unfolding eq by (simp only: Un_empty_left)
  qed
qed simp_all

lemma intersect_overlapping_keeps:
  "keeps reg (fst (intersect_overlapping mem reg r1 r2 t b))"
  by (induction mem reg r1 r2 t b rule: intersect_overlapping.induct)
     (auto simp: Let_def intro!: and_then_keeps add_rect_keeps)

lemma intersect_overlapping_total:
  "\<forall>n. mem n \<Longrightarrow> snd (intersect_overlapping mem reg r1 r2 t b)"
  by (induction mem reg r1 r2 t b rule: intersect_overlapping.induct)
     (auto simp: Let_def intro!: and_then_total add_rect_total)

text \<open>The non-overlap functions copy a band to other lines.\<close>

definition at_lines :: "int \<Rightarrow> int \<Rightarrow> rectangle list \<Rightarrow> rectangle list" where
  "at_lines t b rs = map (\<lambda>r. mk_rect (r_left r) t (r_right r) b) rs"

lemma xband_at_lines: "xband t' b' rs \<Longrightarrow> xband t b (at_lines t b rs)"
  by (auto simp: xband_def at_lines_def sorted_wrt_map)

lemma row_at_lines [simp]: "row (at_lines t b rs) = row rs"
  by (auto simp: row_def at_lines_def)

lemma at_lines_eq_Nil [simp]: "at_lines t b rs = [] \<longleftrightarrow> rs = []"
  by (simp add: at_lines_def)

definition copies :: "non_overlap_func \<Rightarrow> bool" where
  "copies f \<longleftrightarrow>
     (\<forall>mem reg rs t b reg'. f mem reg rs t b = (reg', True) \<longrightarrow> appended reg (at_lines t b rs) reg') \<and>
     (\<forall>mem reg rs t b. keeps reg (fst (f mem reg rs t b))) \<and>
     (\<forall>mem reg rs t b. (\<forall>n. mem n) \<longrightarrow> snd (f mem reg rs t b))"

lemma subtract_non_overlapping_appended:
  "subtract_non_overlapping mem reg rs t b = (reg', True) \<Longrightarrow> appended reg (at_lines t b rs) reg'"
  by (induction mem reg rs t b rule: subtract_non_overlapping.induct)
     (auto simp: at_lines_def and_then_True dest!: add_rect_appended intro: appended_Cons)

lemma copies_subtract_non_overlapping: "copies subtract_non_overlapping"
proof -
  have "keeps reg (fst (subtract_non_overlapping mem reg rs t b))" for mem reg rs t b
    by (induction mem reg rs t b rule: subtract_non_overlapping.induct)
       (auto intro!: and_then_keeps add_rect_keeps)
  moreover have "\<forall>n. mem n \<Longrightarrow> snd (subtract_non_overlapping mem reg rs t b)" for mem reg rs t b
    by (induction mem reg rs t b rule: subtract_non_overlapping.induct)
       (auto intro!: and_then_total add_rect_total)
  ultimately show ?thesis using subtract_non_overlapping_appended by (auto simp: copies_def)
qed

lemma union_non_overlapping_eq: "union_non_overlapping = subtract_non_overlapping"
proof (intro ext)
  show "union_non_overlapping mem reg rs t b = subtract_non_overlapping mem reg rs t b"
    for mem reg rs t b
    by (induction mem reg rs t b rule: union_non_overlapping.induct) (simp_all add: and_then_def)
qed

lemma copies_union_non_overlapping: "copies union_non_overlapping"
  by (simp add: union_non_overlapping_eq copies_subtract_non_overlapping)

text \<open>
  Subtraction keeps \<open>left\<close> inside the first rectangle of what remains of the first band.
\<close>

definition left_inside :: "int \<Rightarrow> rectangle list \<Rightarrow> bool" where
  "left_inside l rs \<longleftrightarrow> rs \<noteq> [] \<longrightarrow> r_left (hd rs) \<le> l \<and> l < r_right (hd rs)"

lemma left_inside_next_left: "xband t b rs \<Longrightarrow> left_inside (next_left l rs) rs"
  by (cases rs) (auto simp: left_inside_def next_left_def xband_Cons)

lemma row_from_next_left: "xband t b rs \<Longrightarrow> row rs \<inter> {next_left l rs ..} = row rs"
  by (cases rs) (auto simp: next_left_def xband_Cons row_def)

lemma subtract_rest_ok:
  "subtract_rest mem reg l r1 t b = (reg', True) \<Longrightarrow> xband t1 b1 r1 \<Longrightarrow> left_inside l r1 \<Longrightarrow>
   emits reg reg' t b (row r1 \<inter> {l ..})"
proof (induction mem reg l r1 t b rule: subtract_rest.induct)
  case (2 mem reg l r1 r1s t b)
  have x1: "xband t1 b1 r1s" "\<forall>x\<in>row r1s. r_right r1 < x"
    using "2.prems"(2) row_right_of by (auto simp: xband_Cons)
  have l: "r_left r1 \<le> l" "l < r_right r1" using "2.prems"(3) by (auto simp: left_inside_def)
  obtain reg0 where reg0: "appended reg [mk_rect l t (r_right r1) b] reg0"
    and rec: "subtract_rest mem reg0 (next_left l r1s) r1s t b = (reg', True)"
    using "2.prems"(1) by (auto simp: and_then_True dest: add_rect_appended)
  have em: "emits reg0 reg' t b (row r1s)"
    using "2.IH" [OF rec x1(1) left_inside_next_left [OF x1(1)]] row_from_next_left [OF x1(1)]
    by simp
  show ?case by (rule emits_Cons [OF reg0 em]) (use x1 l in auto)
qed simp_all

lemma subtract_loop_ok:
  "subtract_loop mem reg l r1 r2 t b = (reg', True) \<Longrightarrow> xband t1 b1 r1 \<Longrightarrow> xband t2 b2 r2 \<Longrightarrow>
   left_inside l r1 \<Longrightarrow> emits reg reg' t b (row r1 \<inter> {l ..} - row r2)"
proof (induction mem reg l r1 r2 t b rule: subtract_loop.induct)
  case (1 mem reg l r1 r1s r2 r2s t b)
  have x1: "xband t1 b1 r1s" "\<forall>x\<in>row r1s. r_right r1 < x"
    and x2: "xband t2 b2 r2s" "\<forall>x\<in>row r2s. r_right r2 < x" "r_left r2 < r_right r2"
    using "1.prems"(2,3) row_right_of by (auto simp: xband_Cons)
  have l: "r_left r1 \<le> l" "l < r_right r1" using "1.prems"(4) by (auto simp: left_inside_def)
  have nl: "left_inside (next_left m r1s) r1s" "row r1s \<inter> {next_left m r1s ..} = row r1s" for m
    using left_inside_next_left row_from_next_left x1(1) by auto
  let ?S = "row (r1 # r1s) \<inter> {l ..} - row (r2 # r2s)"
  let ?S' = "if r_right r2 \<ge> r_right r1 then row r1s - row (r2 # r2s)
             else row (r1 # r1s) \<inter> {r_right r2 ..} - row r2s"
  consider "r_right r2 \<le> l" | "l < r_right r2" "r_left r2 \<le> l"
    | "l < r_left r2" "l < r_right r2" "r_left r2 < r_right r1"
    | "l < r_left r2" "l < r_right r2" "r_right r1 \<le> r_left r2"
    using x2(3) by linarith
  then show ?case
  proof cases
    case 1
    have "row (r1 # r1s) \<inter> {l ..} - row r2s = ?S" using 1 by auto
    then show ?thesis using "1.IH"(1) "1.prems" x2(1) 1 by simp
  next
    case 2
    have "?S = ?S'" using 2 x1(2) l by (auto split: if_splits)
    moreover have "emits reg reg' t b ?S'"
      using "1.IH"(2,3) "1.prems" 2 x1 x2 nl l
      by (cases "r_right r2 \<ge> r_right r1") (simp_all add: left_inside_def)
    ultimately show ?thesis by simp
  next
    case 3
    obtain reg0 where add: "add_rect mem reg (mk_rect l t (r_left r2) b) = (reg0, True)"
      and rec: "(if r_right r2 \<ge> r_right r1
          then subtract_loop mem reg0 (next_left (r_right r2) r1s) r1s (r2 # r2s) t b
          else subtract_loop mem reg0 (r_right r2) (r1 # r1s) r2s t b) = (reg', True)"
      using "1.prems"(1) 3 by (auto simp: and_then_True)
    have em: "emits reg0 reg' t b ?S'"
      using "1.IH"(4,5) "1.prems" 3 x1 x2 nl l rec
      by (cases "r_right r2 \<ge> r_right r1") (simp_all add: left_inside_def)
    show ?thesis
      by (rule emits_Cons [OF add_rect_appended [OF add] em])
         (use 3 x1(2) x2 l in \<open>auto split: if_splits\<close>)
  next
    case 4
    obtain reg0 where add: "add_rect mem reg (mk_rect l t (r_right r1) b) = (reg0, True)"
      and rec: "subtract_loop mem reg0 (next_left l r1s) r1s (r2 # r2s) t b = (reg', True)"
      using "1.prems"(1) 4 l by (auto simp: and_then_True)
    have em: "emits reg0 reg' t b (row r1s - row (r2 # r2s))"
      using "1.IH"(6) [of reg0] rec x1(1) "1.prems"(3) nl 4 by simp
    show ?thesis
      by (rule emits_Cons [OF add_rect_appended [OF add] em]) (use 4 x1(2) x2 l in auto)
  qed
qed (use subtract_rest_ok in fastforce)+

lemma subtract_overlapping_ok:
  "subtract_overlapping mem reg r1 r2 t b = (reg', True) \<Longrightarrow> xband t1 b1 r1 \<Longrightarrow> xband t2 b2 r2 \<Longrightarrow>
   emits reg reg' t b (row r1 - row r2)"
proof -
  assume run: "subtract_overlapping mem reg r1 r2 t b = (reg', True)"
    and x: "xband t1 b1 r1" "xband t2 b2 r2"
  have "left_inside (r_left (hd r1)) r1" "row r1 \<inter> {r_left (hd r1) ..} = row r1"
    using x(1) by (cases r1; fastforce simp: left_inside_def xband_Cons row_def)+
  then show ?thesis using subtract_loop_ok [OF run [unfolded subtract_overlapping_def] x] by simp
qed

lemma subtract_overlapping_keeps:
  "keeps reg (fst (subtract_overlapping mem reg r1 r2 t b))"
proof -
  have rest: "keeps reg (fst (subtract_rest mem reg l r1 t b))" for mem reg l r1 t b
    by (induction mem reg l r1 t b rule: subtract_rest.induct)
       (auto intro!: and_then_keeps add_rect_keeps)
  have "keeps reg (fst (subtract_loop mem reg l r1 r2 t b))" for l
    by (induction mem reg l r1 r2 t b rule: subtract_loop.induct)
       (auto intro!: and_then_keeps add_rect_keeps rest)
  then show ?thesis by (simp add: subtract_overlapping_def)
qed

lemma subtract_overlapping_total:
  "\<forall>n. mem n \<Longrightarrow> snd (subtract_overlapping mem reg r1 r2 t b)"
proof -
  have rest: "\<forall>n. mem n \<Longrightarrow> snd (subtract_rest mem reg l r1 t b)" for mem reg l r1 t b
    by (induction mem reg l r1 t b rule: subtract_rest.induct)
       (auto intro!: and_then_total add_rect_total)
  have "\<forall>n. mem n \<Longrightarrow> snd (subtract_loop mem reg l r1 r2 t b)" for l
    by (induction mem reg l r1 r2 t b rule: subtract_loop.induct)
       (auto intro!: and_then_total add_rect_total rest)
  then show "\<forall>n. mem n \<Longrightarrow> ?thesis" by (simp add: subtract_overlapping_def)
qed

text \<open>
  While the union runs, everything it has emitted starts at or left of the next rectangle;
  \<open>MERGERECT\<close> extends the last emitted rectangle or starts a new one.
\<close>

definition merging :: "region \<Rightarrow> region \<Rightarrow> int \<Rightarrow> int \<Rightarrow> int set \<Rightarrow> int \<Rightarrow> bool" where
  "merging reg0 reg t b S l \<longleftrightarrow>
     (\<exists>cs. appended reg0 cs reg \<and> xband t b cs \<and> row cs = S \<and> (\<forall>c\<in>set cs. r_left c \<le> l))"

lemma merging_mono: "merging reg0 reg t b S l \<Longrightarrow> l \<le> m \<Longrightarrow> merging reg0 reg t b S m"
  by (fastforce simp: merging_def)

lemma merging_emits: "merging reg0 reg t b S l \<Longrightarrow> emits reg0 reg t b S"
  by (auto simp: merging_def emits_def)

lemma MERGERECT_new:
  assumes "add_rect mem reg (mk_rect (r_left r) t (r_right r) b) = (reg', True)"
    and "appended reg0 cs reg" and "xband t b cs" and "\<forall>c\<in>set cs. r_left c \<le> r_left r"
    and "\<forall>c\<in>set cs. r_right c < r_left r" and "r_left r < r_right r"
  shows "merging reg0 reg' t b (row cs \<union> {r_left r ..< r_right r}) (r_left r)"
  unfolding merging_def
  by (rule exI [where x = "cs @ [mk_rect (r_left r) t (r_right r) b]"])
     (use assms add_rect_appended [OF assms(1)] in
       \<open>auto simp: appended_def xband_append xband_Cons\<close>)

lemma MERGERECT_ok:
  assumes run: "MERGERECT mem reg r t b = (reg', True)"
    and m: "merging reg0 reg t b S (r_left r)"
    and base: "\<forall>q\<in>set (rects reg0). r_top q \<noteq> t" and ne: "r_left r < r_right r"
  shows "merging reg0 reg' t b (S \<union> {r_left r ..< r_right r}) (r_left r)"
proof -
  obtain cs where cs: "appended reg0 cs reg" "xband t b cs" "row cs = S"
    "\<forall>c\<in>set cs. r_left c \<le> r_left r"
    using m by (auto simp: merging_def)
  show ?thesis
  proof (cases cs rule: rev_cases)
    case Nil
    then have "rects reg \<noteq> [] \<Longrightarrow> r_top (last (rects reg)) \<noteq> t"
      using base cs(1) by (simp add: appended_def)
    then show ?thesis
      using run MERGERECT_new [OF _ cs(1,2,4), of mem reg'] ne Nil cs(3)
      by (auto simp: MERGERECT_def Let_def split: if_splits)
  next
    case (snoc ds d)
    have d: "rects reg = rects reg0 @ ds @ [d]" "r_top d = t" "r_bottom d = b"
      "r_left d < r_right d" "\<forall>c\<in>set ds. r_right c < r_left d" "xband t b ds"
      using cs(1,2) snoc by (auto simp: appended_def xband_append xband_Cons)
    show ?thesis
    proof (cases "r_right d \<ge> r_left r")
      case True
      let ?d = "if r_right d < r_right r then d\<lparr>r_right := r_right r\<rparr> else d"
      have "appended reg0 (ds @ [?d]) reg'"
        using run d True cs(1) by (auto simp: MERGERECT_def appended_def butlast_append)
      moreover have "xband t b (ds @ [?d])" using d by (auto simp: xband_append xband_Cons)
      moreover have "row (ds @ [?d]) = S \<union> {r_left r ..< r_right r}"
        using cs(3,4) snoc True d ne by auto
      ultimately show ?thesis
        unfolding merging_def using cs(4) snoc by (intro exI [where x = "ds @ [?d]"]) auto
    next
      case False
      have "\<forall>c\<in>set cs. r_right c < r_left r" using False d snoc by auto
      then show ?thesis
        using run MERGERECT_new [OF _ cs(1,2,4), of mem reg'] ne cs(3) False d
        by (auto simp: MERGERECT_def Let_def)
    qed
  qed
qed

lemma union_overlapping_merging:
  "union_overlapping mem reg r1 r2 t b = (reg', True) \<Longrightarrow> xband t1 b1 r1 \<Longrightarrow> xband t2 b2 r2 \<Longrightarrow>
   \<forall>q\<in>set (rects reg0). r_top q \<noteq> t \<Longrightarrow>
   merging reg0 reg t b S l \<Longrightarrow> (\<forall>q\<in>set (r1 @ r2). l \<le> r_left q) \<Longrightarrow>
   emits reg0 reg' t b (S \<union> row r1 \<union> row r2)"
proof (induction mem reg r1 r2 t b arbitrary: S l rule: union_overlapping.induct)
  case (1 mem reg r1 r1s r2 r2s t b)
  have x: "xband t1 b1 r1s" "xband t2 b2 r2s" "\<forall>q\<in>set r1s. r_left r1 \<le> r_left q"
    "\<forall>q\<in>set r2s. r_left r2 \<le> r_left q" "r_left r1 < r_right r1" "r_left r2 < r_right r2"
    using "1.prems"(2,3) by (fastforce simp: xband_Cons)+
  have m: "merging reg0 reg t b S (r_left r1)" "merging reg0 reg t b S (r_left r2)"
    using "1.prems"(5,6) by (auto intro: merging_mono)
  show ?case
  proof (cases "r_left r1 < r_left r2")
    case True
    then obtain reg1 where run: "MERGERECT mem reg r1 t b = (reg1, True)"
      and rec: "union_overlapping mem reg1 r1s (r2 # r2s) t b = (reg', True)"
      using "1.prems"(1) by (auto simp: and_then_True)
    have "emits reg0 reg' t b (S \<union> {r_left r1 ..< r_right r1} \<union> row r1s \<union> row (r2 # r2s))"
      by (rule "1.IH"(1) [OF True rec x(1) "1.prems"(3,4)
            MERGERECT_ok [OF run m(1) "1.prems"(4) x(5)]])
         (use x True in auto)
    then show ?thesis by (simp add: Un_assoc)
  next
    case False
    then obtain reg1 where run: "MERGERECT mem reg r2 t b = (reg1, True)"
      and rec: "union_overlapping mem reg1 (r1 # r1s) r2s t b = (reg', True)"
      using "1.prems"(1) by (auto simp: and_then_True)
    have "emits reg0 reg' t b (S \<union> {r_left r2 ..< r_right r2} \<union> row (r1 # r1s) \<union> row r2s)"
      by (rule "1.IH"(2) [OF False rec "1.prems"(2) x(2) "1.prems"(4)
            MERGERECT_ok [OF run m(2) "1.prems"(4) x(6)]])
         (use x False in auto)
    then show ?thesis by (simp add: Un_ac)
  qed
next
  case (2 mem reg r1 r1s t b)
  have x: "xband t1 b1 r1s" "\<forall>q\<in>set r1s. r_left r1 \<le> r_left q" "r_left r1 < r_right r1"
    using "2.prems"(2) by (fastforce simp: xband_Cons)+
  have m: "merging reg0 reg t b S (r_left r1)" using "2.prems"(5,6) by (auto intro: merging_mono)
  obtain reg1 where run: "MERGERECT mem reg r1 t b = (reg1, True)"
    and rec: "union_overlapping mem reg1 r1s [] t b = (reg', True)"
    using "2.prems"(1) by (auto simp: and_then_True)
  have "emits reg0 reg' t b (S \<union> {r_left r1 ..< r_right r1} \<union> row r1s \<union> row [])"
    by (rule "2.IH" [OF rec x(1) "2.prems"(3,4) MERGERECT_ok [OF run m "2.prems"(4) x(3)]])
       (use x in auto)
  then show ?case by (simp add: Un_assoc)
next
  case (3 mem reg r2 r2s t b)
  have x: "xband t2 b2 r2s" "\<forall>q\<in>set r2s. r_left r2 \<le> r_left q" "r_left r2 < r_right r2"
    using "3.prems"(3) by (fastforce simp: xband_Cons)+
  have m: "merging reg0 reg t b S (r_left r2)" using "3.prems"(5,6) by (auto intro: merging_mono)
  obtain reg1 where run: "MERGERECT mem reg r2 t b = (reg1, True)"
    and rec: "union_overlapping mem reg1 [] r2s t b = (reg', True)"
    using "3.prems"(1) by (auto simp: and_then_True)
  have "emits reg0 reg' t b (S \<union> {r_left r2 ..< r_right r2} \<union> row [] \<union> row r2s)"
    by (rule "3.IH" [OF rec "3.prems"(2) x(1) "3.prems"(4) MERGERECT_ok [OF run m "3.prems"(4) x(3)]])
       (use x in auto)
  then show ?case by (simp add: Un_assoc)
next
  case (4 mem reg t b)
  then show ?case by (auto dest: merging_emits)
qed

lemma union_overlapping_ok:
  assumes "union_overlapping mem reg r1 r2 t b = (reg', True)" "xband t1 b1 r1" "xband t2 b2 r2"
    and "\<forall>q\<in>set (rects reg). r_top q \<noteq> t"
  shows "emits reg reg' t b (row r1 \<union> row r2)"
proof -
  define l where "l = Min (insert 0 (r_left ` set (r1 @ r2)))"
  have "\<forall>q\<in>set (r1 @ r2). l \<le> r_left q" by (auto simp: l_def)
  moreover have "merging reg reg t b {} l"
    by (auto simp: merging_def intro!: exI [where x = "[]"])
  ultimately show ?thesis using union_overlapping_merging [OF assms] by fastforce
qed

lemma MERGERECT_keeps: "keeps reg (fst (MERGERECT mem reg r t b))"
  by (auto simp: MERGERECT_def Let_def cap_ok_def keeps_def add_rect_def)

lemma MERGERECT_total: "\<forall>n. mem n \<Longrightarrow> snd (MERGERECT mem reg r t b)"
  using add_rect_total by (auto simp: MERGERECT_def Let_def)

lemma union_overlapping_keeps: "keeps reg (fst (union_overlapping mem reg r1 r2 t b))"
  by (induction mem reg r1 r2 t b rule: union_overlapping.induct)
     (auto intro!: and_then_keeps MERGERECT_keeps)

lemma union_overlapping_total: "\<forall>n. mem n \<Longrightarrow> snd (union_overlapping mem reg r1 r2 t b)"
  by (induction mem reg r1 r2 t b rule: union_overlapping.induct)
     (auto intro!: and_then_total MERGERECT_total)

end
