(* ===== verification/Region_Op.thy ===== *)
theory Region_Op
  imports Region_Bands
begin

text \<open>
  Correctness of \<open>region_op\<close> of \<open>server/region.c\<close>, once for every boolean operation on point
  sets.  The locale \<open>band_op\<close> is the contract between \<open>region_op\<close> and the functions it is called
  with; the intersection, subtraction and union functions interpret it.
\<close>

section \<open>Coalescing\<close>

text \<open>
  \<open>last_band reg p\<close>: \<open>p\<close> is the index at which the last band of the region starts.
  \<open>good reg p y\<close>: the region under construction is a valid list above line \<open>y\<close>.
\<close>

definition last_band :: "region \<Rightarrow> nat \<Rightarrow> bool" where
  "last_band reg p \<longleftrightarrow>
     (\<exists>pre prev t b. rects reg = pre @ prev \<and> p = length pre \<and> xband t b prev \<and>
        (prev = [] \<longrightarrow> pre = []) \<and> (\<forall>r\<in>set pre. r_top r \<noteq> t))"

definition good :: "region \<Rightarrow> nat \<Rightarrow> int \<Rightarrow> bool" where
  "good reg p y \<longleftrightarrow>
     validate_rectangles (rects reg) \<and> (\<forall>r\<in>set (rects reg). r_bottom r \<le> y) \<and> last_band reg p"

lemma good_mono: "good reg p y \<Longrightarrow> y \<le> z \<Longrightarrow> good reg p z"
  by (fastforce simp: good_def)

lemma good_cong:
  assumes "rects reg' = rects reg" and "good reg p y"
  shows "good reg' p y"
  using assms(2) unfolding good_def last_band_def assms(1) .

lemma map2_at_lines:
  "list_all2 (\<lambda>p c. r_left p = r_left c \<and> r_right p = r_right c) prev cur \<Longrightarrow>
   xband t0 b0 prev \<Longrightarrow> xband t b cur \<Longrightarrow>
   map2 (\<lambda>p c. p\<lparr>r_bottom := r_bottom c\<rparr>) prev cur = at_lines t0 b prev \<and> row prev = row cur"
  by (induction rule: list_all2_induct) (auto simp: at_lines_def xband_Cons)

lemma coalesce_region_cases:
  assumes rs: "rects reg = pre @ prev @ cur @ rest" and cur: "xband t b cur" "cur \<noteq> []"
    and prev: "xband t0 b0 prev" and rest: "rest \<noteq> [] \<Longrightarrow> r_top (hd rest) \<noteq> t"
    and pq: "p = length pre" "q = length pre + length prev"
  shows "(fst (coalesce_region reg p q) = reg \<and>
          (rest = [] \<longrightarrow> snd (coalesce_region reg p q) = q)) \<or>
         (fst (coalesce_region reg p q) = reg\<lparr>rects := pre @ at_lines t0 b prev @ rest\<rparr> \<and>
          prev \<noteq> [] \<and> b0 = t \<and> row prev = row cur \<and>
          (rest = [] \<longrightarrow> snd (coalesce_region reg p q) = p))"
proof -
  have top: "r_top (rects reg ! q) = t" "\<forall>c\<in>set cur. r_top c = t"
    using cur by (auto simp: rs pq nth_append hd_conv_nth [symmetric] xband_def)
  have drop: "drop q (rects reg) = cur @ rest" "take (q - p) (drop p (rects reg)) = prev"
    "take p (rects reg) = pre" "drop (q + length cur) (rects reg) = rest"
    by (simp_all add: rs pq)
  have tw: "takeWhile (\<lambda>r. r_top r = t) (cur @ rest) = cur"
    using top(2) rest by (cases rest) (auto simp: takeWhile_append)
  have len: "q + length cur \<noteq> length (rects reg) \<longleftrightarrow> rest \<noteq> []" by (simp add: rs pq)
  have num: "num_rects reg = length pre + length prev + length cur + length rest"
    by (simp add: rs)
  have bot: "prev \<noteq> [] \<Longrightarrow> r_bottom (rects reg ! p) = b0"
    using prev by (cases prev) (auto simp: rs pq nth_append xband_Cons)
  show ?thesis
    using map2_at_lines [OF _ prev cur(1)] cur(2) bot
    unfolding coalesce_region_def Let_def top(1) drop tw len
    by (auto simp: drop pq num)
qed

lemma length_coalesce_region:
  "length (rects (fst (coalesce_region reg p q))) \<le> length (rects reg)"
  by (cases "p \<le> q") (auto simp: coalesce_region_def Let_def min_def)

lemma coalesce_if_keeps: "keeps reg (fst (coalesce_if reg p q))"
proof -
  have "rgn_size (fst (coalesce_region reg p q)) = rgn_size reg"
    "extents (fst (coalesce_region reg p q)) = extents reg"
    by (auto simp: coalesce_region_def Let_def)
  then show ?thesis
    using length_coalesce_region [of reg p q] by (auto simp: coalesce_if_def cap_ok_def keeps_def)
qed

lemma valid_last_band:
  assumes "validate_rectangles (pre @ prev)" "xband t b prev" "prev \<noteq> []"
    "\<forall>r\<in>set pre. r_top r \<noteq> t"
  shows "t < b" "\<forall>r\<in>set pre. r_bottom r \<le> t"
proof -
  obtain c where c: "c \<in> set prev" "r_top c = t" "r_bottom c = b"
    using assms(2,3) by (cases prev) (auto simp: xband_Cons)
  have "\<not> is_rect_empty c" "\<forall>r\<in>set pre. rect_before r c"
    using assms(1) c by (auto simp: validate_rectangles_iff sorted_wrt_append)
  then show "t < b" "\<forall>r\<in>set pre. r_bottom r \<le> t"
    using c assms(4) by (auto simp: rect_before_def is_rect_empty_def)
qed

text \<open>
  What one band, appended and coalesced with the previous one, does to the region under
  construction.
\<close>

lemma good_emit:
  assumes g: "good reg p y" and e: "emits reg reg' t b S" and tb: "y \<le> t" "t < b"
  shows "good (fst (coalesce_if reg' p (num_rects reg))) (snd (coalesce_if reg' p (num_rects reg))) b"
    and "pts (rects (fst (coalesce_if reg' p (num_rects reg)))) =
         pts (rects reg) \<union> {(x, y). x \<in> S \<and> t \<le> y \<and> y < b}"
proof -
  let ?c = "coalesce_if reg' p (num_rects reg)"
  obtain cs where cs: "rects reg' = rects reg @ cs" "xband t b cs" "row cs = S"
    using e by (auto simp: emits_def appended_def)
  obtain pre prev t0 b0 where pp: "rects reg = pre @ prev" "p = length pre" "xband t0 b0 prev"
    "prev = [] \<longrightarrow> pre = []" "\<forall>r\<in>set pre. r_top r \<noteq> t0"
    using g by (auto simp: good_def last_band_def)
  have v: "validate_rectangles (rects reg @ cs)" and bs: "\<forall>r\<in>set (rects reg). r_bottom r \<le> t"
    using g tb cs by (auto intro!: validate_append_xband simp: good_def)
  have top_ne: "\<forall>r\<in>set (rects reg). r_top r \<noteq> t"
    using g bs by (fastforce simp: good_def validate_rectangles_iff is_rect_empty_def)
  have bc: "\<forall>r\<in>set (rects reg @ cs). r_bottom r \<le> b"
    using bs tb cs(2) by (fastforce simp: xband_def)
  have "good (fst ?c) (snd ?c) b \<and>
    pts (rects (fst ?c)) = pts (rects reg) \<union> {(x, y). x \<in> S \<and> t \<le> y \<and> y < b}"
  proof (cases "cs = []")
    case True
    have S: "S = {}" and r: "rects reg' = rects reg" using cs(1,3) unfolding True by simp_all
    have c: "?c = (reg', p)" using r by (simp add: coalesce_if_def)
    have "good reg' p b" by (rule good_mono [OF good_cong [OF r g]]) (use tb in simp)
    then show ?thesis unfolding c S by (simp add: r)
  next
    case False
    then have c: "?c = coalesce_region reg' p (num_rects reg)" by (simp add: coalesce_if_def cs)
    have pc: "pts cs = {(x, y). x \<in> S \<and> t \<le> y \<and> y < b}" using pts_xband cs by auto
    have "(fst ?c = reg' \<and> snd ?c = num_rects reg) \<or>
      (fst ?c = reg'\<lparr>rects := pre @ at_lines t0 b prev\<rparr> \<and> prev \<noteq> [] \<and> b0 = t \<and>
       row prev = row cs \<and> snd ?c = p)"
      using coalesce_region_cases [where rest = "[]", OF _ cs(2) False pp(3)] cs(1) pp(1,2)
      unfolding c by simp
    then consider "fst ?c = reg'" "snd ?c = num_rects reg"
      | "rects (fst ?c) = pre @ at_lines t0 b prev" "snd ?c = p" "prev \<noteq> []" "b0 = t"
        "row prev = row cs"
      by (metis region.select_convs(2) region.surjective region.update_convs(2))
    then show ?thesis
    proof cases
      case 1
      have "last_band reg' (num_rects reg)"
        unfolding last_band_def using cs(1,2) False top_ne
        by (intro exI [where x = "rects reg"] exI [where x = cs] exI [where x = t]
            exI [where x = b]) simp
      then show ?thesis using v bc pc unfolding good_def 1 cs(1) by simp
    next
      case 2
      have t0: "t0 < t" and prebot: "\<forall>r\<in>set pre. r_bottom r \<le> t0"
        using valid_last_band [of pre prev] g 2(3,4) pp by (auto simp: good_def)
      have v': "validate_rectangles (pre @ at_lines t0 b prev)"
        using g pp(1,3) prebot t0 tb
        by (intro validate_append_xband [where t = t0 and b = b])
           (auto simp: good_def validate_append xband_at_lines)
      have b': "\<forall>r\<in>set (pre @ at_lines t0 b prev). r_bottom r \<le> b"
        using prebot t0 tb by (fastforce simp: at_lines_def)
      have "last_band (fst ?c) (snd ?c)"
        unfolding last_band_def using 2 pp xband_at_lines [OF pp(3), of t0 b]
        by (intro exI [where x = pre] exI [where x = "at_lines t0 b prev"] exI [where x = t0]
            exI [where x = b]) simp
      moreover have "pts (at_lines t0 b prev) = pts prev \<union> pts cs"
        using pts_xband [OF xband_at_lines [OF pp(3)]] pts_xband [OF pp(3)] pts_xband [OF cs(2)]
          2(4,5) t0 tb by auto
      ultimately show ?thesis using v' b' pc unfolding good_def 2(1) by (simp add: pp(1) Un_assoc)
    qed
  qed
  then show "good (fst ?c) (snd ?c) b"
    "pts (rects (fst ?c)) = pts (rects reg) \<union> {(x, y). x \<in> S \<and> t \<le> y \<and> y < b}" by auto
qed

text \<open>
  \<open>coalesce_region\<close> looks at the first of the bands that were appended only; the bands after it
  move along.
\<close>

lemma coalesce_region_rest:
  assumes cur: "xband t b cur" "cur \<noteq> []" and rest: "\<forall>r\<in>set rest. r_top r \<noteq> t"
    and rs: "rects reg = rs @ cur @ rest" and p: "p \<le> length rs"
  shows "rects (fst (coalesce_region reg p (length rs))) =
         rects (fst (coalesce_region (reg\<lparr>rects := rs @ cur\<rparr>) p (length rs))) @ rest"
proof -
  have top: "r_top ((rs @ cur @ rest) ! length rs) = t" "r_top ((rs @ cur) ! length rs) = t"
    "\<forall>c\<in>set cur. r_top c = t"
    using cur by (auto simp: nth_append hd_conv_nth [symmetric] xband_def)
  have tw: "takeWhile (\<lambda>r. r_top r = t) (cur @ rest) = cur" "takeWhile (\<lambda>r. r_top r = t) cur = cur"
    using top(3) rest by (cases rest; auto simp: takeWhile_append takeWhile_eq_all_conv)+
  show ?thesis
  proof (cases "p < length rs")
    case True
    then show ?thesis
      unfolding coalesce_region_def Let_def
      by (simp add: rs top tw nth_append cur(2))
  next
    case False
    then have "p = length rs" using p by simp
    then show ?thesis unfolding coalesce_region_def Let_def by (simp add: rs top tw cur)
  qed
qed

lemma good_emit_rest:
  assumes g: "good reg p y" and cs: "xband t b cs" "cs \<noteq> []" and tb: "y \<le> t" "t < b"
    and rest: "validate_rectangles rest" "\<forall>r\<in>set rest. b \<le> r_top r"
    and rs: "rects reg' = rects reg @ cs @ rest"
  shows "validate_rectangles (rects (fst (coalesce_if reg' p (num_rects reg))))"
    and "pts (rects (fst (coalesce_if reg' p (num_rects reg)))) =
         pts (rects reg) \<union> pts cs \<union> pts rest"
proof -
  let ?reg = "reg'\<lparr>rects := rects reg @ cs\<rparr>"
  let ?c = "fst (coalesce_if ?reg p (num_rects reg))"
  have p: "p \<le> num_rects reg" using g by (auto simp: good_def last_band_def)
  have eq: "rects (fst (coalesce_if reg' p (num_rects reg))) = rects ?c @ rest"
    using coalesce_region_rest [OF cs _ rs p] rest(2) tb(2) cs(2)
    by (fastforce simp: coalesce_if_def rs)
  have "emits (reg'\<lparr>rects := rects reg\<rparr>) ?reg t b (row cs)"
    using cs by (auto simp: emits_def appended_def)
  moreover have "good (reg'\<lparr>rects := rects reg\<rparr>) p y" by (rule good_cong [OF _ g]) simp
  ultimately have "good ?c (snd (coalesce_if ?reg p (num_rects reg))) b"
    "pts (rects ?c) = pts (rects reg) \<union> pts cs"
    using good_emit [of "reg'\<lparr>rects := rects reg\<rparr>" p y ?reg t b "row cs"] tb pts_xband [OF cs(1)]
    by auto
  then show "validate_rectangles (rects (fst (coalesce_if reg' p (num_rects reg))))"
    "pts (rects (fst (coalesce_if reg' p (num_rects reg)))) = pts (rects reg) \<union> pts cs \<union> pts rest"
    unfolding eq using rest by (fastforce simp: good_def validate_append rect_before_def)+
qed

section \<open>The lines of a list\<close>

text \<open>
  Above the bottom of its first band a valid list is that band; below, it is what follows.
\<close>

lemma pts_bounds: "(x, y) \<in> pts rs \<Longrightarrow> \<exists>r\<in>set rs. r_top r \<le> y \<and> y < r_bottom r"
  by (auto simp: pts_def point_in_rect_def)

lemma pts_head:
  assumes v: "validate_rectangles rs" "rs \<noteq> []" and y: "y < r_bottom (hd rs)"
  shows "(x, y) \<in> pts rs \<longleftrightarrow> r_top (hd rs) \<le> y \<and> x \<in> row (band rs)"
proof -
  have "(x, y) \<notin> pts (after_band rs)"
    using pts_bounds [of x y "after_band rs"] validate_after_band(2) [OF v(1)] y by fastforce
  moreover have "(x, y) \<in> pts rs \<longleftrightarrow> (x, y) \<in> pts (band rs) \<or> (x, y) \<in> pts (after_band rs)"
    using pts_append [of "band rs" "after_band rs"] by (auto simp: band_split)
  ultimately show ?thesis using pts_xband [OF validate_band [OF v]] y by auto
qed

lemma pts_after_band:
  assumes v: "validate_rectangles rs" "rs \<noteq> []" and y: "r_bottom (hd rs) \<le> y"
  shows "(x, y) \<in> pts (after_band rs) \<longleftrightarrow> (x, y) \<in> pts rs"
  using pts_append [of "band rs" "after_band rs"] pts_xband [OF validate_band [OF v]] y
  by (auto simp: band_split)

lemma advance_ok:
  assumes v: "validate_rectangles rs" "rs \<noteq> []" and y: "y \<le> r_bottom (hd rs)"
  shows "validate_rectangles (advance rs y)"
    and "advance rs y \<noteq> [] \<Longrightarrow> y < r_bottom (hd (advance rs y))"
    and "z \<ge> y \<Longrightarrow> (x, z) \<in> pts (advance rs y) \<longleftrightarrow> (x, z) \<in> pts rs"
    and "r_bottom (hd rs) = y \<Longrightarrow> advance rs y \<noteq> [] \<Longrightarrow> y \<le> r_top (hd (advance rs y))"
proof -
  have ab: "validate_rectangles (after_band rs)" using validate_after_band [OF v(1)] by simp
  show "validate_rectangles (advance rs y)" using v(1) ab by (simp add: advance_def)
  have hd: "r_bottom (hd rs) \<le> r_top (hd (after_band rs))"
    "r_top (hd (after_band rs)) < r_bottom (hd (after_band rs))" if "after_band rs \<noteq> []"
    using validate_after_band(2) [OF v(1)] ab hd_in_set [OF that]
    by (auto simp: validate_rectangles_iff is_rect_empty_def)
  show "y < r_bottom (hd (advance rs y))" if "advance rs y \<noteq> []"
    using that hd y by (cases "r_bottom (hd rs) = y") (auto simp: advance_def)
  show "y \<le> r_top (hd (advance rs y))" if "r_bottom (hd rs) = y" "advance rs y \<noteq> []"
    using that hd by (simp add: advance_def)
  show "z \<ge> y \<Longrightarrow> (x, z) \<in> pts (advance rs y) \<longleftrightarrow> (x, z) \<in> pts rs"
    using pts_after_band [OF v] by (auto simp: advance_def)
qed

section \<open>The contract of the functions \<open>region_op\<close> is called with\<close>

text \<open>
  \<open>non_overlap on f\<close>: the lines that only one of the two regions has are copied when the
  operation keeps them, and skipped (a \<open>NULL\<close> function) when it does not.
\<close>

definition non_overlap :: "bool \<Rightarrow> non_overlap_func option \<Rightarrow> bool" where
  "non_overlap on func \<longleftrightarrow> (case func of None \<Rightarrow> \<not> on | Some f \<Rightarrow> on \<and> copies f)"

locale band_op =
  fixes inn :: "bool \<Rightarrow> bool \<Rightarrow> bool"
    and overlap :: overlap_func
    and nov1 nov2 :: "non_overlap_func option"
  assumes inn_empty: "\<not> inn False False"
    and overlap_ok: "overlap mem reg c1 c2 t b = (reg', True) \<Longrightarrow> xband t1 b1 c1 \<Longrightarrow>
      xband t2 b2 c2 \<Longrightarrow> \<forall>q\<in>set (rects reg). r_top q \<noteq> t \<Longrightarrow>
      emits reg reg' t b {x. inn (x \<in> row c1) (x \<in> row c2)}"
    and overlap_keeps: "keeps reg (fst (overlap mem reg c1 c2 t b))"
    and overlap_total: "\<forall>n. mem n \<Longrightarrow> snd (overlap mem reg c1 c2 t b)"
    and nov1: "non_overlap (inn True False) nov1"
    and nov2: "non_overlap (inn False True) nov2"

lemma coalesce_if_same [simp]: "coalesce_if reg p (num_rects reg) = (reg, p)"
  by (simp add: coalesce_if_def)

lemma copies_emits:
  assumes f: "copies f" and run: "f mem reg cs t b = (reg', True)" and cs: "xband t0 b0 cs"
  shows "emits reg reg' t b (row cs)"
proof -
  have "appended reg (at_lines t b cs) reg'" using f run by (simp add: copies_def)
  then show ?thesis
    unfolding emits_def using xband_at_lines [OF cs] row_at_lines by (intro exI conjI)
qed

lemma non_overlap_step:
  assumes f: "non_overlap on f" and g: "good reg p y" and cs: "xband t0 b0 cs"
    and t: "y \<le> t" "t \<le> b" and run: "call_non_overlap mem f reg cs t b = (reg', True)"
  shows "good (fst (coalesce_if reg' p (num_rects reg))) (snd (coalesce_if reg' p (num_rects reg))) b"
    and "pts (rects (fst (coalesce_if reg' p (num_rects reg)))) =
         pts (rects reg) \<union> {(x, y). on \<and> x \<in> row cs \<and> t \<le> y \<and> y < b}"
proof -
  have "good (fst (coalesce_if reg' p (num_rects reg))) (snd (coalesce_if reg' p (num_rects reg))) b \<and>
    pts (rects (fst (coalesce_if reg' p (num_rects reg)))) =
         pts (rects reg) \<union> {(x, y). on \<and> x \<in> row cs \<and> t \<le> y \<and> y < b}"
  proof (cases "t < b \<and> f \<noteq> None")
    case True
    then obtain g' where g': "f = Some g'" by auto
    then have "copies g'" "on" "g' mem reg cs t b = (reg', True)" and tb: "t < b"
      using f run True by (auto simp: call_non_overlap_def non_overlap_def)
    then show ?thesis using good_emit [OF g copies_emits [OF _ _ cs] t(1) tb] by simp
  next
    case False
    have r: "reg' = reg"
      using run False t by (auto simp: call_non_overlap_def split: option.splits if_splits)
    have e: "{(x, y). on \<and> x \<in> row cs \<and> t \<le> y \<and> y < b} = {}"
      using f False t by (auto simp: non_overlap_def split: option.splits)
    show ?thesis unfolding r e coalesce_if_same using good_mono [OF g, of b] t by simp
  qed
  then show "good (fst (coalesce_if reg' p (num_rects reg))) (snd (coalesce_if reg' p (num_rects reg))) b"
    "pts (rects (fst (coalesce_if reg' p (num_rects reg)))) =
         pts (rects reg) \<union> {(x, y). on \<and> x \<in> row cs \<and> t \<le> y \<and> y < b}" by auto
qed

section \<open>The main loop\<close>

text \<open>What \<open>region_op\<close> knows of its position: where it is in the two lists.\<close>

definition at_line :: "rectangle list \<Rightarrow> rectangle list \<Rightarrow> int \<Rightarrow> bool" where
  "at_line r1 r2 y \<longleftrightarrow> r1 \<noteq> [] \<and> r2 \<noteq> [] \<and> validate_rectangles r1 \<and> validate_rectangles r2 \<and>
     y < r_bottom (hd r1) \<and> y < r_bottom (hd r2) \<and> (y \<le> r_top (hd r1) \<or> y \<le> r_top (hd r2))"

text \<open>The points the operation gives on the lines from \<open>y\<close> to \<open>z\<close>.\<close>

definition between ::
  "(bool \<Rightarrow> bool \<Rightarrow> bool) \<Rightarrow> rectangle list \<Rightarrow> rectangle list \<Rightarrow> int \<Rightarrow> int \<Rightarrow> (int \<times> int) set" where
  "between inn r1 r2 y z =
     {(x, v). y \<le> v \<and> v < z \<and> inn ((x, v) \<in> pts r1) ((x, v) \<in> pts r2)}"

lemma between_split:
  "y \<le> m \<Longrightarrow> m \<le> z \<Longrightarrow> between inn r1 r2 y z = between inn r1 r2 y m \<union> between inn r1 r2 m z"
  by (auto simp: between_def)

text \<open>What holds when the main loop ends.\<close>

definition loop_post ::
  "(bool \<Rightarrow> bool \<Rightarrow> bool) \<Rightarrow> rectangle list \<Rightarrow> rectangle list \<Rightarrow> int \<Rightarrow> region \<Rightarrow>
   region \<Rightarrow> nat \<Rightarrow> rectangle list \<Rightarrow> rectangle list \<Rightarrow> int \<Rightarrow> bool" where
  "loop_post inn r1 r2 y reg reg' p' s1 s2 z \<longleftrightarrow>
     good reg' p' z \<and> y < z \<and> pts (rects reg') = pts (rects reg) \<union> between inn r1 r2 y z \<and>
     validate_rectangles s1 \<and> validate_rectangles s2 \<and> (s1 = [] \<or> s2 = []) \<and>
     (s1 \<noteq> [] \<longrightarrow> z < r_bottom (hd s1)) \<and> (s2 \<noteq> [] \<longrightarrow> z < r_bottom (hd s2)) \<and>
     (\<forall>x v. z \<le> v \<longrightarrow> ((x, v) \<in> pts s1 \<longleftrightarrow> (x, v) \<in> pts r1) \<and> ((x, v) \<in> pts s2 \<longleftrightarrow> (x, v) \<in> pts r2))"

lemma valid_hd: "validate_rectangles rs \<Longrightarrow> rs \<noteq> [] \<Longrightarrow> r_top (hd rs) < r_bottom (hd rs)"
  by (cases rs) (auto simp: validate_rectangles_iff is_rect_empty_def)

lemma pts_above:
  "validate_rectangles rs \<Longrightarrow> rs \<noteq> [] \<Longrightarrow> y < r_top (hd rs) \<Longrightarrow> (x, y) \<notin> pts rs"
  using pts_head [of rs y x] by (cases rs) (auto simp: validate_rectangles_iff is_rect_empty_def)

context band_op begin

lemma first_lines:
  assumes "at_line r1 r2 y" and "m = min (r_bottom (hd r1)) (r_top (hd r2))"
  shows "between inn r1 r2 y m =
    {(x, v). inn True False \<and> x \<in> row (band r1) \<and> max (r_top (hd r1)) y \<le> v \<and> v < m}"
proof -
  have "(x, v) \<in> pts r1 \<longleftrightarrow> r_top (hd r1) \<le> v \<and> x \<in> row (band r1)" "(x, v) \<notin> pts r2"
    if "v < m" for x v
    using assms that pts_head [of r1 v x] pts_above [of r2 v x] by (auto simp: at_line_def)
  then have "(x, v) \<in> between inn r1 r2 y m \<longleftrightarrow>
      inn True False \<and> x \<in> row (band r1) \<and> max (r_top (hd r1)) y \<le> v \<and> v < m" for x v
    using inn_empty by (cases "(x, v) \<in> pts r1") (auto simp: between_def)
  then show ?thesis by auto
qed

lemma second_lines:
  assumes "at_line r1 r2 y" and "m = min (r_bottom (hd r2)) (r_top (hd r1))"
  shows "between inn r1 r2 y m =
    {(x, v). inn False True \<and> x \<in> row (band r2) \<and> max (r_top (hd r2)) y \<le> v \<and> v < m}"
proof -
  have "(x, v) \<in> pts r2 \<longleftrightarrow> r_top (hd r2) \<le> v \<and> x \<in> row (band r2)" "(x, v) \<notin> pts r1"
    if "v < m" for x v
    using assms that pts_head [of r2 v x] pts_above [of r1 v x] by (auto simp: at_line_def)
  then have "(x, v) \<in> between inn r1 r2 y m \<longleftrightarrow>
      inn False True \<and> x \<in> row (band r2) \<and> max (r_top (hd r2)) y \<le> v \<and> v < m" for x v
    using inn_empty by (cases "(x, v) \<in> pts r2") (auto simp: between_def)
  then show ?thesis by auto
qed

lemma common_lines:
  assumes "at_line r1 r2 y" and "m = max (r_top (hd r1)) (r_top (hd r2))"
    and "z = min (r_bottom (hd r1)) (r_bottom (hd r2))"
  shows "between inn r1 r2 m z =
    {(x, v). x \<in> {x. inn (x \<in> row (band r1)) (x \<in> row (band r2))} \<and> m \<le> v \<and> v < z}"
proof -
  have "(x, v) \<in> pts r1 \<longleftrightarrow> x \<in> row (band r1)" "(x, v) \<in> pts r2 \<longleftrightarrow> x \<in> row (band r2)"
    if "m \<le> v" "v < z" for x v
    using assms that pts_head [of r1 v x] pts_head [of r2 v x] by (auto simp: at_line_def)
  then show ?thesis by (auto simp: between_def)
qed

lemma no_lines:
  assumes "at_line r1 r2 y" and "m = min (r_top (hd r1)) (r_top (hd r2))"
  shows "between inn r1 r2 y m = {}"
proof -
  have "(x, v) \<notin> pts r1" "(x, v) \<notin> pts r2" if "v < m" for x v
    using assms that pts_above [of r1 v x] pts_above [of r2 v x] by (auto simp: at_line_def)
  then show ?thesis by (auto simp: between_def inn_empty)
qed

text \<open>
  The first half of an iteration, the lines above \<open>ytop\<close> that one of the regions has alone, and
  the second half, the lines both regions have.
\<close>

lemma first_half:
  assumes at: "at_line r1 r2 y" and g: "good reg p y"
    and m: "m = min (min (r_bottom (hd r1)) (r_bottom (hd r2))) (max (r_top (hd r1)) (r_top (hd r2)))"
    and run: "coalesced p (num_rects reg) (region_op_top mem nov1 nov2 r1 r2 y reg) =
      (reg', p', True)"
  shows "good reg' p' m \<and> pts (rects reg') = pts (rects reg) \<union> between inn r1 r2 y m"
proof -
  obtain reg0 where top: "region_op_top mem nov1 nov2 r1 r2 y reg = (reg0, True)"
    and c: "reg' = fst (coalesce_if reg0 p (num_rects reg))"
      "p' = snd (coalesce_if reg0 p (num_rects reg))"
    using run by (auto simp: coalesced_def prod_eq_iff split: if_splits)
  have x: "xband (r_top (hd r1)) (r_bottom (hd r1)) (band r1)"
    "xband (r_top (hd r2)) (r_bottom (hd r2)) (band r2)"
    "r_top (hd r1) < r_bottom (hd r1)" "r_top (hd r2) < r_bottom (hd r2)"
    using at validate_band [of r1] validate_band [of r2] valid_hd [of r1] valid_hd [of r2]
    by (simp_all add: at_line_def)
  consider "r_top (hd r1) < r_top (hd r2)" | "r_top (hd r2) < r_top (hd r1)"
    | "r_top (hd r1) = r_top (hd r2)"
    by linarith
  then show ?thesis
  proof cases
    case 1
    then have m1: "m = min (r_bottom (hd r1)) (r_top (hd r2))" using m x(4) by linarith
    show ?thesis
      unfolding first_lines [OF at m1] c
      by (intro conjI non_overlap_step [OF nov1 g x(1), where mem = mem and t = "max (r_top (hd r1)) y"])
         (use 1 top at x m1 in \<open>auto simp: at_line_def region_op_top_def\<close>)
  next
    case 2
    then have m2: "m = min (r_bottom (hd r2)) (r_top (hd r1))" using m x(3) by linarith
    show ?thesis
      unfolding second_lines [OF at m2] c
      by (intro conjI non_overlap_step [OF nov2 g x(2), where mem = mem and t = "max (r_top (hd r2)) y"])
         (use 2 top at x m2 in \<open>auto simp: at_line_def region_op_top_def\<close>)
  next
    case 3
    then have m3: "m = min (r_top (hd r1)) (r_top (hd r2))" using m x by linarith
    have "y \<le> m" using m3 3 at by (auto simp: at_line_def)
    then show ?thesis
      unfolding no_lines [OF at m3] c using good_mono [OF g] top 3 by (simp add: region_op_top_def)
  qed
qed

lemma second_half:
  assumes at: "at_line r1 r2 y" and t: "t = max (r_top (hd r1)) (r_top (hd r2))"
    and z: "z = min (r_bottom (hd r1)) (r_bottom (hd r2))" and g: "good reg p (min z t)"
    and run: "coalesced p (num_rects reg) (region_op_common mem overlap r1 r2 reg) = (reg', p', True)"
  shows "good reg' p' z \<and> pts (rects reg') = pts (rects reg) \<union> between inn r1 r2 (min z t) z"
proof -
  have t': "(if r_top (hd r1) < r_top (hd r2) then r_top (hd r2) else r_top (hd r1)) = t"
    using t by auto
  obtain reg0 where com: "(if z > t then overlap mem reg (band r1) (band r2) t z else (reg, True))
      = (reg0, True)"
    and c: "reg' = fst (coalesce_if reg0 p (num_rects reg))"
      "p' = snd (coalesce_if reg0 p (num_rects reg))"
    using run unfolding coalesced_def region_op_common_def Let_def t' z [symmetric]
    by (auto simp: prod_eq_iff split: if_splits)
  show ?thesis
  proof (cases "z > t")
    case True
    have "\<forall>q\<in>set (rects reg). r_top q \<noteq> t"
      using g True by (fastforce simp: good_def validate_rectangles_iff is_rect_empty_def)
    then have "emits reg reg0 t z {x. inn (x \<in> row (band r1)) (x \<in> row (band r2))}"
      using overlap_ok [OF _ validate_band validate_band, of mem reg r1 r2 t z reg0] com True at
      by (simp add: at_line_def)
    then show ?thesis
      using good_emit [OF g, of reg0 t z] True unfolding c common_lines [OF at t z]
      by (simp add: min_def common_lines [OF at t z])
  next
    case False
    then have b: "between inn r1 r2 (min z t) z = {}" by (auto simp: between_def)
    show ?thesis unfolding b c using com g False by (simp add: min_def)
  qed
qed

lemma body_ok:
  assumes run: "region_op_body mem overlap nov1 nov2 r1 r2 y p reg = (reg', p', True)"
    and at: "at_line r1 r2 y" and g: "good reg p y"
    and z: "z = min (r_bottom (hd r1)) (r_bottom (hd r2))"
  shows "good reg' p' z \<and> pts (rects reg') = pts (rects reg) \<union> between inn r1 r2 y z"
proof -
  define t where t: "t = max (r_top (hd r1)) (r_top (hd r2))"
  obtain reg0 p0 where
    top: "coalesced p (num_rects reg) (region_op_top mem nov1 nov2 r1 r2 y reg) = (reg0, p0, True)"
    and com: "coalesced p0 (num_rects reg0) (region_op_common mem overlap r1 r2 reg0) =
      (reg', p', True)"
    using run by (auto simp: region_op_body_def split: prod.splits if_splits)
  have 1: "good reg0 p0 (min z t) \<and> pts (rects reg0) = pts (rects reg) \<union> between inn r1 r2 y (min z t)"
    by (rule first_half [OF at g _ top]) (simp add: z t)
  have 2: "good reg' p' z \<and> pts (rects reg') = pts (rects reg0) \<union> between inn r1 r2 (min z t) z"
    by (rule second_half [OF at t z conjunct1 [OF 1] com])
  have "y \<le> min z t" using at z t by (auto simp: at_line_def)
  then show ?thesis using 1 2 between_split [of y "min z t" z] by (simp add: Un_assoc)
qed

lemma at_line_advance:
  assumes at: "at_line r1 r2 y" and z: "z = min (r_bottom (hd r1)) (r_bottom (hd r2))"
    and ne: "advance r1 z \<noteq> []" "advance r2 z \<noteq> []"
  shows "at_line (advance r1 z) (advance r2 z) z"
proof -
  have v: "validate_rectangles r1" "r1 \<noteq> []" "validate_rectangles r2" "r2 \<noteq> []"
    "z \<le> r_bottom (hd r1)" "z \<le> r_bottom (hd r2)"
    "z = r_bottom (hd r1) \<or> z = r_bottom (hd r2)"
    using at z by (auto simp: at_line_def)
  show ?thesis
    using ne advance_ok(1,2,4) [OF v(1,2,5)] advance_ok(1,2,4) [OF v(3,4,6)] v(7)
    by (auto simp: at_line_def)
qed

lemma loop_step_post:
  assumes at: "at_line r1 r2 y" and z: "z = min (r_bottom (hd r1)) (r_bottom (hd r2))"
    and g: "good reg0 p0 z" and pt: "pts (rects reg0) = pts (rects reg) \<union> between inn r1 r2 y z"
    and post: "loop_post inn (advance r1 z) (advance r2 z) z reg0 reg' p' s1 s2 z' \<or>
      (reg' = reg0 \<and> p' = p0 \<and> s1 = advance r1 z \<and> s2 = advance r2 z \<and> z' = z \<and> (s1 = [] \<or> s2 = []))"
  shows "loop_post inn r1 r2 y reg reg' p' s1 s2 z'"
proof -
  have v: "validate_rectangles r1" "r1 \<noteq> []" "validate_rectangles r2" "r2 \<noteq> []" "y < z"
    "z \<le> r_bottom (hd r1)" "z \<le> r_bottom (hd r2)"
    using at z by (auto simp: at_line_def)
  note a1 = advance_ok [OF v(1,2,6)] and a2 = advance_ok [OF v(3,4,7)]
  show ?thesis
  proof (cases "loop_post inn (advance r1 z) (advance r2 z) z reg0 reg' p' s1 s2 z'")
    case True
    then have "z < z'" by (simp add: loop_post_def)
    have "between inn (advance r1 z) (advance r2 z) z z' = between inn r1 r2 z z'"
      using a1(3) a2(3) by (auto simp: between_def)
    moreover have "between inn r1 r2 y z' = between inn r1 r2 y z \<union> between inn r1 r2 z z'"
      using between_split [of y z z'] v(5) \<open>z < z'\<close> by simp
    ultimately show ?thesis
      using True pt a1(3) a2(3) v(5) by (simp add: loop_post_def Un_assoc)
  next
    case False
    then have e: "reg' = reg0" "p' = p0" "s1 = advance r1 z" "s2 = advance r2 z" "z' = z"
      "advance r1 z = [] \<or> advance r2 z = []"
      using post by auto
    show ?thesis
      unfolding loop_post_def e(1-5) using g pt v(5) e(6) a1(1,2,3) a2(1,2,3)
      by (intro conjI allI impI)
  qed
qed

lemma loop_ok:
  assumes "region_op_loop mem overlap nov1 nov2 r1 r2 y p reg = ((reg', p', s1, s2, z'), True)"
    and "at_line r1 r2 y" and "good reg p y"
  shows "loop_post inn r1 r2 y reg reg' p' s1 s2 z'"
  using assms
proof (induction "length r1 + length r2" arbitrary: r1 r2 y p reg rule: less_induct)
  case less
  define z where z: "z = min (r_bottom (hd r1)) (r_bottom (hd r2))"
  obtain reg0 p0 where body: "region_op_body mem overlap nov1 nov2 r1 r2 y p reg = (reg0, p0, True)"
    and rec: "(if advance r1 z \<noteq> [] \<and> advance r2 z \<noteq> [] then
                 region_op_loop mem overlap nov1 nov2 (advance r1 z) (advance r2 z) z p0 reg0
               else ((reg0, p0, advance r1 z, advance r2 z, z), True)) =
      ((reg', p', s1, s2, z'), True)"
    using less.prems(1) unfolding region_op_loop.simps [of _ _ _ _ r1] Let_def z [symmetric]
    by (auto simp: prod_eq_iff split: if_splits)
  note step = body_ok [OF body less.prems(2,3) z]
  have "loop_post inn (advance r1 z) (advance r2 z) z reg0 reg' p' s1 s2 z'"
    if ne: "advance r1 z \<noteq> []" "advance r2 z \<noteq> []"
    using less.hyps [OF advance_decreases [of r1 r2, folded z, OF ne]
        _ at_line_advance [OF less.prems(2) z ne] conjunct1 [OF step], of]
      rec ne by simp
  then show ?case
    using rec loop_step_post [OF less.prems(2) z conjunct1 [OF step] conjunct2 [OF step]]
    by (auto split: if_splits)
qed

end

end
