(* ===== verification/Region_Correct.thy ===== *)
theory Region_Correct
  imports Region_Op
begin

text \<open>
  Correctness of the region operations of \<open>server/region.c\<close>: \<open>region_op\<close> computes the boolean
  operation of its contract on point sets, and the exported operations inherit it for every
  aliasing of their arguments that the code allows.
\<close>

section \<open>The bands that remain\<close>

lemma region_op_rest_ok:
  assumes "copies f" and "region_op_rest mem f reg r y = (reg', True)" and "validate_rectangles r"
    and "r \<noteq> [] \<longrightarrow> y < r_bottom (hd r)"
  shows "\<exists>ds. appended reg ds reg' \<and> validate_rectangles ds \<and>
    (\<forall>d\<in>set ds. \<exists>q\<in>set r. r_top q \<le> r_top d) \<and>
    pts ds = {(x, v). (x, v) \<in> pts r \<and> y \<le> v} \<and>
    (r \<noteq> [] \<longrightarrow> (\<exists>rest. ds = at_lines (max (r_top (hd r)) y) (r_bottom (hd r)) (band r) @ rest \<and>
       validate_rectangles rest \<and> (\<forall>d\<in>set rest. r_bottom (hd r) \<le> r_top d)))"
  using assms
proof (induction "length r" arbitrary: r reg rule: less_induct)
  case less
  show ?case
  proof (cases "r = []")
    case True
    then show ?thesis using less.prems by (auto simp: region_op_rest.simps)
  next
    case False
    let ?t = "max (r_top (hd r)) y" and ?b = "r_bottom (hd r)"
    let ?cs = "at_lines ?t ?b (band r)"
    obtain reg0 where f: "f mem reg (band r) ?t ?b = (reg0, True)"
      and rec: "region_op_rest mem f reg0 (after_band r) y = (reg', True)"
      using less.prems(2) False by (auto simp: region_op_rest.simps [of _ _ _ r] and_then_True)
    have a: "appended reg ?cs reg0" using less.prems(1) f by (simp add: copies_def)
    have v: "validate_rectangles (after_band r)" "\<forall>q\<in>set (after_band r). ?b \<le> r_top q"
      using validate_after_band [OF less.prems(3)] by auto
    have tb: "?t < ?b" using less.prems(3,4) False valid_hd by auto
    have x: "xband ?t ?b ?cs" using xband_at_lines validate_band [OF less.prems(3) False] by blast
    have "after_band r \<noteq> [] \<longrightarrow> y < r_bottom (hd (after_band r))"
      using advance_ok(2) [OF less.prems(3) False, of "?b"] less.prems(4) False
      by (auto simp: advance_def)
    then obtain ds where ds: "appended reg0 ds reg'" "validate_rectangles ds"
      "\<forall>d\<in>set ds. \<exists>q\<in>set (after_band r). r_top q \<le> r_top d"
      "pts ds = {(x, v). (x, v) \<in> pts (after_band r) \<and> y \<le> v}"
      using less.hyps [OF length_after_band [OF False] less.prems(1) rec v(1)] by blast
    have top: "\<forall>d\<in>set ds. ?b \<le> r_top d" using ds(3) v(2) by fastforce
    have set: "set (after_band r) \<subseteq> set r" by (auto simp: after_band_def dest: set_dropWhileD)
    have val: "validate_rectangles (?cs @ ds)"
      unfolding validate_append using validate_xband [OF x tb] ds(2) top
      by (auto simp: rect_before_def at_lines_def)
    have "\<exists>q\<in>set r. r_top q \<le> r_top d" if "d \<in> set ?cs" for d
      by (rule bexI [OF _ hd_in_set [OF False]]) (use that in \<open>auto simp: at_lines_def\<close>)
    then have low: "\<forall>d\<in>set (?cs @ ds). \<exists>q\<in>set r. r_top q \<le> r_top d"
      using ds(3) set unfolding set_append by blast
    have nds: "(x, v) \<notin> pts ds" if "v < ?b" for x v
      using pts_bounds [of x v ds] top that by fastforce
    have "(x, v) \<in> pts (?cs @ ds) \<longleftrightarrow> (x, v) \<in> pts r \<and> y \<le> v" for x v
    proof (cases "v < ?b")
      case True
      then show ?thesis
        using nds [OF True] pts_head [OF less.prems(3) False True]
        by (auto simp: pts_xband [OF x])
    next
      case ge: False
      then show ?thesis
        using pts_after_band [OF less.prems(3) False, of v x] less.prems(4) False ds(4)
        by (auto simp: pts_xband [OF x])
    qed
    then have "pts (?cs @ ds) = {(x, v). (x, v) \<in> pts r \<and> y \<le> v}" by auto
    then show ?thesis
      using appended_trans [OF a ds(1)] val low ds(2) top
      by (intro exI [where x = "?cs @ ds"] conjI impI exI [where x = ds] refl)
  qed
qed

lemma call_rest_ok:
  assumes f: "non_overlap on f" and g: "good reg p z" and s: "validate_rectangles s" "s \<noteq> []"
    "z < r_bottom (hd s)" and run: "call_rest mem f reg s z = (reg', True)"
  shows "validate_rectangles (rects (fst (coalesce_if reg' p (num_rects reg)))) \<and>
    pts (rects (fst (coalesce_if reg' p (num_rects reg)))) =
      pts (rects reg) \<union> {(x, v). on \<and> (x, v) \<in> pts s \<and> z \<le> v}"
proof (cases f)
  case None
  then show ?thesis using f g run by (auto simp: non_overlap_def call_rest_def good_def)
next
  case (Some h)
  let ?t = "max (r_top (hd s)) z" and ?b = "r_bottom (hd s)"
  let ?cs = "at_lines ?t ?b (band s)"
  have on: "on" and h: "copies h" "region_op_rest mem h reg s z = (reg', True)"
    using f run Some by (auto simp: non_overlap_def call_rest_def)
  obtain rest where rest: "appended reg (?cs @ rest) reg'" "validate_rectangles rest"
    "\<forall>d\<in>set rest. ?b \<le> r_top d" "pts (?cs @ rest) = {(x, v). (x, v) \<in> pts s \<and> z \<le> v}"
    using region_op_rest_ok [OF h s(1)] s(2,3) by blast
  have rs: "rects reg' = rects reg @ ?cs @ rest" using rest(1) by (simp add: appended_def)
  have cs: "xband ?t ?b ?cs" "?cs \<noteq> []" "?t < ?b"
    using xband_at_lines [OF validate_band [OF s(1,2)]] s valid_hd by auto
  note e = good_emit_rest [OF g cs(1,2) _ cs(3) rest(2,3) rs]
  have p: "pts (rects reg) \<union> pts ?cs \<union> pts rest = pts (rects reg) \<union> {(x, v). (x, v) \<in> pts s \<and> z \<le> v}"
    using rest(4) unfolding pts_append by blast
  show ?thesis using e p on by simp
qed

lemma pts_shrink [simp]: "rects (shrink_rects mem reg) = rects reg"
  by (simp add: shrink_rects_def Let_def)

lemma shrink_keeps: "keeps reg (shrink_rects mem reg)"
  by (auto simp: shrink_rects_def Let_def keeps_def cap_ok_def RGN_DEFAULT_RECTS_def)

context band_op begin

lemma op_rects_ok:
  assumes run: "region_op_rects mem overlap nov1 nov2 r1 r2 y reg = (reg', True)"
    and reg: "rects reg = []" and v: "validate_rectangles r1" "r1 \<noteq> []" "validate_rectangles r2" "r2 \<noteq> []"
    and y: "y \<le> r_top (hd r1)" "y \<le> r_top (hd r2)"
  shows "validate_rectangles (rects reg') \<and>
    pts (rects reg') = {(x, v). inn ((x, v) \<in> pts r1) ((x, v) \<in> pts r2)}"
proof -
  obtain reg0 p0 s1 s2 z rest where
    loop: "region_op_loop mem overlap nov1 nov2 r1 r2 y 0 reg = ((reg0, p0, s1, s2, z), True)"
    and rest: "(if s1 \<noteq> [] then call_rest mem nov1 reg0 s1 z
                else if s2 \<noteq> [] then call_rest mem nov2 reg0 s2 z else (reg0, True)) = (rest, True)"
    and reg': "rects reg' = rects (fst (coalesce_if rest p0 (num_rects reg0)))"
    using run by (auto simp: region_op_rects_def Let_def prod_eq_iff split: prod.splits if_splits)
  have at: "at_line r1 r2 y" using v y valid_hd [of r1] valid_hd [of r2] by (auto simp: at_line_def)
  have g: "good reg 0 y" by (auto simp: good_def last_band_def reg intro!: exI [where x = "[]"])
  have post: "loop_post inn r1 r2 y reg reg0 p0 s1 s2 z" by (rule loop_ok [OF loop at g])
  then have g0: "good reg0 p0 z" and yz: "y < z" and p0: "pts (rects reg0) = between inn r1 r2 y z"
    and vs: "validate_rectangles s1" "validate_rectangles s2" "s1 = [] \<or> s2 = []"
      "s1 \<noteq> [] \<Longrightarrow> z < r_bottom (hd s1)" "s2 \<noteq> [] \<Longrightarrow> z < r_bottom (hd s2)"
    and ps: "\<And>x v. z \<le> v \<Longrightarrow> (x, v) \<in> pts s1 \<longleftrightarrow> (x, v) \<in> pts r1"
      "\<And>x v. z \<le> v \<Longrightarrow> (x, v) \<in> pts s2 \<longleftrightarrow> (x, v) \<in> pts r2"
    by (auto simp: loop_post_def reg)
  have above: "(x, v) \<notin> pts r1" "(x, v) \<notin> pts r2" if "v < y" for x v
    using pts_above v y that by force+
  let ?D = "if s1 \<noteq> [] then {(x, v). inn True False \<and> (x, v) \<in> pts s1 \<and> z \<le> v}
            else if s2 \<noteq> [] then {(x, v). inn False True \<and> (x, v) \<in> pts s2 \<and> z \<le> v} else {}"
  have res: "validate_rectangles (rects reg') \<and> pts (rects reg') = pts (rects reg0) \<union> ?D"
    using call_rest_ok [OF nov1 g0 vs(1), of mem rest] call_rest_ok [OF nov2 g0 vs(2), of mem rest]
      vs(3-5) rest g0 unfolding reg' by (auto simp: good_def split: if_splits)
  have D: "(x, v) \<in> ?D \<longleftrightarrow> z \<le> v \<and> inn ((x, v) \<in> pts r1) ((x, v) \<in> pts r2)" for x v
    using vs(3) ps [of v x] inn_empty
    by (cases "(x, v) \<in> pts s1"; cases "(x, v) \<in> pts s2") (auto split: if_splits)
  have "(x, v) \<in> pts (rects reg') \<longleftrightarrow> inn ((x, v) \<in> pts r1) ((x, v) \<in> pts r2)" for x v
    unfolding conjunct2 [OF res] Un_iff D p0 using above [of v x] inn_empty yz
    by (cases "v < y"; cases "z \<le> v") (auto simp: between_def)
  then show ?thesis using conjunct1 [OF res] by auto
qed

text \<open>Failing or not, the construction keeps the extents and stays inside the buffer.\<close>

lemma body_keeps: "keeps reg (fst (region_op_body mem overlap nov1 nov2 r1 r2 y p reg))"
proof -
  have co: "keeps reg (fst (coalesced p q res))" if "keeps reg (fst res)" for reg p q res
    using that coalesce_if_keeps keeps_trans by (auto simp: coalesced_def)
  have top: "keeps reg (fst (region_op_top mem nov1 nov2 r1 r2 y reg))"
    using nov1 nov2 by (auto simp: region_op_top_def call_non_overlap_def non_overlap_def copies_def
        split: option.splits)
  have com: "keeps reg (fst (region_op_common mem overlap r1 r2 reg))" for reg
    using overlap_keeps by (simp add: region_op_common_def Let_def)
  show ?thesis
    using co [OF top, of p "num_rects reg"] co [OF com] keeps_trans
    by (fastforce simp: region_op_body_def split: prod.splits)
qed

lemma loop_keeps: "keeps reg (fst (fst (region_op_loop mem overlap nov1 nov2 r1 r2 y p reg)))"
proof (induction "length r1 + length r2" arbitrary: r1 r2 y p reg rule: less_induct)
  case less
  show ?case
    using body_keeps [of reg mem r1 r2 y p] less.hyps [OF advance_decreases] keeps_trans
    by (subst region_op_loop.simps) (auto simp: Let_def)
qed

lemma call_rest_keeps: "non_overlap on f \<Longrightarrow> keeps reg (fst (call_rest mem f reg r y))"
proof -
  have "keeps reg (fst (region_op_rest mem h reg r y))" if h: "copies h" for h
  proof (induction "length r" arbitrary: r reg rule: less_induct)
    case less
    show ?case
      using h less.hyps length_after_band
      by (subst region_op_rest.simps) (auto intro!: and_then_keeps simp: copies_def)
  qed
  then show "non_overlap on f \<Longrightarrow> ?thesis" by (auto simp: call_rest_def non_overlap_def split: option.splits)
qed

lemma op_rects_keeps: "keeps reg (fst (region_op_rects mem overlap nov1 nov2 r1 r2 y reg))"
proof -
  obtain reg0 p0 s1 s2 z ok where
    loop: "region_op_loop mem overlap nov1 nov2 r1 r2 y 0 reg = ((reg0, p0, s1, s2, z), ok)"
    by (metis prod.exhaust)
  have k: "keeps reg reg0" using loop_keeps [of reg mem r1 r2 y 0] by (simp add: loop)
  have "keeps reg0 (shrink_rects mem (fst (coalesce_if rest p0 q)))" "keeps reg0 rest"
    if "keeps reg0 rest" for rest q
    using that coalesce_if_keeps shrink_keeps keeps_trans by blast+
  then show ?thesis
    using call_rest_keeps [OF nov1, of reg0] call_rest_keeps [OF nov2, of reg0] keeps_trans [OF k] k
    by (simp add: region_op_rects_def loop Let_def)
qed

text \<open>With memory, every step succeeds.\<close>

lemma loop_total:
  assumes mem: "\<forall>n. mem n"
  shows "snd (region_op_loop mem overlap nov1 nov2 r1 r2 y p reg)"
proof (induction "length r1 + length r2" arbitrary: r1 r2 y p reg rule: less_induct)
  case less
  have "snd (region_op_top mem nov1 nov2 r1 r2 y reg)" for reg
    using nov1 nov2 mem by (auto simp: region_op_top_def call_non_overlap_def non_overlap_def copies_def
        split: option.splits)
  moreover have "snd (region_op_common mem overlap r1 r2 reg)" for reg
    using overlap_total [OF mem] by (simp add: region_op_common_def Let_def)
  ultimately have "snd (snd (region_op_body mem overlap nov1 nov2 r1 r2 y p reg))"
    by (auto simp: region_op_body_def coalesced_def)
  then show ?case
    using less.hyps [OF advance_decreases] by (subst region_op_loop.simps) (simp add: Let_def)
qed

lemma op_rects_total:
  assumes mem: "\<forall>n. mem n"
  shows "snd (region_op_rects mem overlap nov1 nov2 r1 r2 y reg)"
proof -
  have rest: "snd (region_op_rest mem h reg r y)" if h: "copies h" for h r reg y
  proof (induction "length r" arbitrary: r reg rule: less_induct)
    case less
    show ?case
      using h less.hyps length_after_band mem
      by (subst region_op_rest.simps) (auto intro!: and_then_total simp: copies_def)
  qed
  have "snd (call_rest mem f reg r y)" if "non_overlap on f" for f on r reg y
    using that rest by (auto simp: call_rest_def non_overlap_def split: option.splits)
  then have c: "snd (call_rest mem nov1 reg r y)" "snd (call_rest mem nov2 reg r y)" for r reg y
    using nov1 nov2 by auto
  obtain reg0 p0 s1 s2 z where
    loop: "region_op_loop mem overlap nov1 nov2 r1 r2 y 0 reg = ((reg0, p0, s1, s2, z), True)"
    using loop_total [OF mem, of r1 r2 y 0 reg] by (metis prod.exhaust snd_conv)
  show ?thesis using c by (simp add: region_op_rects_def loop Let_def)
qed

end

end
