(* ===== verification/Region_Ops.thy ===== *)
theory Region_Ops
  imports Region_Correct
begin

text \<open>
  The operations that \<open>server/region.c\<close> exports, on the heap of regions: what they compute on
  point sets, and that they keep regions well formed, for every aliasing of the destination with
  the sources.
\<close>

section \<open>Well-formed regions\<close>

text \<open>\<open>bounding\<close>: the extents are the smallest rectangle around the region, zero when it is empty.\<close>

definition bounding :: "rectangle list \<Rightarrow> rectangle \<Rightarrow> bool" where
  "bounding rs e \<longleftrightarrow>
     (if rs = [] then e = empty_rect
      else (\<forall>r\<in>set rs. r_left e \<le> r_left r \<and> r_top e \<le> r_top r \<and>
              r_right r \<le> r_right e \<and> r_bottom r \<le> r_bottom e) \<and>
           (\<exists>r\<in>set rs. r_left r = r_left e) \<and> (\<exists>r\<in>set rs. r_top r = r_top e) \<and>
           (\<exists>r\<in>set rs. r_right r = r_right e) \<and> (\<exists>r\<in>set rs. r_bottom r = r_bottom e))"

definition wf_region :: "region \<Rightarrow> bool" where
  "wf_region reg \<longleftrightarrow> validate_rectangles (rects reg) \<and> bounding (rects reg) (extents reg) \<and> cap_ok reg"

lemma fold_min_left:
  fixes rs :: "rectangle list"
  shows "fold (\<lambda>r l. if r_left r < l then r_left r else l) rs a = Min (insert a (r_left ` set rs))"
proof (induction rs arbitrary: a)
  case (Cons r rs)
  have "Min (insert a (insert (r_left r) (r_left ` set rs))) =
    min (min (r_left r) a) (if rs = [] then min (r_left r) a else Min (r_left ` set rs))"
    by (cases "rs = []") (auto simp: min.assoc min.left_commute min.commute)
  then show ?case using Cons by (cases "rs = []") (auto simp: min_def)
qed simp

lemma fold_max_right:
  fixes rs :: "rectangle list"
  shows "fold (\<lambda>r m. if r_right r > m then r_right r else m) rs a = Max (insert a (r_right ` set rs))"
proof (induction rs arbitrary: a)
  case (Cons r rs)
  have "Max (insert a (insert (r_right r) (r_right ` set rs))) =
    max (max (r_right r) a) (if rs = [] then max (r_right r) a else Max (r_right ` set rs))"
    by (cases "rs = []") (auto simp: max.assoc max.left_commute max.commute)
  then show ?case using Cons by (cases "rs = []") (auto simp: max_def)
qed simp

lemma valid_hd_last:
  assumes "validate_rectangles rs" and "r \<in> set rs"
  shows "r_top (hd rs) \<le> r_top r" and "r_bottom r \<le> r_bottom (last rs)"
proof -
  have s: "sorted_wrt rect_before rs" and ne: "\<forall>r\<in>set rs. \<not> is_rect_empty r"
    using assms(1) by (auto simp: validate_rectangles_iff)
  have b: "rect_before a c \<Longrightarrow> \<not> is_rect_empty a \<Longrightarrow> \<not> is_rect_empty c \<Longrightarrow>
      r_top a \<le> r_top c \<and> r_bottom a \<le> r_bottom c" for a c
    by (auto simp: rect_before_def is_rect_empty_def)
  have "rs \<noteq> []" using assms(2) by auto
  then have hl: "hd rs \<in> set rs" "last rs \<in> set rs" by auto
  have "r = hd rs \<or> rect_before (hd rs) r" using s assms(2) by (cases rs) auto
  then show "r_top (hd rs) \<le> r_top r" using b ne hl assms(2) by blast
  have "r = last rs \<or> rect_before r (last rs)"
    using s assms(2) by (cases rs rule: rev_cases) (auto simp: sorted_wrt_append)
  then show "r_bottom r \<le> r_bottom (last rs)" using b ne hl assms(2) by blast
qed

lemma set_region_extents_bounding:
  assumes v: "validate_rectangles (rects reg)"
  shows "bounding (rects (set_region_extents reg)) (extents (set_region_extents reg))"
proof (cases "rects reg = []")
  case True
  then show ?thesis by (simp add: set_region_extents_def bounding_def empty_rect_def)
next
  case False
  then have hl: "hd (rects reg) \<in> set (rects reg)" "last (rects reg) \<in> set (rects reg)" by auto
  let ?L = "insert (r_left (hd (rects reg))) (r_left ` set (rects reg))"
  let ?R = "insert (r_right (last (rects reg))) (r_right ` set (rects reg))"
  have "Min ?L \<in> ?L" "Max ?R \<in> ?R" by (simp_all only: Min_in Max_in finite.intros finite_imageI
      finite_set insert_not_empty not_False_eq_True simp_thms)
  then have "\<exists>r\<in>set (rects reg). r_left r = Min ?L" "\<exists>r\<in>set (rects reg). r_right r = Max ?R"
    using hl by auto
  moreover have "\<forall>r\<in>set (rects reg). Min ?L \<le> r_left r" "\<forall>r\<in>set (rects reg). r_right r \<le> Max ?R"
    by auto
  ultimately show ?thesis
    using False hl valid_hd_last [OF v]
    unfolding bounding_def set_region_extents_def Let_def fold_min_left fold_max_right
    by auto
qed

lemma set_region_extents_simps [simp]:
  "rects (set_region_extents reg) = rects reg" "rgn_size (set_region_extents reg) = rgn_size reg"
  by (simp_all add: set_region_extents_def Let_def)

lemma wf_set_region_extents:
  "validate_rectangles (rects reg) \<Longrightarrow> cap_ok reg \<Longrightarrow> wf_region (set_region_extents reg)"
  using set_region_extents_bounding by (simp add: wf_region_def cap_ok_def)

lemma rgn_upd [simp]: "rgn (h(p \<mapsto> r)) q = (if p = q then r else rgn h q)"
  by (simp add: rgn_def)

lemma bounding_top: "bounding rs e \<Longrightarrow> rs \<noteq> [] \<Longrightarrow> r_top e \<le> r_top (hd rs)"
  by (simp add: bounding_def)

lemma bounding_pts:
  "bounding rs e \<Longrightarrow> (x, y) \<in> pts rs \<Longrightarrow>
   r_left e \<le> x \<and> x < r_right e \<and> r_top e \<le> y \<and> y < r_bottom e"
  by (fastforce simp: bounding_def pts_def point_in_rect_def split: if_splits)

text \<open>The outcome of an operation that stores a region in \<open>dst\<close> and touches no other one.\<close>

definition stores :: "region_heap \<Rightarrow> region_ptr \<Rightarrow> region_heap \<times> bool \<Rightarrow> (int \<times> int) set \<Rightarrow> bool" where
  "stores h dst res P \<longleftrightarrow>
     snd res \<longrightarrow> wf_region (rgn (fst res) dst) \<and> pts (rects (rgn (fst res) dst)) = P \<and>
       (\<forall>p. p \<noteq> dst \<longrightarrow> fst res p = h p)"

lemma storesI:
  "wf_region reg \<Longrightarrow> pts (rects reg) = P \<Longrightarrow> stores h dst (h(dst \<mapsto> reg), ok) P"
  by (simp add: stores_def)

lemma finish_stores:
  assumes "\<And>h'. op = (h', True) \<Longrightarrow>
    \<exists>reg. h' = h(dst \<mapsto> reg) \<and> wf_region (f reg) \<and> pts (rects (f reg)) = P"
  shows "stores h dst (finish op dst f) P"
  using assms by (cases op) (fastforce simp: finish_def stores_def)

section \<open>\<open>region_op\<close>\<close>

context band_op begin

lemma op_ok:
  assumes run: "region_op mem h d s1 s2 overlap nov1 nov2 = (h', True)"
    and wf: "wf_region (rgn h s1)" "wf_region (rgn h s2)"
    and ne: "rects (rgn h s1) \<noteq> []" "rects (rgn h s2) \<noteq> []"
  shows "\<exists>reg. h' = h(d \<mapsto> reg) \<and> validate_rectangles (rects reg) \<and> cap_ok reg \<and>
    extents reg = extents (rgn h d) \<and>
    pts (rects reg) = {p. inn (p \<in> pts (rects (rgn h s1))) (p \<in> pts (rects (rgn h s2)))}"
proof -
  define new_size where "new_size = max (num_rects (rgn h s1)) (num_rects (rgn h s2)) * 2"
  define reg0 where "reg0 = (rgn h d)\<lparr>rgn_size := new_size, rects := []\<rparr>"
  define y where "y = (if r_top (extents (rgn h s1)) < r_top (extents (rgn h s2))
                       then r_top (extents (rgn h s1)) else r_top (extents (rgn h s2)))"
  obtain reg where
    op: "region_op_rects mem overlap nov1 nov2 (rects (rgn h s1)) (rects (rgn h s2)) y reg0 = (reg, True)"
    and h': "h' = h(d \<mapsto> reg)"
    using run
    by (auto simp: region_op_def Let_def new_size_def reg0_def y_def prod_eq_iff split: if_splits)
  have y: "y \<le> r_top (hd (rects (rgn h s1)))" "y \<le> r_top (hd (rects (rgn h s2)))"
    using bounding_top [of "rects (rgn h s1)" "extents (rgn h s1)"]
      bounding_top [of "rects (rgn h s2)" "extents (rgn h s2)"] wf ne
    by (auto simp: y_def wf_region_def)
  have v: "validate_rectangles (rects (rgn h s1))" "validate_rectangles (rects (rgn h s2))"
    using wf by (auto simp: wf_region_def)
  have "cap_ok reg0" using ne by (simp add: cap_ok_def reg0_def new_size_def max_def)
  then have "cap_ok reg" "extents reg = extents (rgn h d)"
    using op_rects_keeps [of reg0 mem "rects (rgn h s1)" "rects (rgn h s2)" y] unfolding op
    by (auto simp: keeps_def reg0_def)
  moreover note op_rects_ok [OF op _ v(1) ne(1) v(2) ne(2) y]
  ultimately show ?thesis by (auto simp: h' reg0_def)
qed

lemma op_stores:
  assumes "wf_region (rgn h s1)" "wf_region (rgn h s2)"
    "rects (rgn h s1) \<noteq> []" "rects (rgn h s2) \<noteq> []"
  shows "stores h d (finish (region_op mem h d s1 s2 overlap nov1 nov2) d set_region_extents)
    {p. inn (p \<in> pts (rects (rgn h s1))) (p \<in> pts (rects (rgn h s2)))}"
  by (rule finish_stores) (use op_ok [OF _ assms] wf_set_region_extents in fastforce)

lemma op_total: "\<forall>n. mem n \<Longrightarrow> snd (region_op mem h d s1 s2 overlap nov1 nov2)"
  using op_rects_total by (simp add: region_op_def Let_def)

end

interpretation rgn_and: band_op "(\<and>)" intersect_overlapping None None
  using intersect_overlapping_ok intersect_overlapping_keeps intersect_overlapping_total
  by unfold_locales (auto simp: non_overlap_def Int_def)

interpretation rgn_diff: band_op "\<lambda>a b. a \<and> \<not> b" subtract_overlapping "Some subtract_non_overlapping" None
  using subtract_overlapping_ok subtract_overlapping_keeps subtract_overlapping_total
    copies_subtract_non_overlapping
  by unfold_locales (auto simp: non_overlap_def set_diff_eq)

interpretation rgn_or: band_op "(\<or>)" union_overlapping
    "Some union_non_overlapping" "Some union_non_overlapping"
  using union_overlapping_ok union_overlapping_keeps union_overlapping_total
    copies_union_non_overlapping
  by unfold_locales (auto simp: non_overlap_def Un_def)

section \<open>The exported operations\<close>

lemma copy_region_stores:
  assumes "wf_region (rgn h src)" and "wf_region (rgn h dst)"
  shows "stores h dst (copy_region mem h dst src) (pts (rects (rgn h src)))"
  using assms by (auto simp: copy_region_def Let_def stores_def wf_region_def cap_ok_def)

lemma no_overlap_pts:
  assumes "wf_region a" "wf_region b"
    "rects a = [] \<or> rects b = [] \<or> \<not> EXTENTCHECK (extents a) (extents b)"
  shows "pts (rects a) \<inter> pts (rects b) = {}"
proof -
  have "False" if p: "(x, y) \<in> pts (rects a)" "(x, y) \<in> pts (rects b)" for x y
    using bounding_pts [OF _ p(1)] bounding_pts [OF _ p(2)] assms p
    by (fastforce simp: wf_region_def EXTENTCHECK_def)
  then show ?thesis by auto
qed

lemma intersect_region_stores:
  assumes wf: "wf_region (rgn h src1)" "wf_region (rgn h src2)" "wf_region (rgn h dst)"
  shows "stores h dst (intersect_region mem h dst src1 src2)
           (pts (rects (rgn h src1)) \<inter> pts (rects (rgn h src2)))"
proof (cases "rects (rgn h src1) = [] \<or> rects (rgn h src2) = [] \<or>
         \<not> EXTENTCHECK (extents (rgn h src1)) (extents (rgn h src2))")
  case True
  have "wf_region ((rgn h dst)\<lparr>rects := [], extents := mk_rect 0 0 0 0\<rparr>)"
    using wf(3) by (simp add: wf_region_def cap_ok_def bounding_def empty_rect_def)
  then show ?thesis
    using True no_overlap_pts [OF wf(1,2) True] by (simp add: intersect_region_def storesI)
next
  case False
  then have "stores h dst (intersect_region mem h dst src1 src2)
    {p. p \<in> pts (rects (rgn h src1)) \<and> p \<in> pts (rects (rgn h src2))}"
    using rgn_and.op_stores [OF wf(1,2)] by (simp add: intersect_region_def)
  then show ?thesis by (simp add: Int_def)
qed

lemma subtract_region_stores:
  assumes wf: "wf_region (rgn h src1)" "wf_region (rgn h src2)" "wf_region (rgn h dst)"
  shows "stores h dst (subtract_region mem h dst src1 src2)
           (pts (rects (rgn h src1)) - pts (rects (rgn h src2)))"
proof (cases "rects (rgn h src1) = [] \<or> rects (rgn h src2) = [] \<or>
         \<not> EXTENTCHECK (extents (rgn h src1)) (extents (rgn h src2))")
  case True
  then have "pts (rects (rgn h src1)) - pts (rects (rgn h src2)) = pts (rects (rgn h src1))"
    using no_overlap_pts [OF wf(1,2) True] by blast
  then show ?thesis
    using True copy_region_stores [OF wf(1,3)] by (simp add: subtract_region_def)
next
  case False
  then have "stores h dst (subtract_region mem h dst src1 src2)
    {p. p \<in> pts (rects (rgn h src1)) \<and> p \<notin> pts (rects (rgn h src2))}"
    using rgn_diff.op_stores [OF wf(1,2)] by (simp add: subtract_region_def)
  then show ?thesis by (simp add: set_diff_eq)
qed

text \<open>The bounding box in terms of the points.\<close>

lemma bounding_iff_pts:
  assumes ne: "\<forall>r\<in>set rs. \<not> is_rect_empty r" "rs \<noteq> []"
  shows "bounding rs e \<longleftrightarrow>
    (\<forall>x y. (x, y) \<in> pts rs \<longrightarrow> r_left e \<le> x \<and> x < r_right e \<and> r_top e \<le> y \<and> y < r_bottom e) \<and>
    (\<exists>y. (r_left e, y) \<in> pts rs) \<and> (\<exists>x. (x, r_top e) \<in> pts rs) \<and>
    (\<exists>y. (r_right e - 1, y) \<in> pts rs) \<and> (\<exists>x. (x, r_bottom e - 1) \<in> pts rs)"
    (is "_ \<longleftrightarrow> ?in \<and> ?l \<and> ?t \<and> ?r \<and> ?b")
proof
  assume b: "bounding rs e"
  have corner: "(r_left r, r_top r) \<in> pts rs" "(r_right r - 1, r_bottom r - 1) \<in> pts rs" if "r \<in> set rs" for r
    using that ne by (force simp: pts_def point_in_rect_def is_rect_empty_def)+
  obtain rl rt rr rb where "rl \<in> set rs" "r_left rl = r_left e" "rt \<in> set rs" "r_top rt = r_top e"
    "rr \<in> set rs" "r_right rr = r_right e" "rb \<in> set rs" "r_bottom rb = r_bottom e"
    using b ne by (auto simp: bounding_def)
  then have "?l" "?t" "?r" "?b" using corner by metis+
  then show "?in \<and> ?l \<and> ?t \<and> ?r \<and> ?b" using bounding_pts [OF b] by blast
next
  assume a: "?in \<and> ?l \<and> ?t \<and> ?r \<and> ?b"
  have le: "r_left e \<le> r_left r \<and> r_top e \<le> r_top r \<and> r_right r \<le> r_right e \<and> r_bottom r \<le> r_bottom e"
    if "r \<in> set rs" for r
  proof -
    have "(r_left r, r_top r) \<in> pts rs" "(r_right r - 1, r_bottom r - 1) \<in> pts rs"
      using that ne by (force simp: pts_def point_in_rect_def is_rect_empty_def)+
    then show ?thesis using a by fastforce
  qed
  obtain rl rt rr rb where "rl \<in> set rs" "r_left rl \<le> r_left e" "rt \<in> set rs" "r_top rt \<le> r_top e"
    "rr \<in> set rs" "r_right rr > r_right e - 1" "rb \<in> set rs" "r_bottom rb > r_bottom e - 1"
    using a by (auto simp: pts_def point_in_rect_def)
  then show "bounding rs e"
    using ne(2) le [of rl] le [of rt] le [of rr] le [of rb] le unfolding bounding_def
    by (simp add: antisym) (metis antisym zless_imp_add1_zle diff_add_cancel)
qed

lemma pts_empty_iff: "validate_rectangles rs \<Longrightarrow> pts rs = {} \<longleftrightarrow> rs = []"
  by (cases rs) (force simp: validate_rectangles_iff pts_def point_in_rect_def is_rect_empty_def)+

lemma union_bounding:
  assumes v: "validate_rectangles rs" "validate_rectangles r1" "validate_rectangles r2"
    and p: "pts rs = pts r1 \<union> pts r2" and ne: "r1 \<noteq> []" "r2 \<noteq> []"
    and b: "bounding r1 e1" "bounding r2 e2"
  shows "bounding rs (extents_union e1 e2)"
proof -
  have rs: "rs \<noteq> []" using pts_empty_iff v p ne by auto
  have n: "\<forall>r\<in>set rs. \<not> is_rect_empty r" "\<forall>r\<in>set r1. \<not> is_rect_empty r"
    "\<forall>r\<in>set r2. \<not> is_rect_empty r"
    using v by (auto simp: validate_rectangles_iff)
  note b1 = b(1) [unfolded bounding_iff_pts [OF n(2) ne(1)]]
    and b2 = b(2) [unfolded bounding_iff_pts [OF n(3) ne(2)]]
  show ?thesis
    unfolding bounding_iff_pts [OF n(1) rs] p
  proof (intro conjI allI impI)
    fix x y assume "(x, y) \<in> pts r1 \<union> pts r2"
    then show "r_left (extents_union e1 e2) \<le> x" "x < r_right (extents_union e1 e2)"
      "r_top (extents_union e1 e2) \<le> y" "y < r_bottom (extents_union e1 e2)"
      using b1 b2 by (auto simp: extents_union_def min_le_iff_disj less_max_iff_disj)
  next
    show "\<exists>y. (r_left (extents_union e1 e2), y) \<in> pts r1 \<union> pts r2"
      using b1 b2 by (cases "r_left e1 \<le> r_left e2") (auto simp: extents_union_def)
    show "\<exists>x. (x, r_top (extents_union e1 e2)) \<in> pts r1 \<union> pts r2"
      using b1 b2 by (cases "r_top e1 \<le> r_top e2") (auto simp: extents_union_def)
    show "\<exists>y. (r_right (extents_union e1 e2) - 1, y) \<in> pts r1 \<union> pts r2"
      using b1 b2 by (cases "r_right e1 \<le> r_right e2") (auto simp: extents_union_def)
    show "\<exists>x. (x, r_bottom (extents_union e1 e2) - 1) \<in> pts r1 \<union> pts r2"
      using b1 b2 by (cases "r_bottom e1 \<le> r_bottom e2") (auto simp: extents_union_def)
  qed
qed

lemma single_rect_contains:
  assumes wf: "wf_region a" "wf_region b" and "num_rects a = 1"
    and "rect_contains (extents a) (extents b)"
  shows "pts (rects b) \<subseteq> pts (rects a)"
proof -
  obtain r where r: "rects a = [r]" using assms(3) by (cases "rects a") auto
  have e: "extents a = r" using wf(1) r by (simp add: wf_region_def bounding_def)
  show ?thesis
  proof clarify
    fix x y assume "(x, y) \<in> pts (rects b)"
    then show "(x, y) \<in> pts (rects a)"
      using bounding_pts [of "rects b" "extents b" x y] wf(2) assms(4) e r
      by (auto simp: wf_region_def rect_contains_def pts_def point_in_rect_def)
  qed
qed

lemma union_op_stores:
  assumes wf: "wf_region (rgn h src1)" "wf_region (rgn h src2)" and ne: "rects (rgn h src1) \<noteq> []"
    "rects (rgn h src2) \<noteq> []"
    and e: "e1 = extents (rgn (fst res) src1)" "e2 = extents (rgn (fst res) src2)"
    and res: "res = region_op mem h dst src1 src2 union_overlapping
                      (Some union_non_overlapping) (Some union_non_overlapping)"
  shows "stores h dst (finish res dst (\<lambda>d. d\<lparr>extents := extents_union e1 e2\<rparr>))
    (pts (rects (rgn h src1)) \<union> pts (rects (rgn h src2)))"
proof (rule finish_stores)
  fix h' assume run: "res = (h', True)"
  obtain reg where reg: "h' = h(dst \<mapsto> reg)" "validate_rectangles (rects reg)" "cap_ok reg"
    "extents reg = extents (rgn h dst)"
    "pts (rects reg) = pts (rects (rgn h src1)) \<union> pts (rects (rgn h src2))"
    using rgn_or.op_ok [OF run [unfolded res] wf ne] by (auto simp: Un_def)
  have e': "e1 = extents (rgn h src1)" "e2 = extents (rgn h src2)"
    using e reg(1,4) run by auto
  have "bounding (rects reg) (extents_union e1 e2)"
    unfolding e' using wf ne by (intro union_bounding [OF reg(2) _ _ reg(5)]) (auto simp: wf_region_def)
  then show "\<exists>reg. h' = h(dst \<mapsto> reg) \<and> wf_region (reg\<lparr>extents := extents_union e1 e2\<rparr>) \<and>
      pts (rects (reg\<lparr>extents := extents_union e1 e2\<rparr>)) =
      pts (rects (rgn h src1)) \<union> pts (rects (rgn h src2))"
    using reg by (intro exI [where x = reg]) (simp add: wf_region_def cap_ok_def)
qed

lemma union_region_stores:
  assumes wf: "wf_region (rgn h src1)" "wf_region (rgn h src2)" "wf_region (rgn h dst)"
  shows "stores h dst (union_region mem h dst src1 src2)
           (pts (rects (rgn h src1)) \<union> pts (rects (rgn h src2)))"
proof -
  let ?s1 = "rgn h src1" and ?s2 = "rgn h src2"
  let ?P = "pts (rects ?s1) \<union> pts (rects ?s2)"
  let ?c12 = "num_rects ?s1 = 1 \<and> rect_contains (extents ?s1) (extents ?s2)"
  let ?c21 = "num_rects ?s2 = 1 \<and> rect_contains (extents ?s2) (extents ?s1)"
  note copy1 = copy_region_stores [OF wf(1,3), of mem] and copy2 = copy_region_stores [OF wf(2,3), of mem]
  consider "src1 = src2" | "src1 \<noteq> src2" "rects ?s1 = []" | "src1 \<noteq> src2" "rects ?s1 \<noteq> []" "rects ?s2 = []"
    | "src1 \<noteq> src2" "rects ?s1 \<noteq> []" "rects ?s2 \<noteq> []" "?c12"
    | "src1 \<noteq> src2" "rects ?s1 \<noteq> []" "rects ?s2 \<noteq> []" "\<not> ?c12" "?c21"
    | "src1 \<noteq> src2" "rects ?s1 \<noteq> []" "rects ?s2 \<noteq> []" "\<not> ?c12" "\<not> ?c21"
    by blast
  then show ?thesis
  proof cases
    case 1
    then show ?thesis using copy1 by (simp add: union_region_def)
  next
    case 2
    then show ?thesis using copy2 by (simp add: union_region_def)
  next
    case 3
    then show ?thesis using copy1 by (simp add: union_region_def)
  next
    case 4
    then have "?P = pts (rects ?s1)" using single_rect_contains [OF wf(1,2)] by blast
    then show ?thesis using copy1 4 by (simp add: union_region_def)
  next
    case 5
    then have "?P = pts (rects ?s2)" using single_rect_contains [OF wf(2,1)] by blast
    have n: "num_rects ?s1 \<noteq> 0" "num_rects ?s2 \<noteq> 0" using 5 by auto
    show ?thesis
      unfolding union_region_def Let_def if_not_P [OF 5(1)] if_not_P [OF n(1)] if_not_P [OF n(2)]
        if_not_P [OF 5(4)] if_P [OF 5(5)] \<open>?P = pts (rects ?s2)\<close> by (rule copy2)
  next
    case 6
    have n: "num_rects ?s1 \<noteq> 0" "num_rects ?s2 \<noteq> 0" using 6 by auto
    show ?thesis
      unfolding union_region_def Let_def if_not_P [OF 6(1)] if_not_P [OF n(1)] if_not_P [OF n(2)]
        if_not_P [OF 6(4)] if_not_P [OF 6(5)]
      by (rule union_op_stores [OF wf(1,2) 6(2,3) refl refl refl])
  qed
qed

end
