(* ===== verification/Region_Props.thy ===== *)
theory Region_Props
  imports Region_Ops
begin

text \<open>
  The properties of \<open>server/region.c\<close>: set operations, queries, construction from request data
  and the behaviour of \<open>mirror_region\<close> and \<open>scale_region\<close>.
\<close>

section \<open>Exclusive or\<close>

lemma wf_empty_region: "wf_region \<lparr>rgn_size = RGN_DEFAULT_RECTS, rects = [], extents = mk_rect 0 0 0 0\<rparr>"
  by (simp add: wf_region_def cap_ok_def RGN_DEFAULT_RECTS_def bounding_def empty_rect_def)

lemma xor_region_stores:
  assumes wf: "wf_region (rgn h src1)" "wf_region (rgn h src2)" "wf_region (rgn h dst)"
    and tmp: "h tmp = None" "tmp \<noteq> dst" "tmp \<noteq> src1" "tmp \<noteq> src2"
  shows "stores h dst (xor_region mem (Some tmp) h dst src1 src2)
           ((pts (rects (rgn h src1)) - pts (rects (rgn h src2))) \<union>
            (pts (rects (rgn h src2)) - pts (rects (rgn h src1))))"
proof -
  let ?h = "h(tmp \<mapsto> \<lparr>rgn_size = RGN_DEFAULT_RECTS, rects = [], extents = mk_rect 0 0 0 0\<rparr>)"
  let ?a = "subtract_region mem ?h tmp src1 src2"
  let ?b = "subtract_region mem (fst ?a) dst src2 src1"
  let ?c = "union_region mem (fst ?b) dst dst tmp"
  let ?P1 = "pts (rects (rgn h src1))" and ?P2 = "pts (rects (rgn h src2))"
  have a: "stores ?h tmp ?a (?P1 - ?P2)"
    using subtract_region_stores [of ?h src1 src2 tmp mem] wf tmp wf_empty_region by simp
  have eq: "rgn (fst ?a) src1 = rgn h src1" "rgn (fst ?a) src2 = rgn h src2"
    "rgn (fst ?a) dst = rgn h dst" if "snd ?a"
    using a that tmp by (auto simp: stores_def rgn_def)
  have b: "stores (fst ?a) dst ?b (?P2 - ?P1)" if "snd ?a"
    using subtract_region_stores [of "fst ?a" src2 src1 dst mem] wf unfolding eq [OF that] by simp
  have c: "stores (fst ?b) dst ?c ((?P2 - ?P1) \<union> (?P1 - ?P2))" if "snd ?a" "snd ?b"
    using union_region_stores [of "fst ?b" dst tmp dst mem] a b that tmp
    by (simp add: stores_def rgn_def)
  show ?thesis
    using a b c tmp unfolding xor_region_def create_empty_region_def stores_def
    by (simp add: Let_def free_region_def rgn_def Un_commute)
qed

lemma copy_region_total: "\<forall>n. mem n \<Longrightarrow> snd (copy_region mem h dst src)"
  by (simp add: copy_region_def Let_def)

lemma subtract_region_total: "\<forall>n. mem n \<Longrightarrow> snd (subtract_region mem h dst src1 src2)"
  using rgn_diff.op_total copy_region_total by (simp add: subtract_region_def finish_def)

lemma intersect_region_total: "\<forall>n. mem n \<Longrightarrow> snd (intersect_region mem h dst src1 src2)"
  using rgn_and.op_total by (simp add: intersect_region_def finish_def)

lemma union_region_total: "\<forall>n. mem n \<Longrightarrow> snd (union_region mem h dst src1 src2)"
  using rgn_or.op_total copy_region_total by (simp add: union_region_def finish_def Let_def)

lemma xor_region_total: "\<forall>n. mem n \<Longrightarrow> snd (xor_region mem (Some tmp) h dst src1 src2)"
  using subtract_region_total union_region_total
  by (simp add: xor_region_def create_empty_region_def Let_def)

section \<open>Queries\<close>

lemma point_in_rects_iff:
  "validate_rectangles rs \<Longrightarrow> point_in_rects rs x y \<longleftrightarrow> (x, y) \<in> pts rs"
proof (induction rs)
  case (Cons r rs)
  have v: "validate_rectangles rs" "\<forall>s\<in>set rs. rect_before r s" "\<forall>s\<in>set (r # rs). \<not> is_rect_empty s"
    using Cons.prems by (auto simp: validate_rectangles_iff)
  have "(x, y) \<notin> pts rs" if "y < r_top r \<or> (y < r_bottom r \<and> x < r_left r)"
    using v that by (fastforce simp: pts_def point_in_rect_def rect_before_def is_rect_empty_def)
  then show ?case using Cons.IH [OF v(1)] by (auto simp: pts_Cons point_in_rect_def)
qed simp

lemma rect_in_rects_iff:
  "validate_rectangles rs \<Longrightarrow> \<not> is_rect_empty rect \<Longrightarrow>
   rect_in_rects rs rect \<longleftrightarrow> (\<exists>x y. (x, y) \<in> pts rs \<and> point_in_rect rect x y)"
proof (induction rs)
  case (Cons r rs)
  have v: "validate_rectangles rs" "\<forall>s\<in>set rs. rect_before r s" "\<forall>s\<in>set (r # rs). \<not> is_rect_empty s"
    using Cons.prems by (auto simp: validate_rectangles_iff)
  have top: "\<not> (\<exists>x y. (x, y) \<in> pts rs \<and> point_in_rect rect x y)" if "r_bottom rect \<le> r_top r"
    using v that by (fastforce simp: pts_def point_in_rect_def rect_before_def is_rect_empty_def)
  have hd: "(\<exists>x y. point_in_rect r x y \<and> point_in_rect rect x y) \<longleftrightarrow>
      \<not> (r_top r \<ge> r_bottom rect \<or> r_bottom r \<le> r_top rect \<or> r_left r \<ge> r_right rect \<or> r_right r \<le> r_left rect)"
  proof
    assume "\<not> (r_top r \<ge> r_bottom rect \<or> r_bottom r \<le> r_top rect \<or> r_left r \<ge> r_right rect \<or> r_right r \<le> r_left rect)"
    then show "\<exists>x y. point_in_rect r x y \<and> point_in_rect rect x y"
      using v(3) Cons.prems(2)
      by (intro exI [where x = "max (r_left r) (r_left rect)"] exI [where x = "max (r_top r) (r_top rect)"])
         (auto simp: point_in_rect_def is_rect_empty_def)
  qed (auto simp: point_in_rect_def)
  have "(\<exists>x y. (x, y) \<in> pts (r # rs) \<and> point_in_rect rect x y) \<longleftrightarrow>
      (\<exists>x y. point_in_rect r x y \<and> point_in_rect rect x y) \<or>
      (\<exists>x y. (x, y) \<in> pts rs \<and> point_in_rect rect x y)"
    by (auto simp: pts_Cons)
  then show ?case using Cons.IH [OF v(1) Cons.prems(2)] top unfolding hd by auto
qed simp

section \<open>Properties\<close>

text \<open>The regions of the witnesses: a square, and two bands that reach out of it.\<close>

definition square :: region where
  "square = \<lparr>rgn_size = 2, rects = [mk_rect 0 0 10 10], extents = mk_rect 0 0 10 10\<rparr>"

definition two_bands :: region where
  "two_bands = \<lparr>rgn_size = 4, rects = [mk_rect 2 1 4 3, mk_rect 6 1 20 3, mk_rect 0 5 3 12],
                extents = mk_rect 0 1 20 12\<rparr>"

lemma wf_square: "wf_region square" and wf_two_bands: "wf_region two_bands"
  by (simp_all add: square_def two_bands_def wf_region_def bounding_def cap_ok_def is_rect_empty_def)

text \<open>
  C1: \<open>union_region\<close> stores in the destination a well-formed region (valid bands, exact extents,
  within its buffer) that holds the points of either source, whatever pointers coincide, and
  changes no other region; and it succeeds whenever no allocation is refused.
\<close>

theorem union_region_correct:
  assumes "wf_region (rgn h src1)" "wf_region (rgn h src2)" "wf_region (rgn h dst)"
  shows "stores h dst (union_region mem h dst src1 src2)
           (pts (rects (rgn h src1)) \<union> pts (rects (rgn h src2))) \<and>
         ((\<forall>n. mem n) \<longrightarrow> snd (union_region mem h dst src1 src2))"
  using union_region_stores [OF assms] union_region_total by auto

theorem union_region_correct_witness:
  "stores [1 \<mapsto> square, 2 \<mapsto> two_bands] 1
     (union_region (\<lambda>n. True) [1 \<mapsto> square, 2 \<mapsto> two_bands] 1 1 2)
     (pts (rects square) \<union> pts (rects two_bands)) \<and>
   snd (union_region (\<lambda>n. True) [1 \<mapsto> square, 2 \<mapsto> two_bands] 1 1 2)"
  using union_region_correct [of "[1 \<mapsto> square, 2 \<mapsto> two_bands]" 1 2 1 "\<lambda>n. True"]
  by (simp add: rgn_def wf_square wf_two_bands)

text \<open>
  C2: \<open>intersect_region\<close> stores the points common to both sources, in the same sense.
\<close>

theorem intersect_region_correct:
  assumes "wf_region (rgn h src1)" "wf_region (rgn h src2)" "wf_region (rgn h dst)"
  shows "stores h dst (intersect_region mem h dst src1 src2)
           (pts (rects (rgn h src1)) \<inter> pts (rects (rgn h src2))) \<and>
         ((\<forall>n. mem n) \<longrightarrow> snd (intersect_region mem h dst src1 src2))"
  using intersect_region_stores [OF assms] intersect_region_total by auto

theorem intersect_region_correct_witness:
  "stores [1 \<mapsto> square, 2 \<mapsto> two_bands] 2
     (intersect_region (\<lambda>n. True) [1 \<mapsto> square, 2 \<mapsto> two_bands] 2 1 2)
     (pts (rects square) \<inter> pts (rects two_bands)) \<and>
   snd (intersect_region (\<lambda>n. True) [1 \<mapsto> square, 2 \<mapsto> two_bands] 2 1 2)"
  using intersect_region_correct [of "[1 \<mapsto> square, 2 \<mapsto> two_bands]" 1 2 2 "\<lambda>n. True"]
  by (simp add: rgn_def wf_square wf_two_bands)

text \<open>
  C3: \<open>subtract_region\<close> stores the points of the first source that the second does not have, in
  the same sense.
\<close>

theorem subtract_region_correct:
  assumes "wf_region (rgn h src1)" "wf_region (rgn h src2)" "wf_region (rgn h dst)"
  shows "stores h dst (subtract_region mem h dst src1 src2)
           (pts (rects (rgn h src1)) - pts (rects (rgn h src2))) \<and>
         ((\<forall>n. mem n) \<longrightarrow> snd (subtract_region mem h dst src1 src2))"
  using subtract_region_stores [OF assms] subtract_region_total by auto

theorem subtract_region_correct_witness:
  "stores [1 \<mapsto> square, 2 \<mapsto> two_bands] 1
     (subtract_region (\<lambda>n. True) [1 \<mapsto> square, 2 \<mapsto> two_bands] 1 1 2)
     (pts (rects square) - pts (rects two_bands)) \<and>
   snd (subtract_region (\<lambda>n. True) [1 \<mapsto> square, 2 \<mapsto> two_bands] 1 1 2)"
  using subtract_region_correct [of "[1 \<mapsto> square, 2 \<mapsto> two_bands]" 1 2 1 "\<lambda>n. True"]
  by (simp add: rgn_def wf_square wf_two_bands)

text \<open>
  C4: \<open>xor_region\<close>, given a fresh structure for its temporary region, stores the points that
  exactly one of the sources has, leaves nothing else behind, and succeeds whenever no allocation
  is refused; the destination may be either source.
\<close>

theorem xor_region_correct:
  assumes "wf_region (rgn h src1)" "wf_region (rgn h src2)" "wf_region (rgn h dst)"
    and "h tmp = None" "tmp \<noteq> dst" "tmp \<noteq> src1" "tmp \<noteq> src2"
  shows "stores h dst (xor_region mem (Some tmp) h dst src1 src2)
           ((pts (rects (rgn h src1)) - pts (rects (rgn h src2))) \<union>
            (pts (rects (rgn h src2)) - pts (rects (rgn h src1)))) \<and>
         ((\<forall>n. mem n) \<longrightarrow> snd (xor_region mem (Some tmp) h dst src1 src2))"
  using xor_region_stores [OF assms] xor_region_total by auto

theorem xor_region_correct_witness:
  "stores [1 \<mapsto> square, 2 \<mapsto> two_bands] 2
     (xor_region (\<lambda>n. True) (Some 3) [1 \<mapsto> square, 2 \<mapsto> two_bands] 2 1 2)
     ((pts (rects square) - pts (rects two_bands)) \<union> (pts (rects two_bands) - pts (rects square))) \<and>
   snd (xor_region (\<lambda>n. True) (Some 3) [1 \<mapsto> square, 2 \<mapsto> two_bands] 2 1 2)"
  using xor_region_correct [of "[1 \<mapsto> square, 2 \<mapsto> two_bands]" 1 2 2 3 "\<lambda>n. True"]
  by (simp add: rgn_def wf_square wf_two_bands)

text \<open>
  C5: the two queries decide membership and overlap: \<open>point_in_region\<close> is true exactly on the
  points of the region, and \<open>rect_in_region\<close> exactly for the rectangles that share a point with it.
\<close>

theorem region_queries_correct:
  assumes "validate_rectangles (rects region)"
  shows "(point_in_region region x y \<longleftrightarrow> (x, y) \<in> pts (rects region)) \<and>
    (\<not> is_rect_empty rect \<longrightarrow>
     (rect_in_region region rect \<longleftrightarrow> (\<exists>x y. (x, y) \<in> pts (rects region) \<and> point_in_rect rect x y)))"
  unfolding point_in_region_def rect_in_region_def
  using point_in_rects_iff [OF assms] rect_in_rects_iff [OF assms] by blast

theorem region_queries_correct_witness:
  "(point_in_region two_bands 7 2 \<longleftrightarrow> (7, 2) \<in> pts (rects two_bands)) \<and> point_in_region two_bands 7 2 \<and>
   (\<exists>x y. (x, y) \<in> pts (rects two_bands) \<and> point_in_rect (mk_rect 1 6 9 9) x y)"
  using region_queries_correct [of two_bands 7 2 "mk_rect 1 6 9 9"]
  by (simp add: two_bands_def is_rect_empty_def point_in_region_def rect_in_region_def)

text \<open>
  C6: a client's rectangles are accepted exactly when they form a valid band list (or are the one
  empty rectangle that stands for the empty region), and an accepted region is well formed and is
  handed back unchanged by \<open>get_region_data\<close>; rejected data or a refused allocation leave the heap
  as it was.
\<close>

theorem region_data_roundtrip:
  assumes "\<forall>n. mem n" and "length data * 16 \<le> max_size" and "data \<noteq> []"
  shows "case create_region_from_req_data mem (Some p) h data of
      (h', Inr q) \<Rightarrow> q = p \<and> wf_region (rgn h' p) \<and> (validate_rectangles data \<or> data = [empty_rect]) \<and>
        get_region_data mem (rgn h' p) max_size = (length data * 16, Inr data)
    | (h', Inl err) \<Rightarrow> h' = h \<and> err = STATUS_INVALID_PARAMETER \<and>
        \<not> validate_rectangles data \<and> data \<noteq> [empty_rect]"
proof (cases "data = [empty_rect]")
  case True
  have "wf_region (set_region_extents \<lparr>rgn_size = 2, rects = [], extents = empty_rect\<rparr>)"
    by (rule wf_set_region_extents) (simp_all add: cap_ok_def)
  then show ?thesis
    using assms True
    by (simp add: create_region_from_req_data_def get_region_data_def Let_def RGN_DEFAULT_RECTS_def)
next
  case False
  then have rs: "(if length data = 1 \<and> hd data = empty_rect then [] else data) = data"
    by (cases data) auto
  have "wf_region (set_region_extents
      \<lparr>rgn_size = max (length data) RGN_DEFAULT_RECTS, rects = data, extents = empty_rect\<rparr>)"
    if "validate_rectangles data"
    by (rule wf_set_region_extents) (use that in \<open>auto simp: cap_ok_def RGN_DEFAULT_RECTS_def\<close>)
  then show ?thesis
    using assms False unfolding create_region_from_req_data_def get_region_data_def rs Let_def
    by simp
qed

theorem region_data_roundtrip_witness:
  "get_region_data (\<lambda>n. True)
     (rgn (fst (create_region_from_req_data (\<lambda>n. True) (Some 1) Map.empty (rects two_bands))) 1) 48 =
     (48, Inr (rects two_bands))"
  using region_data_roundtrip [where mem = "\<lambda>n. True" and data = "rects two_bands" and
      max_size = 48 and p = 1 and h = Map.empty]
  by (simp add: two_bands_def create_region_from_req_data_def is_rect_empty_def Let_def)

text \<open>
  C7: \<open>mirror_region\<close> does not reverse a band of two rectangles: both slots end up with the mirror
  image of the second one, so that the first one is lost.
\<close>

theorem mirror_region_loses_rect:
  assumes "rects region = [r1, r2]" and "r_top r1 = r_top r2"
  shows "rects (mirror_region client_rect region) =
           [mirror_rect client_rect r2, mirror_rect client_rect r2]"
  using assms
  by (simp add: mirror_region_def mirror_bands.simps [of _ "[r1, r2]" 0] mirror_bands.simps [of _ _ "Suc (Suc 0)"]
      band_end.simps [of _ 0] band_end.simps [of _ "Suc 0"]
      mirror_band.simps [of _ "[r1, r2]"] mirror_band.simps [of _ _ "Suc 0" 0] numeral_2_eq_2 Let_def)

theorem mirror_region_loses_rect_witness:
  "rects (mirror_region (mk_rect 0 0 10 10)
      \<lparr>rgn_size = 2, rects = [mk_rect 0 0 1 1, mk_rect 4 0 6 1], extents = mk_rect 0 0 6 1\<rparr>) =
   [mk_rect 4 0 6 1, mk_rect 4 0 6 1]"
  by (subst mirror_region_loses_rect [of _ "mk_rect 0 0 1 1" "mk_rect 4 0 6 1"])
     (simp_all add: mirror_rect_def Let_def is_i32_def)

text \<open>
  C8: as long as no coordinate leaves the range of a C \<open>int\<close>, \<open>offset_region\<close> moves every point
  of the region by the given vector and keeps it well formed.
\<close>

theorem offset_region_correct:
  assumes wf: "wf_region region"
    and fits: "\<forall>r\<in>set (rects region). is_i32 (r_left r + x) \<and> is_i32 (r_right r + x) \<and>
                 is_i32 (r_top r + y) \<and> is_i32 (r_bottom r + y)"
  shows "wf_region (offset_region region x y) \<and>
         pts (rects (offset_region region x y)) = (\<lambda>(u, v). (u + x, v + y)) ` pts (rects region)"
proof -
  let ?f = "\<lambda>r. mk_rect (r_left r + x) (r_top r + y) (r_right r + x) (r_bottom r + y)"
  have f: "map (offset_rect x y) (rects region) = map ?f (rects region)"
    using fits by (auto simp: offset_rect_def)
  have v: "validate_rectangles (map ?f rs) \<longleftrightarrow> validate_rectangles rs" for rs
    by (induction rs rule: validate_rectangles.induct) (auto simp: is_rect_empty_def)
  have e: "offset_rect x y (extents region) = ?f (extents region)" if "rects region \<noteq> []"
    using wf fits that by (auto simp: wf_region_def bounding_def offset_rect_def)
  have b: "bounding (map ?f (rects region)) (?f (extents region))" if "rects region \<noteq> []"
    using wf that by (auto simp: wf_region_def bounding_def)
  have p: "pts (map ?f rs) = (\<lambda>(u, v). (u + x, v + y)) ` pts rs" for rs
  proof (intro set_eqI iffI)
    fix q assume "q \<in> pts (map ?f rs)"
    then obtain r where r: "r \<in> set rs" "point_in_rect (?f r) (fst q) (snd q)" by (auto simp: pts_def)
    then have "point_in_rect r (fst q - x) (snd q - y)" by (simp add: point_in_rect_def)
    then have "(fst q - x, snd q - y) \<in> pts rs" using r(1) by (auto simp: pts_def)
    then show "q \<in> (\<lambda>(u, v). (u + x, v + y)) ` pts rs" by force
  qed (auto simp: pts_def point_in_rect_def)
  show ?thesis
    using wf v p b e by (auto simp: offset_region_def f wf_region_def cap_ok_def)
qed

theorem offset_region_correct_witness:
  "wf_region (offset_region two_bands 5 (- 7)) \<and>
   pts (rects (offset_region two_bands 5 (- 7))) = (\<lambda>(u, v). (u + 5, v + - 7)) ` pts (rects two_bands)"
  by (rule offset_region_correct [OF wf_two_bands]) (simp add: two_bands_def is_i32_def)

end
