(* ===== verification/Unicode.thy ===== *)
theory Unicode
  imports Wine_Prelude
begin

text \<open>
  \<open>server/unicode.c\<close>: case folding, name hashing, and the escaped text form of strings in the
  registry files.

  A \<open>WCHAR\<close> string is a list of 16-bit words and its length in bytes is twice the length of the
  list; a C string is the list of its bytes without the final NUL.  The lower-case table is read
  from a file at start-up, so it is a parameter \<open>casemap\<close> (the array, by index).  \<open>dump_strW\<close>
  gives the bytes that are written to the file; the code's intermediate buffer of 256 bytes is
  flushed before a unit that might not fit, which does not show in the output.
\<close>

type_synonym wchar = u16
type_synonym casemap = "nat \<Rightarrow> u16"

section \<open>Case folding and hashing\<close>

definition to_lower :: "casemap \<Rightarrow> wchar \<Rightarrow> wchar" where
  "to_lower casemap ch =
     ch + casemap (unat (casemap (unat (casemap (unat (drop_bit 8 ch))) + unat (drop_bit 4 ch AND 0x0f)))
                   + unat (ch AND 0x0f))"

text \<open>The lists have the same length, \<open>len\<close>; the result is the first difference.\<close>

fun memicmp_strW :: "casemap \<Rightarrow> wchar list \<Rightarrow> wchar list \<Rightarrow> int" where
  "memicmp_strW casemap (c # str1) (d # str2) =
     (let ret = uint (to_lower casemap c) - uint (to_lower casemap d)
      in if ret \<noteq> 0 then ret else memicmp_strW casemap str1 str2)"
| "memicmp_strW casemap _ _ = 0"

definition hash_strW :: "casemap \<Rightarrow> wchar list \<Rightarrow> u32 \<Rightarrow> u32" where
  "hash_strW casemap str hash_size =
     fold (\<lambda>c hash. hash * 65599 + ucast (to_lower casemap c)) str 0 mod hash_size"

section \<open>Parsing\<close>

definition isdigit :: "u8 \<Rightarrow> bool" where
  "isdigit c \<longleftrightarrow> 48 \<le> c \<and> c \<le> 57"

definition isxdigit :: "u8 \<Rightarrow> bool" where
  "isxdigit c \<longleftrightarrow> isdigit c \<or> (65 \<le> c \<and> c \<le> 70) \<or> (97 \<le> c \<and> c \<le> 102)"

definition tolower :: "u8 \<Rightarrow> u8" where
  "tolower c = (if 65 \<le> c \<and> c \<le> 90 then c + 32 else c)"

definition to_hex :: "u8 \<Rightarrow> u8" where
  "to_hex ch = (if isdigit ch then ch - 48 else tolower ch - 97 + 10)"

text \<open>Up to \<open>n\<close> more digits of a hexadecimal or octal escape.\<close>

fun parse_hex :: "nat \<Rightarrow> wchar \<Rightarrow> u8 list \<Rightarrow> wchar \<times> u8 list" where
  "parse_hex (Suc n) d (c # p) =
     (if isxdigit c then parse_hex n (d * 16 + ucast (to_hex c)) p else (d, c # p))"
| "parse_hex n d p = (d, p)"

definition is_octal :: "u8 \<Rightarrow> bool" where
  "is_octal c \<longleftrightarrow> 48 \<le> c \<and> c \<le> 55"

fun parse_octal :: "nat \<Rightarrow> wchar \<Rightarrow> u8 list \<Rightarrow> wchar \<times> u8 list" where
  "parse_octal (Suc n) d (c # p) =
     (if is_octal c then parse_octal n (d * 8 + ucast (c - 48)) p else (d, c # p))"
| "parse_octal n d p = (d, p)"

definition utf8_length :: "u8 \<Rightarrow> nat" where
  "utf8_length ch =
     (if 0xc2 \<le> ch \<and> ch \<le> 0xdf then 1 else if 0xe0 \<le> ch \<and> ch \<le> 0xef then 2
      else if 0xf0 \<le> ch \<and> ch \<le> 0xf4 then 3 else 0)"

definition utf8_mask :: "nat \<Rightarrow> u8" where
  "utf8_mask n = [0x7f, 0x1f, 0x0f, 0x07] ! n"

definition utf8_minval :: "nat \<Rightarrow> u32" where
  "utf8_minval n = [0x0, 0x80, 0x800, 0x10000] ! n"

definition utf8_units :: "nat \<Rightarrow> u32 \<Rightarrow> wchar list" where
  "utf8_units charlen res =
     (if res < utf8_minval charlen then []
      else if res > 0x10ffff then []
      else if res \<le> 0xffff then [ucast res]
      else let res = res - 0x10000
           in [ucast (0xd800 OR drop_bit 10 res), ucast (0xdc00 OR (res AND 0x3ff))])"

text \<open>\<open>n\<close> continuation bytes are still to come; an invalid byte is left in the input.\<close>

fun parse_utf8 :: "nat \<Rightarrow> nat \<Rightarrow> u32 \<Rightarrow> u8 list \<Rightarrow> wchar list \<times> u8 list" where
  "parse_utf8 0 charlen res p = (utf8_units charlen res, p)"
| "parse_utf8 (Suc n) charlen res [] = ([], [])"
| "parse_utf8 (Suc n) charlen res (c # p) =
     (let ch = c XOR 0x80
      in if ch \<ge> 0x40 then ([], c # p)
         else parse_utf8 n charlen (push_bit 6 res OR ucast ch) p)"

definition parse_char :: "u8 \<Rightarrow> u8 list \<Rightarrow> wchar list \<times> u8 list" where
  "parse_char ch p =
     (if ch < 0x80 then ([ucast ch], p)
      else let charlen = utf8_length ch; res = ucast (ch AND utf8_mask charlen)
           in if charlen = 0 then ([], p) else parse_utf8 charlen charlen res p)"

text \<open>The C escapes \<open>a b e f n r t v\<close>.\<close>

definition simple_escape :: "u8 \<Rightarrow> wchar option" where
  "simple_escape c = map_of [(97, 7), (98, 8), (101, 27), (102, 12), (110, 10), (114, 13),
                             (116, 9), (118, 11)] c"

text \<open>One iteration of the loop: the units written and the input left.\<close>

fun parse_one :: "u8 list \<Rightarrow> wchar list \<times> u8 list" where
  "parse_one [] = ([], [])"
| "parse_one (c # p) =
     (if c \<noteq> 92 then parse_char c p
      else case p of [] \<Rightarrow> ([], [])
        | e # q \<Rightarrow>
            (case simple_escape e of Some u \<Rightarrow> ([u], q)
             | None \<Rightarrow>
                 if e = 120 then
                   (case q of [] \<Rightarrow> ([120], [])
                    | x # r \<Rightarrow>
                        if \<not> isxdigit x then ([120], q)
                        else (case parse_hex 3 (ucast (to_hex x)) r of (d, r) \<Rightarrow> ([d], r)))
                 else if is_octal e then
                   (case parse_octal 2 (ucast (e - 48)) q of (d, r) \<Rightarrow> ([d], r))
                 else parse_char e q))"

lemma length_parse_hex: "length (snd (parse_hex n d p)) \<le> length p"
  by (induction n d p rule: parse_hex.induct) auto

lemma length_parse_octal: "length (snd (parse_octal n d p)) \<le> length p"
  by (induction n d p rule: parse_octal.induct) auto

lemma length_parse_utf8: "length (snd (parse_utf8 n charlen res p)) \<le> length p"
  by (induction n charlen res p rule: parse_utf8.induct) (auto simp: Let_def)

lemma length_parse_char: "length (snd (parse_char ch p)) \<le> length p"
  using length_parse_utf8 by (simp add: parse_char_def Let_def)

lemma length_parse_one: "p \<noteq> [] \<Longrightarrow> length (snd (parse_one p)) < length p"
proof -
  assume "p \<noteq> []"
  then obtain c q where p: "p = c # q" by (cases p) auto
  show ?thesis
  proof (cases "c = 92 \<and> q \<noteq> []")
    case True
    then obtain e r where q: "q = e # r" by (cases q) auto
    have "length (snd (parse_one (c # e # r))) \<le> length (e # r)"
      using True length_parse_hex length_parse_octal length_parse_char
      by (auto simp: split_beta le_SucI split: option.splits list.splits)
    then show ?thesis by (simp add: p q)
  next
    case False
    then show ?thesis using length_parse_char [of c q] by (auto simp: p less_Suc_eq_le)
  qed
qed

text \<open>
  The loop, with \<open>room\<close> units left in the buffer: the units written and the input where it stops.
  Only the second half of a surrogate pair can lack room.
\<close>

function parse_loop :: "u8 \<Rightarrow> nat \<Rightarrow> u8 list \<Rightarrow> wchar list \<times> u8 list" where
  "parse_loop endchar room p =
     (if p = [] \<or> hd p = endchar \<or> room = 0 then ([], p)
      else
        (let units = take room (fst (parse_one p));
             more = parse_loop endchar (room - length units) (snd (parse_one p))
         in (units @ fst more, snd more)))"
  by pat_completeness auto
termination
  by (relation "measure (\<lambda>(e, room, p). length p)") (simp_all add: length_parse_one)

declare parse_loop.simps [simp del]

text \<open>
  The result is the string with its final NUL, its length in bytes and the number of input bytes
  consumed; \<open>None\<close> stands for -1.
\<close>

definition parse_strW :: "nat \<Rightarrow> u8 list \<Rightarrow> u8 \<Rightarrow> (wchar list \<times> nat \<times> nat) option" where
  "parse_strW len src endchar =
     (let room = len div 2; units = fst (parse_loop endchar room src);
          p = snd (parse_loop endchar room src)
      in if length units \<ge> room then None
         else if p = [] then None
         else Some (units @ [0], (length units + 1) * 2, length src - length p + 1))"

section \<open>Printing\<close>

definition xdigit :: "nat \<Rightarrow> u8" where
  "xdigit n = (if n < 10 then of_nat (48 + n) else of_nat (87 + n))"

text \<open>\<open>%04x\<close> and \<open>%03o\<close>; \<open>%x\<close> and \<open>%o\<close> leave out leading zeros.\<close>

definition hex4 :: "nat \<Rightarrow> u8 list" where
  "hex4 n = map xdigit [n div 4096 mod 16, n div 256 mod 16, n div 16 mod 16, n mod 16]"

definition oct3 :: "nat \<Rightarrow> u8 list" where
  "oct3 n = map xdigit [n div 64 mod 8, n div 8 mod 8, n mod 8]"

fun no_zeros :: "u8 list \<Rightarrow> u8 list" where
  "no_zeros [] = []"
| "no_zeros [c] = [c]"
| "no_zeros (c # cs) = (if c = 48 then no_zeros cs else c # cs)"

text \<open>The table \<open>escapes\<close>; a dot is \<open>None\<close>.\<close>

definition escapes :: "wchar \<Rightarrow> u8 option" where
  "escapes c = map_of [(7, 97), (8, 98), (9, 116), (10, 110), (11, 118), (12, 102), (13, 114),
                       (27, 101)] c"

definition next_is :: "(wchar \<Rightarrow> bool) \<Rightarrow> wchar list \<Rightarrow> bool" where
  "next_is P str \<longleftrightarrow> (case str of [] \<Rightarrow> False | c # _ \<Rightarrow> P c)"

definition dump_unit :: "wchar \<times> wchar \<Rightarrow> wchar \<Rightarrow> wchar list \<Rightarrow> u8 list" where
  "dump_unit escape c str =
     (if c > 127 then
        (if next_is (\<lambda>d. d < 128 \<and> isxdigit (ucast d)) str
         then [92, 120] @ hex4 (unat c) else [92, 120] @ no_zeros (hex4 (unat c)))
      else if c < 32 then
        (case escapes c of Some e \<Rightarrow> [92, e]
         | None \<Rightarrow>
             if next_is (\<lambda>d. d \<ge> 48 \<and> d \<le> 55) str
             then [92] @ oct3 (unat c) else [92] @ no_zeros (oct3 (unat c)))
      else if c = 92 \<or> c = fst escape \<or> c = snd escape then [92, ucast c]
      else [ucast c])"

fun dump_strW :: "wchar \<times> wchar \<Rightarrow> wchar list \<Rightarrow> u8 list" where
  "dump_strW escape [] = []"
| "dump_strW escape (c # str) = dump_unit escape c str @ dump_strW escape str"

end
