(* ===== verification/Unicode_Props.thy ===== *)
theory Unicode_Props
  imports Unicode
begin

text \<open>
  Properties of \<open>server/unicode.c\<close>: case-insensitively equal names have equal hashes, and
  \<open>parse_strW\<close> reads back what \<open>dump_strW\<close> wrote, for every string.
\<close>

section \<open>Case-insensitive comparison\<close>

lemma memicmp_strW_eq_0:
  "length str1 = length str2 \<Longrightarrow>
   memicmp_strW cm str1 str2 = 0 \<longleftrightarrow> map (to_lower cm) str1 = map (to_lower cm) str2"
  by (induction str1 str2 rule: list_induct2) (auto simp: Let_def word_uint_eq_iff)

lemma hash_strW_lower:
  "map (to_lower cm) str1 = map (to_lower cm) str2 \<Longrightarrow> hash_strW cm str1 n = hash_strW cm str2 n"
proof -
  assume eq: "map (to_lower cm) str1 = map (to_lower cm) str2"
  have "fold (\<lambda>c hash. hash * 65599 + ucast (to_lower cm c)) str (0 :: u32) =
        fold (\<lambda>c hash. hash * 65599 + ucast c) (map (to_lower cm) str) 0" for str
    by (simp add: fold_map comp_def)
  then show ?thesis by (simp add: hash_strW_def eq)
qed

section \<open>Reading back escapes\<close>

lemma digit_cases:
  assumes "n < 16"
  shows "isxdigit (xdigit n)" and "ucast (to_hex (xdigit n)) = (of_nat n :: wchar)"
    and "xdigit n = 48 \<longleftrightarrow> n = 0"
    and "n < 8 \<Longrightarrow> is_octal (xdigit n) \<and> ucast (xdigit n - 48) = (of_nat n :: wchar)"
proof -
  have "\<forall>n\<in>set [0..<16]. isxdigit (xdigit n) \<and> (ucast (to_hex (xdigit n)) :: wchar) = of_nat n \<and>
      (xdigit n = 48 \<longleftrightarrow> n = 0) \<and>
      (n < 8 \<longrightarrow> is_octal (xdigit n) \<and> (ucast (xdigit n - 48) :: wchar) = of_nat n)"
    by code_simp
  moreover have "n \<in> set [0..<16]" using assms by simp
  ultimately show "isxdigit (xdigit n)" "ucast (to_hex (xdigit n)) = (of_nat n :: wchar)"
    "xdigit n = 48 \<longleftrightarrow> n = 0"
    "n < 8 \<Longrightarrow> is_octal (xdigit n) \<and> ucast (xdigit n - 48) = (of_nat n :: wchar)"
    by blast+
qed

text \<open>The digits of a hexadecimal escape, most significant first, and what stops the parser.\<close>

lemma parse_hex_digit:
  "n < 16 \<Longrightarrow> parse_hex (Suc k) d (xdigit n # p) = parse_hex k (d * 16 + of_nat n) p"
  by (simp add: digit_cases)

lemma parse_octal_digit:
  "n < 8 \<Longrightarrow> parse_octal (Suc k) d (xdigit n # p) = parse_octal k (d * 8 + of_nat n) p"
  using digit_cases(4) [of n] by simp

lemma parse_hex_stop: "p \<noteq> [] \<longrightarrow> \<not> isxdigit (hd p) \<Longrightarrow> parse_hex k d p = (d, p)"
  by (cases "(k, d, p)" rule: parse_hex.cases) auto

lemma parse_octal_stop: "p \<noteq> [] \<longrightarrow> \<not> is_octal (hd p) \<Longrightarrow> parse_octal k d p = (d, p)"
  by (cases "(k, d, p)" rule: parse_octal.cases) auto

lemma digit_split: "(n div b :: nat) * b + n mod b = n"
  by simp

lemma hex_value:
  fixes c :: wchar
  shows "(((of_nat (unat c div 4096 mod 16) * 16 + of_nat (unat c div 256 mod 16)) * 16 +
           of_nat (unat c div 16 mod 16)) * 16 + of_nat (unat c mod 16) :: wchar) = c"
proof -
  let ?n = "unat c"
  have "?n < 65536" using unsigned_less [of c] by simp
  then have "?n div 4096 mod 16 = ?n div 4096" by simp
  moreover have "?n div 4096 = ?n div 256 div 16" "?n div 256 = ?n div 16 div 16"
    by (simp_all add: div_mult2_eq [symmetric])
  ultimately have "((?n div 4096 mod 16 * 16 + ?n div 256 mod 16) * 16 + ?n div 16 mod 16) * 16 +
      ?n mod 16 = ?n"
    by (simp only: digit_split)
  then have "(of_nat (((?n div 4096 mod 16 * 16 + ?n div 256 mod 16) * 16 + ?n div 16 mod 16) * 16 +
      ?n mod 16) :: wchar) = of_nat ?n"
    by (rule arg_cong)
  also have "\<dots> = c" by simp
  finally show ?thesis by (simp only: of_nat_add of_nat_mult of_nat_numeral)
qed

lemma oct_value:
  fixes c :: wchar
  assumes "c < 32"
  shows "((of_nat (unat c div 64 mod 8) * 8 + of_nat (unat c div 8 mod 8)) * 8 +
          of_nat (unat c mod 8) :: wchar) = c"
proof -
  let ?n = "unat c"
  have "?n < 32" using assms by (simp add: word_less_nat_alt)
  then have "?n div 64 mod 8 = ?n div 64" by simp
  moreover have "?n div 64 = ?n div 8 div 8" by (simp add: div_mult2_eq [symmetric])
  ultimately have "(?n div 64 mod 8 * 8 + ?n div 8 mod 8) * 8 + ?n mod 8 = ?n"
    by (simp only: digit_split)
  then have "(of_nat ((?n div 64 mod 8 * 8 + ?n div 8 mod 8) * 8 + ?n mod 8) :: wchar) = of_nat ?n"
    by (rule arg_cong)
  also have "\<dots> = c" by simp
  finally show ?thesis by (simp only: of_nat_add of_nat_mult of_nat_numeral)
qed

lemma unat_ucast8: "(c :: wchar) < 128 \<Longrightarrow> unat (ucast c :: u8) = unat c"
  by (simp add: unsigned_ucast_eq take_bit_eq_mod word_less_nat_alt)

lemma unat_ucast16: "unat (ucast (c :: u8) :: wchar) = unat c"
proof -
  have "unat c < 256" using unsigned_less [of c] by simp
  then show ?thesis by (simp add: unsigned_ucast_eq take_bit_eq_mod)
qed

lemma ucast_ascii [simp]: "(c :: wchar) < 128 \<Longrightarrow> ucast (ucast c :: u8) = c"
  by (simp add: word_unat_eq_iff unat_ucast8 unat_ucast16)

lemma ucast_ascii_less [simp]: "(c :: wchar) < 128 \<Longrightarrow> (ucast c :: u8) < 128"
  by (simp add: word_less_nat_alt unat_ucast8)

lemma ucast_ascii_eq: "(c :: wchar) < 128 \<Longrightarrow> (ucast c :: u8) = d \<longleftrightarrow> c = ucast d"
  by (auto simp: word_unat_eq_iff unat_ucast8 unat_ucast16)

lemma ucast_byte: "(e :: u8) < 128 \<Longrightarrow> ucast (ucast e :: wchar) = e"
proof -
  assume "e < 128"
  then have "(ucast e :: wchar) < 128" by (simp add: word_less_nat_alt unat_ucast16)
  then show ?thesis by (simp add: word_unat_eq_iff unat_ucast8 unat_ucast16)
qed

text \<open>A delimiter that the escapes can handle: printable, and not the start of an escape.\<close>

definition delim :: "u8 \<Rightarrow> bool" where
  "delim e \<longleftrightarrow> 32 \<le> e \<and> e < 128 \<and> e \<noteq> 92 \<and> \<not> isxdigit e \<and> simple_escape e = None \<and> e \<noteq> 120"

lemma parse_plain:
  assumes "32 \<le> c" "c < 128" "c \<noteq> 92"
  shows "parse_one (ucast (c :: wchar) # p) = ([c], p)"
  using assms by (simp add: parse_char_def ucast_ascii_eq)

lemma octal_isxdigit: "is_octal e \<Longrightarrow> isxdigit e"
  using order_trans [of e 55 57] by (simp add: is_octal_def isxdigit_def isdigit_def)

lemma parse_escaped:
  assumes "delim e \<or> e = 92"
  shows "parse_one (92 # e # p) = ([ucast e], p)"
proof -
  have "simple_escape 92 = None" "\<not> is_octal 92" by code_simp+
  then have e: "simple_escape e = None" "e \<noteq> 120" "\<not> is_octal e" "e < 128"
    using assms octal_isxdigit [of e] by (auto simp: delim_def)
  then show ?thesis by (simp add: parse_char_def)
qed

lemma parse_one_hex:
  assumes "n < 16" and "parse_hex 3 (of_nat n) q = (d, r)"
  shows "parse_one (92 # 120 # xdigit n # q) = ([d], r)"
proof -
  have "simple_escape 120 = None" by code_simp
  then show ?thesis using assms digit_cases(1,2) [OF assms(1)] by simp
qed

lemma parse_one_octal:
  assumes "n < 8" and "parse_octal 2 (of_nat n) q = (d, r)"
  shows "parse_one (92 # xdigit n # q) = ([d], r)"
proof -
  have "\<forall>n\<in>set [0..<8]. simple_escape (xdigit n) = None \<and> xdigit n \<noteq> 120" by code_simp
  then have "simple_escape (xdigit n) = None" "xdigit n \<noteq> 120" using assms(1) by auto
  then show ?thesis using assms digit_cases(4) [of n] by simp
qed

lemma parse_hex_digits:
  assumes "d1 < 16" "d2 < 16" "d3 < 16"
  shows "parse_hex 3 v (xdigit d1 # xdigit d2 # xdigit d3 # p) =
      (((v * 16 + of_nat d1) * 16 + of_nat d2) * 16 + of_nat d3, p)"
    and "p \<noteq> [] \<longrightarrow> \<not> isxdigit (hd p) \<Longrightarrow>
      parse_hex 3 v (xdigit d1 # xdigit d2 # p) = ((v * 16 + of_nat d1) * 16 + of_nat d2, p)"
    and "p \<noteq> [] \<longrightarrow> \<not> isxdigit (hd p) \<Longrightarrow>
      parse_hex 3 v (xdigit d1 # p) = (v * 16 + of_nat d1, p)"
  unfolding numeral_3_eq_3 using assms
  by (simp_all only: parse_hex_digit parse_hex_stop parse_hex.simps(2))

lemma parse_octal_digits:
  assumes "d1 < 8" "d2 < 8"
  shows "parse_octal 2 v (xdigit d1 # xdigit d2 # p) = ((v * 8 + of_nat d1) * 8 + of_nat d2, p)"
    and "p \<noteq> [] \<longrightarrow> \<not> is_octal (hd p) \<Longrightarrow>
      parse_octal 2 v (xdigit d1 # p) = (v * 8 + of_nat d1, p)"
  unfolding numeral_2_eq_2 using assms
  by (simp_all only: parse_octal_digit parse_octal_stop parse_octal.simps(2))

lemma parse_hex4:
  fixes c :: wchar
  shows "parse_one (92 # 120 # hex4 (unat c) @ p) = ([c], p)"
  unfolding hex4_def list.map append_Cons append_Nil
  by (rule parse_one_hex, simp, subst parse_hex_digits(1)) (simp_all only: hex_value mod_less_divisor zero_less_numeral)

lemma no_zeros_Cons: "no_zeros (c # d # cs) = (if c = 48 then no_zeros (d # cs) else c # d # cs)"
  by simp

lemma parse_hex_short:
  fixes c :: wchar
  assumes c: "127 < c" and p: "p \<noteq> [] \<longrightarrow> \<not> isxdigit (hd p)"
  shows "parse_one (92 # 120 # no_zeros (hex4 (unat c)) @ p) = ([c], p)"
proof -
  let ?d3 = "unat c div 4096 mod 16" and ?d2 = "unat c div 256 mod 16"
  let ?d1 = "unat c div 16 mod 16" and ?d0 = "unat c mod 16"
  have l: "?d3 < 16" "?d2 < 16" "?d1 < 16" "?d0 < 16" by simp_all
  note v = hex_value [of c]
  have big: "127 < unat c" "unat c < 65536"
    using c unsigned_less [of c] by (simp_all add: word_less_nat_alt)
  consider "?d3 \<noteq> 0" | "?d3 = 0" "?d2 \<noteq> 0" | "?d3 = 0" "?d2 = 0" "?d1 \<noteq> 0"
  proof -
    have "?d1 \<noteq> 0" if "?d3 = 0" "?d2 = 0"
    proof
      assume "?d1 = 0"
      then have "unat c div 16 = 16 * (unat c div 256)" using div_mult2_eq [of "unat c" 16 16] by auto
      moreover have "unat c div 256 = 0"
        using that big(2) div_mult2_eq [of "unat c" 256 16] by auto
      ultimately show False using big(1) by simp
    qed
    then show ?thesis using that by blast
  qed
  then show ?thesis
  proof cases
    case 1
    then have "no_zeros (hex4 (unat c)) = hex4 (unat c)" using digit_cases(3) [OF l(1)] by (simp add: hex4_def)
    then show ?thesis using parse_hex4 by simp
  next
    case 2
    then have "no_zeros (hex4 (unat c)) = [xdigit ?d2, xdigit ?d1, xdigit ?d0]"
      using digit_cases(3) [OF l(1)] digit_cases(3) [OF l(2)] by (simp add: hex4_def)
    moreover have "(of_nat ?d2 * 16 + of_nat ?d1) * 16 + of_nat ?d0 = c" using v 2 by simp
    ultimately show ?thesis
      using parse_one_hex [OF l(2) parse_hex_digits(2) [OF l(3,4,4) p, of "of_nat ?d2"]] by simp
  next
    case 3
    then have "no_zeros (hex4 (unat c)) = [xdigit ?d1, xdigit ?d0]"
      using digit_cases(3) [OF l(1)] digit_cases(3) [OF l(2)] digit_cases(3) [OF l(3)]
      by (simp add: hex4_def)
    moreover have "of_nat ?d1 * 16 + of_nat ?d0 = c" using v 3 by simp
    ultimately show ?thesis
      using parse_one_hex [OF l(3) parse_hex_digits(3) [OF l(4,4,4) p, of "of_nat ?d1"]] by simp
  qed
qed

lemma parse_oct3:
  fixes c :: wchar
  assumes "c < 32"
  shows "parse_one (92 # oct3 (unat c) @ p) = ([c], p)"
  unfolding oct3_def list.map append_Cons append_Nil
  by (rule parse_one_octal, simp, subst parse_octal_digits(1))
     (simp_all only: oct_value [OF assms] mod_less_divisor zero_less_numeral)

lemma parse_oct_short:
  fixes c :: wchar
  assumes c: "c < 32" and p: "p \<noteq> [] \<longrightarrow> \<not> is_octal (hd p)"
  shows "parse_one (92 # no_zeros (oct3 (unat c)) @ p) = ([c], p)"
proof -
  let ?d2 = "unat c div 64 mod 8" and ?d1 = "unat c div 8 mod 8" and ?d0 = "unat c mod 8"
  have l: "?d2 < 8" "?d1 < 8" "?d0 < 8" "?d2 < 16" "?d1 < 16" by (simp_all add: less_trans [of _ 8 16])
  have "unat c < 32" using c by (simp add: word_less_nat_alt)
  then have d2: "?d2 = 0" by simp
  note v = oct_value [OF c]
  show ?thesis
  proof (cases "?d1 = 0")
    case True
    then have "no_zeros (oct3 (unat c)) = [xdigit ?d0]"
      using d2 digit_cases(3) [OF l(4)] digit_cases(3) [OF l(5)] by (simp add: oct3_def)
    moreover have "of_nat ?d0 = c" using v d2 True by simp
    ultimately show ?thesis
      using parse_one_octal [OF l(3) parse_octal_stop [OF p]] by simp
  next
    case False
    then have "no_zeros (oct3 (unat c)) = [xdigit ?d1, xdigit ?d0]"
      using d2 digit_cases(3) [OF l(4)] digit_cases(3) [OF l(5)] by (simp add: oct3_def)
    moreover have "of_nat ?d1 * 8 + of_nat ?d0 = c" using v d2 by simp
    ultimately show ?thesis
      using parse_one_octal [OF l(2) parse_octal_digits(2) [OF l(3,3) p, of "of_nat ?d1"]] by simp
  qed
qed

section \<open>The round trip\<close>

text \<open>The first byte after a unit is a digit only when the next unit is that digit.\<close>

definition escapes_ok :: "wchar \<times> wchar \<Rightarrow> u8 \<Rightarrow> bool" where
  "escapes_ok escape endchar \<longleftrightarrow>
     (\<exists>e0 e1. escape = (ucast e0, ucast e1) \<and> delim e0 \<and> delim e1 \<and> endchar \<in> {e0, e1})"

lemma hd_dump_unit:
  "hd (dump_unit escape c str) = 92 \<or>
   (hd (dump_unit escape c str) = ucast c \<and> 32 \<le> c \<and> c < 128 \<and> c \<noteq> fst escape \<and> c \<noteq> snd escape)"
  by (auto simp: dump_unit_def not_less intro: le_less_trans [of c 127 128] split: option.splits)

lemma dump_unit_ne [simp]: "dump_unit escape c str \<noteq> []"
  by (auto simp: dump_unit_def split: option.splits)

lemma hd_dump:
  assumes "\<not> isxdigit e" and "isxdigit (hd (dump_strW escape str @ e # p))"
  shows "next_is (\<lambda>d. d < 128 \<and> isxdigit (ucast d)) str"
proof (cases str)
  case (Cons c cs)
  have "\<not> isxdigit 92" by code_simp
  then show ?thesis using assms(2) hd_dump_unit [of escape c cs] by (auto simp: Cons next_is_def)
qed (use assms in simp)

lemma hd_dump_octal:
  assumes "\<not> isxdigit e" and "is_octal (hd (dump_strW escape str @ e # p))"
  shows "next_is (\<lambda>d. d \<ge> 48 \<and> d \<le> 55) str"
proof (cases str)
  case (Cons c cs)
  have "\<not> is_octal 92" by code_simp
  then have "is_octal (ucast c)" "c < 128"
    using assms(2) hd_dump_unit [of escape c cs] by (auto simp: Cons)
  then show ?thesis
    by (simp add: Cons next_is_def is_octal_def word_le_nat_alt unat_ucast8)
qed (use assms octal_isxdigit in auto)

lemma parse_dump_unit:
  assumes esc: "escapes_ok escape endchar"
  shows "parse_one (dump_unit escape c str @ dump_strW escape str @ endchar # p) =
         ([c], dump_strW escape str @ endchar # p)"
proof -
  obtain e0 e1 where e: "escape = (ucast e0, ucast e1)" "delim e0" "delim e1" "endchar \<in> {e0, e1}"
    using esc by (auto simp: escapes_ok_def)
  have nx: "\<not> isxdigit endchar" using e by (auto simp: delim_def)
  let ?q = "dump_strW escape str @ endchar # p"
  consider "127 < c" | "c < 32" "escapes c = None" | u where "c < 32" "escapes c = Some u"
    | "32 \<le> c" "c \<le> 127" "c = 92 \<or> c = fst escape \<or> c = snd escape"
    | "32 \<le> c" "c \<le> 127" "c \<noteq> 92" "c \<noteq> fst escape" "c \<noteq> snd escape"
    by (meson not_le option.exhaust_sel)
  then show ?thesis
  proof cases
    case 1
    then show ?thesis
      using parse_hex4 [of c ?q] parse_hex_short [OF 1, of ?q] hd_dump [OF nx, of escape str p]
      by (auto simp: dump_unit_def simp del: parse_one.simps)
  next
    case 2
    then have "\<not> 127 < c" using less_trans [of c 32 127] by auto
    then show ?thesis
      using 2 parse_oct3 [of c ?q] parse_oct_short [of c ?q] hd_dump_octal [OF nx, of escape str p]
      by (auto simp: dump_unit_def simp del: parse_one.simps)
  next
    case 3
    then have "\<not> 127 < c" "simple_escape u = Some c"
      by (auto simp: escapes_def simple_escape_def split: if_splits)
    then show ?thesis using 3 by (simp add: dump_unit_def)
  next
    case 4
    then have l: "c < 128" by (simp add: le_less_trans [of c 127 128])
    have "delim (ucast c) \<or> (ucast c :: u8) = 92"
      using 4(3) e by (auto simp: ucast_byte delim_def)
    then have "parse_one (92 # ucast c # ?q) = ([c], ?q)"
      using parse_escaped [of "ucast c" ?q] l by (simp del: parse_one.simps)
    then show ?thesis using 4 by (auto simp: dump_unit_def not_less simp del: parse_one.simps)
  next
    case 5
    then have "parse_one (ucast c # ?q) = ([c], ?q)"
      by (intro parse_plain) (auto intro: le_less_trans [of c 127 128])
    then show ?thesis using 5 by (auto simp: dump_unit_def not_less simp del: parse_one.simps)
  qed
qed

lemma parse_loop_dump:
  assumes esc: "escapes_ok escape endchar" and "length str < room"
  shows "parse_loop endchar room (dump_strW escape str @ endchar # p) = (str, endchar # p)"
  using assms(2)
proof (induction str arbitrary: room)
  case Nil
  then show ?case by (simp add: parse_loop.simps)
next
  case (Cons c str)
  have "hd (dump_unit escape c str) \<noteq> endchar"
    using hd_dump_unit [of escape c str] esc by (auto simp: escapes_ok_def delim_def ucast_ascii_eq)
  then show ?case
    using Cons parse_dump_unit [OF esc, of c str p]
    by (subst parse_loop.simps) (auto simp: Let_def simp del: parse_one.simps)
qed


section \<open>Properties\<close>

text \<open>
  C9: for every string, \<open>parse_strW\<close> reads back from the text of \<open>dump_strW\<close>, up to the closing
  delimiter, exactly the string with a final NUL, provided the delimiters are printable
  characters that do not start an escape and the buffer has room.
\<close>

theorem parse_dump_roundtrip:
  assumes "escapes_ok escape endchar" and "length str < len div 2"
  shows "parse_strW len (dump_strW escape str @ endchar # p) endchar =
           Some (str @ [0], (length str + 1) * 2, length (dump_strW escape str) + 1)"
  using parse_loop_dump [OF assms, of p] assms(2) by (simp add: parse_strW_def)

theorem parse_dump_roundtrip_witness:
  "parse_strW 64 (dump_strW (91, 93) [72, 0, 49, 9, 93, 92, 8364, 97, 65535] @ 93 # [32]) 93 =
     Some ([72, 0, 49, 9, 93, 92, 8364, 97, 65535, 0], 20,
           length (dump_strW (91, 93) [72, 0, 49, 9, 93, 92, 8364, 97, 65535]) + 1)"
proof -
  have "delim 91" "delim 93" by code_simp+
  then have "escapes_ok (91, 93) 93"
    unfolding escapes_ok_def by (intro exI [where x = 91] exI [where x = 93]) simp
  from parse_dump_roundtrip [OF this, of "[72, 0, 49, 9, 93, 92, 8364, 97, 65535]" 64 "[32]"]
  show ?thesis by simp
qed



text \<open>
  Names that compare equal without regard to case fall into the same hash bucket, for every
  case table and table size.
\<close>

lemma hash_strW_ignores_case:
  assumes "length str1 = length str2" and "memicmp_strW casemap str1 str2 = 0"
  shows "hash_strW casemap str1 hash_size = hash_strW casemap str2 hash_size"
  using hash_strW_lower memicmp_strW_eq_0 [OF assms(1)] assms(2) by blast

end
