(* ===== verification/Objects.thy ===== *)
theory Objects
  imports Unicode "HOL-Library.Finite_Map" "HOL-Library.Monad_Syntax"
begin

text \<open>
  Kernel objects, \<open>server/object.c\<close> and \<open>server/object.h\<close>: the heap of objects, reference counts,
  names and the access mapping; and the server state that the handle tables
  (theory \<open>Handles\<close>) share.

  An object pointer is a \<open>nat\<close>.  Operations are partial: \<open>None\<close> means that an \<open>assert\<close> of the code
  fails or that freed or uninitialised memory is accessed.  The counters of an object are
  \<open>nat\<close>: reference counts are at most \<open>INT_MAX\<close> by the assertion in \<open>grab_object\<close>, and a handle
  count is at most the reference
  count.

  The per-type operations an object points to are a parameter, as is what the host answers: the
  record \<open>kenv\<close>.  The \<open>destroy\<close> operation of a type is recorded by appending the object to
  \<open>destroyed\<close>; what it releases in turn is that type's business.
\<close>

section \<open>State\<close>

record obj_name =
  on_parent :: "nat option"
  on_name :: "wchar list"

record kobject =
  refcount :: nat
  handle_count :: nat
  ops :: nat
  wait_queue :: "nat list"
  oname :: "obj_name option"
  has_sd :: bool
  is_permanent :: bool

record generic_map =
  gm_read :: u32
  gm_write :: u32
  gm_exec :: u32
  gm_all :: u32

record type_descr =
  obj_count :: u32
  type_handle_count :: u32
  obj_max :: u32
  handle_max :: u32

record handle_entry =
  ptr :: "nat option"
  hacc :: u32

text \<open>\<open>entries\<close> has one element per allocated entry, \<open>None\<close> where it was never written.\<close>

record handle_table =
  tlast :: int
  tfree :: nat
  entries :: "handle_entry option list"

text \<open>
  \<open>procs\<close>: the handle table of each process, \<open>None\<close> for \<open>NULL\<close>.  \<open>namespaces\<close>: for a directory
  object, its hash buckets, each the list of the objects whose names are in it.
\<close>

record kstate =
  objs :: "(nat, kobject) fmap"
  types :: "nat \<Rightarrow> type_descr"
  namespaces :: "nat \<Rightarrow> nat list list"
  destroyed :: "nat list"
  procs :: "handle_table option list"
  global_table :: "handle_table option"
  err :: status

record kenv =
  e_mem :: "nat \<Rightarrow> bool"
  e_type :: "nat \<Rightarrow> nat"
  e_mapping :: "nat \<Rightarrow> generic_map"
  e_map_access :: "nat \<Rightarrow> (nat \<Rightarrow> u32 \<Rightarrow> u32) option"
  e_close :: "nat \<Rightarrow> (nat \<Rightarrow> nat \<Rightarrow> u32 \<Rightarrow> bool) option"
  e_token_check :: "nat option \<Rightarrow> nat \<Rightarrow> u32 \<Rightarrow> u32 option"
  e_thread_impersonation :: "nat option"
  e_thread_token :: "nat option"
  e_thread :: nat
  e_process :: nat
  e_process_ops :: nat
  e_proc :: "nat \<Rightarrow> nat"
  e_token_of :: "nat \<Rightarrow> nat option"

text \<open>
  \<open>e_proc\<close> gives the position in \<open>procs\<close> of a process object, \<open>e_process_ops\<close> is \<open>process_ops\<close> and
  \<open>e_token_of\<close> the token of a process; the other entries are the current thread, its tokens and its
  process.  \<open>e_close\<close>, the \<open>close_handle\<close> operation of a type, answers whether the handle may be closed.
\<close>

abbreviation cur_proc :: "kenv \<Rightarrow> nat" where
  "cur_proc env \<equiv> e_proc env (e_process env)"

definition set_error :: "status \<Rightarrow> kstate \<Rightarrow> kstate" where
  "set_error st s = s\<lparr>err := st\<rparr>"

abbreviation obj_at :: "kstate \<Rightarrow> nat \<Rightarrow> kobject option" where
  "obj_at s p \<equiv> fmlookup (objs s) p"

definition set_obj :: "nat \<Rightarrow> kobject \<Rightarrow> kstate \<Rightarrow> kstate" where
  "set_obj p ob s = s\<lparr>objs := fmupd p ob (objs s)\<rparr>"

definition INT_MAX :: nat where
  "INT_MAX = 2147483647"

section \<open>Access rights\<close>

abbreviation GENERIC_READ :: u32 where "GENERIC_READ \<equiv> 0x80000000"
abbreviation GENERIC_WRITE :: u32 where "GENERIC_WRITE \<equiv> 0x40000000"
abbreviation GENERIC_EXECUTE :: u32 where "GENERIC_EXECUTE \<equiv> 0x20000000"
abbreviation GENERIC_ALL :: u32 where "GENERIC_ALL \<equiv> 0x10000000"
abbreviation MAXIMUM_ALLOWED :: u32 where "MAXIMUM_ALLOWED \<equiv> 0x02000000"

definition map_access :: "u32 \<Rightarrow> generic_map \<Rightarrow> u32" where
  "map_access access mapping =
     (let access = (if access AND GENERIC_READ \<noteq> 0 then access OR gm_read mapping else access);
          access = (if access AND GENERIC_WRITE \<noteq> 0 then access OR gm_write mapping else access);
          access = (if access AND GENERIC_EXECUTE \<noteq> 0 then access OR gm_exec mapping else access);
          access = (if access AND GENERIC_ALL \<noteq> 0 then access OR gm_all mapping else access)
      in access AND NOT (GENERIC_READ OR GENERIC_WRITE OR GENERIC_EXECUTE OR GENERIC_ALL))"

definition default_map_access :: "kenv \<Rightarrow> kobject \<Rightarrow> u32 \<Rightarrow> u32" where
  "default_map_access env ob access = map_access access (e_mapping env (e_type env (ops ob)))"

definition map_obj_access :: "kenv \<Rightarrow> nat \<Rightarrow> kobject \<Rightarrow> u32 \<Rightarrow> u32" where
  "map_obj_access env p ob access =
     (case e_map_access env (ops ob) of Some f \<Rightarrow> f p access
      | None \<Rightarrow> default_map_access env ob access)"

text \<open>
  \<open>check_object_access\<close> of \<open>server/token.c\<close>; \<open>e_token_check\<close> is \<open>token_access_check\<close> on the object's
  descriptor with the granted rights, \<open>None\<close> when it denies.  The result is the new value of the
  access mask.
\<close>

definition check_object_access ::
  "kenv \<Rightarrow> nat option \<Rightarrow> nat \<Rightarrow> kobject \<Rightarrow> u32 \<Rightarrow> kstate \<Rightarrow> kstate \<times> u32 option" where
  "check_object_access env token p ob access s =
     (let token = (case token of None \<Rightarrow> (case e_thread_token env of None \<Rightarrow> e_token_of env (cur_proc env)
                                          | Some t \<Rightarrow> Some t)
                   | Some t \<Rightarrow> Some t)
      in if \<not> has_sd ob then
           (s, Some (if access AND MAXIMUM_ALLOWED \<noteq> 0 then map_obj_access env p ob GENERIC_ALL
                     else access))
         else case e_token_check env token p access of
             Some granted \<Rightarrow> (s, Some granted)
           | None \<Rightarrow> (set_error STATUS_ACCESS_DENIED s, None))"

section \<open>Life cycle\<close>

text \<open>\<open>mem_alloc\<close> answers a fresh pointer or \<open>NULL\<close>.\<close>

definition alloc_object :: "kenv \<Rightarrow> nat option \<Rightarrow> nat \<Rightarrow> kstate \<Rightarrow> kstate \<times> nat option" where
  "alloc_object env mem_ptr op s =
     (case mem_ptr of None \<Rightarrow> (set_error STATUS_NO_MEMORY s, None)
      | Some p \<Rightarrow>
          (let t = e_type env op; d = types s t;
               d = d\<lparr>obj_count := obj_count d + 1, obj_max := max (obj_max d) (obj_count d + 1)\<rparr>
           in (set_obj p \<lparr>refcount = 1, handle_count = 0, ops = op, wait_queue = [], oname = None,
                          has_sd = False, is_permanent = False\<rparr> (s\<lparr>types := (types s)(t := d)\<rparr>),
               Some p)))"

definition free_object :: "kenv \<Rightarrow> nat \<Rightarrow> kobject \<Rightarrow> kstate \<Rightarrow> kstate" where
  "free_object env p ob s =
     (let t = e_type env (ops ob); d = types s t
      in s\<lparr>types := (types s)(t := d\<lparr>obj_count := obj_count d - 1\<rparr>), objs := fmdrop p (objs s)\<rparr>)"

definition grab_object :: "nat \<Rightarrow> kstate \<Rightarrow> kstate option" where
  "grab_object p s =
     (case obj_at s p of None \<Rightarrow> None
      | Some ob \<Rightarrow> if refcount ob < INT_MAX then Some (set_obj p (ob\<lparr>refcount := refcount ob + 1\<rparr>) s)
                  else None)"

text \<open>\<open>list_remove\<close> of the name entry: the object leaves its parent's bucket.\<close>

definition unlink_name :: "nat \<Rightarrow> nat option \<Rightarrow> kstate \<Rightarrow> kstate" where
  "unlink_name p parent s =
     (case parent of None \<Rightarrow> s
      | Some q \<Rightarrow> s\<lparr>namespaces := (namespaces s)(q := map (removeAll p) (namespaces s q))\<rparr>)"

text \<open>The effect of \<open>ops->destroy\<close>: it is logged, and a directory frees its entries.\<close>

definition destroy :: "nat \<Rightarrow> kstate \<Rightarrow> kstate" where
  "destroy p s = s\<lparr>destroyed := destroyed s @ [p], namespaces := (namespaces s)(p := [])\<rparr>"

text \<open>
  \<open>release_object\<close> with \<open>unlink_named_object\<close>, which releases the parent directory in turn: the
  number of objects with references left decreases.
\<close>

definition live :: "kstate \<Rightarrow> nat set" where
  "live s = {p. \<exists>ob. obj_at s p = Some ob \<and> 0 < refcount ob}"

lemma finite_live [simp]: "finite (live s)"
  by (rule finite_subset [of _ "fmdom' (objs s)"]) (auto simp: live_def intro: fmdom'I)

definition unlink_named_object :: "nat \<Rightarrow> kobject \<Rightarrow> kstate \<Rightarrow> kstate \<times> nat option" where
  "unlink_named_object p ob s =
     (case oname ob of None \<Rightarrow> (set_obj p ob s, None)
      | Some n \<Rightarrow> (unlink_name p (on_parent n) (set_obj p (ob\<lparr>oname := None\<rparr>) s), on_parent n))"

lemma objs_unlink_name [simp]: "objs (unlink_name p parent s) = objs s"
  by (simp add: unlink_name_def split: option.splits)

function release_object :: "kenv \<Rightarrow> nat \<Rightarrow> kstate \<Rightarrow> kstate option" where
  "release_object env p s =
     (case obj_at s p of None \<Rightarrow> None
      | Some ob \<Rightarrow>
          if refcount ob = 0 then None
          else
            (let ob = ob\<lparr>refcount := refcount ob - 1\<rparr>
             in if refcount ob \<noteq> 0 then Some (set_obj p ob s)
                else if handle_count ob \<noteq> 0 \<or> wait_queue ob \<noteq> [] then None
                else
                  (case unlink_named_object p ob s of
                     (s, None) \<Rightarrow> Some (free_object env p ob (destroy p s))
                   | (s, Some q) \<Rightarrow>
                       (case release_object env q s of None \<Rightarrow> None
                        | Some s \<Rightarrow> Some (free_object env p ob (destroy p s))))))"
  by pat_completeness auto
termination
proof (relation "measure (\<lambda>(env, p, s). card (live s))", goal_cases)
  case (2 env p s ob ob' res q s')
  have "obj_at s p = Some ob" "0 < refcount ob" "refcount ob' = 0" "res = fst (unlink_named_object p ob' s)"
    using 2 by (auto simp: prod_eq_iff)
  then have "live res \<subset> live s"
    by (fastforce simp: live_def unlink_named_object_def set_obj_def split: option.splits if_splits)
  then show ?case by (simp add: psubset_card_mono)
qed simp

declare release_object.simps [simp del]


definition make_object_permanent :: "nat \<Rightarrow> kstate \<Rightarrow> kstate option" where
  "make_object_permanent p s =
     (case obj_at s p of None \<Rightarrow> None | Some ob \<Rightarrow> Some (set_obj p (ob\<lparr>is_permanent := True\<rparr>) s))"

definition make_object_temporary :: "nat \<Rightarrow> kstate \<Rightarrow> kstate option" where
  "make_object_temporary p s =
     (case obj_at s p of None \<Rightarrow> None | Some ob \<Rightarrow> Some (set_obj p (ob\<lparr>is_permanent := False\<rparr>) s))"

end
