(* ===== verification/Handles.thy ===== *)
theory Handles
  imports Objects
begin

text \<open>
  Handle tables, \<open>server/handle.c\<close>: definitions.  A process is an index into \<open>procs\<close>; the global
  table has its own field.  Functions that get a pointer to a table or an entry in the code get the
  place here (\<open>tbl\<close>, and an index).  A reply handle is a \<open>u32\<close>, 0 on failure, with the error in
  \<open>err\<close>.
\<close>

section \<open>Handle values\<close>

definition RESERVED_SHIFT :: nat where "RESERVED_SHIFT = 26"
definition RESERVED_INHERIT :: u32 where "RESERVED_INHERIT = push_bit RESERVED_SHIFT 1"
definition RESERVED_CLOSE_PROTECT :: u32 where "RESERVED_CLOSE_PROTECT = push_bit RESERVED_SHIFT 2"
definition RESERVED_ALL :: u32 where "RESERVED_ALL = RESERVED_INHERIT OR RESERVED_CLOSE_PROTECT"

definition MIN_HANDLE_ENTRIES :: nat where "MIN_HANDLE_ENTRIES = 32"
definition MAX_HANDLE_ENTRIES :: nat where "MAX_HANDLE_ENTRIES = 0x00ffffff"

definition index_to_handle :: "nat \<Rightarrow> u32" where
  "index_to_handle index = push_bit 2 (of_nat (index + 1))"

definition handle_to_index :: "u32 \<Rightarrow> int" where
  "handle_to_index handle = uint (drop_bit 2 handle) - 1"

definition HANDLE_OBFUSCATOR :: u32 where "HANDLE_OBFUSCATOR = 0x544a4def"

definition handle_is_global :: "u32 \<Rightarrow> bool" where
  "handle_is_global handle \<longleftrightarrow> handle XOR HANDLE_OBFUSCATOR \<le> push_bit 2 (of_nat MAX_HANDLE_ENTRIES)"

definition handle_local_to_global :: "u32 \<Rightarrow> u32" where
  "handle_local_to_global handle = (if handle = 0 then 0 else handle XOR HANDLE_OBFUSCATOR)"

definition handle_global_to_local :: "u32 \<Rightarrow> u32" where
  "handle_global_to_local handle = handle XOR HANDLE_OBFUSCATOR"

section \<open>References held by handles\<close>

definition grab_object_for_handle :: "kenv \<Rightarrow> nat \<Rightarrow> kstate \<Rightarrow> kstate option" where
  "grab_object_for_handle env p s =
     (case obj_at s p of None \<Rightarrow> None
      | Some ob \<Rightarrow>
          (let t = e_type env (ops ob); d = types s t; n = type_handle_count d + 1;
               d = d\<lparr>type_handle_count := n, handle_max := max (handle_max d) n\<rparr>
           in grab_object p (set_obj p (ob\<lparr>handle_count := handle_count ob + 1\<rparr>)
                               (s\<lparr>types := (types s)(t := d)\<rparr>))))"

definition release_object_from_handle :: "kenv \<Rightarrow> nat \<Rightarrow> kstate \<Rightarrow> kstate option" where
  "release_object_from_handle env p s =
     (case obj_at s p of None \<Rightarrow> None
      | Some ob \<Rightarrow>
          if handle_count ob = 0 then None
          else
            (let t = e_type env (ops ob); d = types s t;
                 d = d\<lparr>type_handle_count := type_handle_count d - 1\<rparr>
             in release_object env p (set_obj p (ob\<lparr>handle_count := handle_count ob - 1\<rparr>)
                                        (s\<lparr>types := (types s)(t := d)\<rparr>))))"

section \<open>Tables\<close>

datatype tbl = Proc nat | Global

definition table_at :: "kstate \<Rightarrow> tbl \<Rightarrow> handle_table option" where
  "table_at s w =
     (case w of Proc p \<Rightarrow> if p < length (procs s) then procs s ! p else None
      | Global \<Rightarrow> global_table s)"

definition set_table :: "tbl \<Rightarrow> handle_table option \<Rightarrow> kstate \<Rightarrow> kstate" where
  "set_table w t s =
     (case w of Proc p \<Rightarrow> s\<lparr>procs := (procs s)[p := t]\<rparr> | Global \<Rightarrow> s\<lparr>global_table := t\<rparr>)"

abbreviation tcount :: "handle_table \<Rightarrow> nat" where
  "tcount t \<equiv> length (entries t)"

text \<open>\<open>None\<close> when the allocation of the table or of its entries fails.\<close>

definition alloc_handle_table :: "kenv \<Rightarrow> nat \<Rightarrow> handle_table option" where
  "alloc_handle_table env count =
     (let count = max count MIN_HANDLE_ENTRIES
      in if e_mem env count then Some \<lparr>tlast = -1, tfree = 0, entries = replicate count None\<rparr> else None)"

definition grow_handle_table :: "kenv \<Rightarrow> handle_table \<Rightarrow> handle_table option" where
  "grow_handle_table env t =
     (let count = min (tcount t * 2) MAX_HANDLE_ENTRIES
      in if count = tcount t \<or> \<not> e_mem env count then None
         else Some (t\<lparr>entries := entries t @ replicate (count - tcount t) None\<rparr>))"

text \<open>
  \<open>for (i = table->free; i <= table->last; i++, entry++) if (!entry->ptr) goto found\<close>: the index
  found, or \<open>last + 1\<close>; \<open>None\<close> if an entry that was never written is read.
\<close>

function find_free :: "handle_entry option list \<Rightarrow> int \<Rightarrow> nat \<Rightarrow> nat option" where
  "find_free es lst i =
     (if int i \<le> lst then
        (if i < length es then
           (case es ! i of None \<Rightarrow> None
            | Some e \<Rightarrow> if ptr e = None then Some i else find_free es lst (i + 1))
         else None)
      else Some i)"
  by pat_completeness auto
termination by (relation "measure (\<lambda>(es, lst, i). length es - i)") auto

declare find_free.simps [simp del]

definition set_entry :: "nat \<Rightarrow> handle_entry \<Rightarrow> handle_table \<Rightarrow> handle_table" where
  "set_entry i e t = t\<lparr>entries := (entries t)[i := Some e]\<rparr>"

text \<open>
  \<open>alloc_entry\<close> on the table: the entry it finds or adds, \<open>Some None\<close> when the table cannot grow.
\<close>

definition alloc_slot ::
  "kenv \<Rightarrow> handle_table \<Rightarrow> nat \<Rightarrow> u32 \<Rightarrow> (handle_table \<times> nat) option option" where
  "alloc_slot env t p access =
     do {
       i \<leftarrow> find_free (entries t) (tlast t) (tfree t);
       let e = \<lparr>ptr = Some p, hacc = access\<rparr>;
       if int i \<le> tlast t then Some (Some (set_entry i e (t\<lparr>tfree := i + 1\<rparr>), i))
       else if i \<ge> tcount t then
         (case grow_handle_table env t of None \<Rightarrow> Some None
          | Some t \<Rightarrow>
              if i < tcount t then Some (Some (set_entry i e (t\<lparr>tlast := int i, tfree := i + 1\<rparr>), i))
              else None)
       else Some (Some (set_entry i e (t\<lparr>tlast := int i, tfree := i + 1\<rparr>), i))
     }"

definition alloc_entry :: "kenv \<Rightarrow> tbl \<Rightarrow> nat \<Rightarrow> u32 \<Rightarrow> kstate \<Rightarrow> (kstate \<times> u32) option" where
  "alloc_entry env w p access s =
     do {
       t \<leftarrow> table_at s w;
       r \<leftarrow> alloc_slot env t p access;
       (case r of None \<Rightarrow> Some (set_error STATUS_INSUFFICIENT_RESOURCES s, 0)
        | Some (t, i) \<Rightarrow>
            do {
              s \<leftarrow> grab_object_for_handle env p s;
              Some (set_table w (Some t) s, index_to_handle i)
            })
     }"

definition alloc_handle_entry ::
  "kenv \<Rightarrow> nat \<Rightarrow> nat \<Rightarrow> u32 \<Rightarrow> u32 \<Rightarrow> kstate \<Rightarrow> (kstate \<times> u32) option" where
  "alloc_handle_entry env process p access attr s =
     (if access AND RESERVED_ALL \<noteq> 0 then None
      else
        (let access = (if attr AND 2 \<noteq> 0 then access OR RESERVED_INHERIT else access)
         in if table_at s (Proc process) = None
            then Some (set_error STATUS_PROCESS_IS_TERMINATING s, 0)
            else alloc_entry env (Proc process) p access s))"

definition alloc_handle_no_access_check ::
  "kenv \<Rightarrow> nat \<Rightarrow> nat \<Rightarrow> u32 \<Rightarrow> u32 \<Rightarrow> kstate \<Rightarrow> (kstate \<times> u32) option" where
  "alloc_handle_no_access_check env process p access attr s =
     do {
       ob \<leftarrow> obj_at s p;
       let access = (if access AND MAXIMUM_ALLOWED \<noteq> 0 then GENERIC_ALL else access);
       let access = map_obj_access env p ob access AND NOT RESERVED_ALL;
       alloc_handle_entry env process p access attr s
     }"

definition alloc_handle ::
  "kenv \<Rightarrow> nat \<Rightarrow> nat \<Rightarrow> u32 \<Rightarrow> u32 \<Rightarrow> kstate \<Rightarrow> (kstate \<times> u32) option" where
  "alloc_handle env process p access attr s =
     do {
       ob \<leftarrow> obj_at s p;
       let access = map_obj_access env p ob access AND NOT RESERVED_ALL;
       if access = 0 then Some (set_error STATUS_ACCESS_DENIED s, 0)
       else (case check_object_access env None p ob access s of
               (s, None) \<Rightarrow> Some (s, 0)
             | (s, Some access) \<Rightarrow> alloc_handle_entry env process p access attr s)
     }"

definition alloc_global_handle_no_access_check ::
  "kenv \<Rightarrow> nat \<Rightarrow> u32 \<Rightarrow> kstate \<Rightarrow> (kstate \<times> u32) option" where
  "alloc_global_handle_no_access_check env p access s =
     (let s = (if global_table s = None then s\<lparr>global_table := alloc_handle_table env 0\<rparr> else s)
      in if global_table s = None then Some (set_error STATUS_NO_MEMORY s, 0)
         else do {
           (s, h) \<leftarrow> alloc_entry env Global p access s;
           Some (s, handle_local_to_global h)
         })"

definition alloc_global_handle :: "kenv \<Rightarrow> nat \<Rightarrow> u32 \<Rightarrow> kstate \<Rightarrow> (kstate \<times> u32) option" where
  "alloc_global_handle env p access s =
     do {
       ob \<leftarrow> obj_at s p;
       if access \<noteq> 0 then
         (case check_object_access env None p ob access s of
            (s, None) \<Rightarrow> Some (s, 0)
          | (s, Some access) \<Rightarrow> alloc_global_handle_no_access_check env p access s)
       else alloc_global_handle_no_access_check env p access s
     }"


section \<open>Lookup\<close>

text \<open>
  \<open>get_handle\<close>: \<open>None\<close> when an entry outside the array or never written is read, \<open>Some None\<close> for
  \<open>NULL\<close>, otherwise the place of the entry and its contents.
\<close>

definition handle_table_of :: "nat \<Rightarrow> u32 \<Rightarrow> tbl" where
  "handle_table_of process handle = (if handle_is_global handle then Global else Proc process)"

definition get_handle :: "nat \<Rightarrow> u32 \<Rightarrow> kstate \<Rightarrow> (tbl \<times> nat \<times> nat \<times> u32) option option" where
  "get_handle process handle s =
     (let w = handle_table_of process handle;
          handle = (if handle_is_global handle then handle_global_to_local handle else handle)
      in case table_at s w of None \<Rightarrow> Some None
         | Some t \<Rightarrow>
             (let index = handle_to_index handle
              in if index < 0 then Some None
                 else if index > tlast t then Some None
                 else if nat index \<ge> tcount t then None
                 else case entries t ! nat index of None \<Rightarrow> None
                      | Some e \<Rightarrow> (case ptr e of None \<Rightarrow> Some None
                                 | Some p \<Rightarrow> Some (Some (w, nat index, p, hacc e)))))"

section \<open>Shrinking and inheritance\<close>

text \<open>\<open>while (table->last >= 0)\<close>: the number of entries up to the last used one.\<close>

fun last_used :: "handle_entry option list \<Rightarrow> nat \<Rightarrow> nat option" where
  "last_used es 0 = Some 0"
| "last_used es (Suc n) =
     (if n < length es then
        (case es ! n of None \<Rightarrow> None
         | Some e \<Rightarrow> if ptr e \<noteq> None then Some (Suc n) else last_used es n)
      else None)"

definition shrink_handle_table :: "kenv \<Rightarrow> handle_table \<Rightarrow> handle_table option" where
  "shrink_handle_table env t =
     do {
       n \<leftarrow> last_used (entries t) (nat (tlast t + 1));
       let t = t\<lparr>tlast := int n - 1\<rparr>;
       if tlast t \<ge> int (tcount t div 4) then Some t
       else if tcount t < MIN_HANDLE_ENTRIES * 2 then Some t
       else if \<not> e_mem env (tcount t div 2) then Some t
       else Some (t\<lparr>entries := take (tcount t div 2) (entries t)\<rparr>)
     }"

text \<open>The table being built for the child is not yet part of the state.\<close>

definition inherit_handle ::
  "kenv \<Rightarrow> nat \<Rightarrow> u32 \<Rightarrow> handle_table \<times> kstate \<Rightarrow> (handle_table \<times> kstate) option" where
  "inherit_handle env parent handle = (\<lambda>(t, s).
     do {
       src \<leftarrow> get_handle parent handle s;
       (case src of None \<Rightarrow> Some (t, s)
        | Some (w, i, p, access) \<Rightarrow>
            if access AND RESERVED_INHERIT = 0 then Some (t, s)
            else
              (let index = handle_to_index handle
               in if index < 0 \<or> index \<ge> int (tcount t) then None
                  else case entries t ! nat index of None \<Rightarrow> None
                    | Some e \<Rightarrow>
                        if ptr e \<noteq> None then Some (t, s)
                        else do {
                          s \<leftarrow> grab_object_for_handle env p s;
                          Some (set_entry (nat index) \<lparr>ptr = Some p, hacc = access\<rparr>
                                  (t\<lparr>tlast := max (tlast t) index\<rparr>), s)
                        }))
     })"

fun inherit_handles ::
  "kenv \<Rightarrow> nat \<Rightarrow> u32 list \<Rightarrow> handle_table \<times> kstate \<Rightarrow> (handle_table \<times> kstate) option" where
  "inherit_handles env parent [] ts = Some ts"
| "inherit_handles env parent (h # hs) ts =
     do {
       ts \<leftarrow> inherit_handle env parent h ts;
       inherit_handles env parent hs ts
     }"

text \<open>The loop over the copied entries in the second branch of \<open>copy_handle_table\<close>.\<close>

fun inherit_entries ::
  "kenv \<Rightarrow> handle_entry option list \<Rightarrow> kstate \<Rightarrow> (handle_entry option list \<times> kstate) option" where
  "inherit_entries env [] s = Some ([], s)"
| "inherit_entries env (e # es) s =
     (case e of None \<Rightarrow> None
      | Some e \<Rightarrow>
          (case ptr e of
             None \<Rightarrow> do {
               (es, s) \<leftarrow> inherit_entries env es s;
               Some (Some e # es, s)
             }
           | Some p \<Rightarrow>
               if hacc e AND RESERVED_INHERIT \<noteq> 0 then
                 do {
                   s \<leftarrow> grab_object_for_handle env p s;
                   (es, s) \<leftarrow> inherit_entries env es s;
                   Some (Some e # es, s)
                 }
               else
                 do {
                   (es, s) \<leftarrow> inherit_entries env es s;
                   Some (Some (e\<lparr>ptr := None\<rparr>) # es, s)
                 }))"

definition copy_handle_table ::
  "kenv \<Rightarrow> nat \<Rightarrow> u32 list option \<Rightarrow> u32 list \<Rightarrow> kstate \<Rightarrow> (handle_table option \<times> kstate) option" where
  "copy_handle_table env parent handles std_handles s =
     do {
       pt \<leftarrow> table_at s (Proc parent);
       (case alloc_handle_table env (tcount pt) of
          None \<Rightarrow> Some (None, set_error STATUS_NO_MEMORY s)
        | Some t \<Rightarrow>
            do {
              (t, s) \<leftarrow>
                (case handles of
                   Some handles \<Rightarrow>
                     do {
                       let t = t\<lparr>entries := replicate (tcount pt) (Some \<lparr>ptr = None, hacc = 0\<rparr>)
                                           @ drop (tcount pt) (entries t)\<rparr>;
                       ts \<leftarrow> inherit_handles env parent handles (t, s);
                       inherit_handles env parent std_handles ts
                     }
                 | None \<Rightarrow>
                     do {
                       let n = nat (tlast pt + 1);
                       (es, s) \<leftarrow> inherit_entries env (take n (entries pt)) s;
                       Some (t\<lparr>tlast := tlast pt, entries := es @ drop n (entries t)\<rparr>, s)
                     });
              t \<leftarrow> shrink_handle_table env t;
              Some (Some t, s)
            })
     }"

section \<open>Closing\<close>

text \<open>The entry \<open>i\<close> of a closed handle: the pointer is cleared, \<open>free\<close> lowered and the table shrunk.\<close>

definition clear_slot :: "kenv \<Rightarrow> nat \<Rightarrow> handle_table \<Rightarrow> handle_table option" where
  "clear_slot env i t =
     (let t = t\<lparr>entries := (entries t)[i := map_option (ptr_update (\<lambda>_. None)) (entries t ! i)]\<rparr>;
          t = (if i < tfree t then t\<lparr>tfree := i\<rparr> else t)
      in if int i = tlast t then shrink_handle_table env t else Some t)"

definition close_handle :: "kenv \<Rightarrow> nat \<Rightarrow> u32 \<Rightarrow> kstate \<Rightarrow> (kstate \<times> status) option" where
  "close_handle env process handle s =
     do {
       let index = handle_to_index handle;
       r \<leftarrow> get_handle process handle s;
       (case r of None \<Rightarrow> Some (s, STATUS_INVALID_HANDLE)
        | Some (w, i, p, access) \<Rightarrow>
            if access AND RESERVED_CLOSE_PROTECT \<noteq> 0 then Some (s, STATUS_HANDLE_NOT_CLOSABLE)
            else
              do {
                ob \<leftarrow> obj_at s p;
                if (case e_close env (ops ob) of None \<Rightarrow> False | Some f \<Rightarrow> \<not> f p process handle)
                then Some (s, STATUS_HANDLE_NOT_CLOSABLE)
                else
                  do {
                    t \<leftarrow> table_at s (handle_table_of process handle);
                    if index < 0 \<or> index \<ge> int (tcount t) then None
                    else
                      do {
                        t \<leftarrow> clear_slot env (nat index) t;
                        s \<leftarrow> release_object_from_handle env p
                              (set_table (handle_table_of process handle) (Some t) s);
                        Some (s, STATUS_SUCCESS)
                      }
                  }
              })
     }"

text \<open>
  \<open>close_process_handles\<close>, with \<open>handle_table_destroy\<close> of the table, whose only reference the
  process holds.  The table is unlinked from the process first; the entries not yet visited are
  the argument of \<open>destroy_entries\<close>.  The answer of \<open>ops->close_handle\<close> is ignored.
\<close>

fun destroy_entries :: "kenv \<Rightarrow> handle_entry option list \<Rightarrow> kstate \<Rightarrow> kstate option" where
  "destroy_entries env [] s = Some s"
| "destroy_entries env (e # es) s =
     (case e of None \<Rightarrow> None
      | Some e \<Rightarrow>
          (case ptr e of None \<Rightarrow> destroy_entries env es s
           | Some p \<Rightarrow> do {
               s \<leftarrow> release_object_from_handle env p s;
               destroy_entries env es s
             }))"

definition handle_table_destroy :: "kenv \<Rightarrow> handle_table \<Rightarrow> kstate \<Rightarrow> kstate option" where
  "handle_table_destroy env t s = destroy_entries env (take (nat (tlast t + 1)) (entries t)) s"

definition close_process_handles :: "kenv \<Rightarrow> nat \<Rightarrow> kstate \<Rightarrow> kstate option" where
  "close_process_handles env process s =
     (case table_at s (Proc process) of None \<Rightarrow> Some s
      | Some t \<Rightarrow> handle_table_destroy env t (set_table (Proc process) None s))"

section \<open>Queries on handles\<close>

definition get_magic_handle :: "kenv \<Rightarrow> u32 \<Rightarrow> nat option" where
  "get_magic_handle env handle =
     (if handle = 0xfffffffa then e_thread_impersonation env
      else if handle = 0xfffffffb then e_thread_token env
      else if handle = 0xfffffffc then e_token_of env (cur_proc env)
      else if handle = 0xfffffffe then Some (e_thread env)
      else if handle = 0x7fffffff \<or> handle = 0xffffffff then Some (e_process env)
      else None)"

definition get_handle_obj ::
  "kenv \<Rightarrow> nat \<Rightarrow> u32 \<Rightarrow> u32 \<Rightarrow> nat option \<Rightarrow> kstate \<Rightarrow> (kstate \<times> nat option) option" where
  "get_handle_obj env process handle access op s =
     (let mismatch = (\<lambda>ob. op \<noteq> None \<and> op \<noteq> Some (ops ob));
          fail = (\<lambda>st. Some (set_error st s, None));
          grab = (\<lambda>p. do { s \<leftarrow> grab_object p s; Some (s, Some p) })
      in case get_magic_handle env handle of
           None \<Rightarrow>
             do {
               r \<leftarrow> get_handle process handle s;
               (case r of None \<Rightarrow> fail STATUS_INVALID_HANDLE
                | Some (w, i, p, a) \<Rightarrow>
                    do {
                      ob \<leftarrow> obj_at s p;
                      if mismatch ob then fail STATUS_OBJECT_TYPE_MISMATCH
                      else if a AND access \<noteq> access then fail STATUS_ACCESS_DENIED
                      else grab p
                    })
             }
         | Some p \<Rightarrow>
             do {
               ob \<leftarrow> obj_at s p;
               if mismatch ob then fail STATUS_OBJECT_TYPE_MISMATCH else grab p
             })"

definition get_handle_access :: "kenv \<Rightarrow> nat \<Rightarrow> u32 \<Rightarrow> kstate \<Rightarrow> u32 option" where
  "get_handle_access env process handle s =
     (if get_magic_handle env handle \<noteq> None then Some (NOT RESERVED_ALL)
      else do {
        r \<leftarrow> get_handle process handle s;
        Some (case r of None \<Rightarrow> 0 | Some (w, i, p, access) \<Rightarrow> access AND NOT RESERVED_ALL)
      })"

text \<open>The loop of \<open>find_inherited_handle\<close> from entry \<open>i\<close>.\<close>

fun find_inherited :: "nat \<Rightarrow> nat \<Rightarrow> handle_entry option list \<Rightarrow> kstate \<Rightarrow> u32 option" where
  "find_inherited op i [] s = Some 0"
| "find_inherited op i (e # es) s =
     do {
       e \<leftarrow> e;
       (case ptr e of None \<Rightarrow> find_inherited op (i + 1) es s
        | Some p \<Rightarrow>
            do {
              ob \<leftarrow> obj_at s p;
              if ops ob \<noteq> op then find_inherited op (i + 1) es s
              else if hacc e AND RESERVED_INHERIT \<noteq> 0 then Some (index_to_handle i)
              else find_inherited op (i + 1) es s
            })
     }"

definition find_inherited_handle :: "nat \<Rightarrow> nat \<Rightarrow> kstate \<Rightarrow> u32 option" where
  "find_inherited_handle process op s =
     (case table_at s (Proc process) of None \<Rightarrow> Some 0
      | Some t \<Rightarrow> find_inherited op 0 (take (nat (tlast t + 1)) (entries t)) s)"

fun count_entries :: "nat \<Rightarrow> handle_entry option list \<Rightarrow> nat option" where
  "count_entries p [] = Some 0"
| "count_entries p (e # es) =
     do {
       e \<leftarrow> e;
       n \<leftarrow> count_entries p es;
       Some (if ptr e = Some p then n + 1 else n)
     }"

definition get_obj_handle_count :: "nat \<Rightarrow> nat \<Rightarrow> kstate \<Rightarrow> nat option" where
  "get_obj_handle_count process p s =
     (case table_at s (Proc process) of None \<Rightarrow> Some 0
      | Some t \<Rightarrow> count_entries p (take (nat (tlast t + 1)) (entries t)))"

definition get_handle_table_count :: "nat \<Rightarrow> kstate \<Rightarrow> nat" where
  "get_handle_table_count process s =
     (case table_at s (Proc process) of None \<Rightarrow> 0 | Some t \<Rightarrow> tcount t)"

section \<open>Flags and duplication\<close>

definition set_access :: "tbl \<Rightarrow> nat \<Rightarrow> nat \<Rightarrow> u32 \<Rightarrow> kstate \<Rightarrow> kstate" where
  "set_access w i p access s =
     set_table w (map_option (set_entry i \<lparr>ptr = Some p, hacc = access\<rparr>) (table_at s w)) s"

definition set_handle_flags ::
  "kenv \<Rightarrow> nat \<Rightarrow> u32 \<Rightarrow> u32 \<Rightarrow> u32 \<Rightarrow> kstate \<Rightarrow> (kstate \<times> int) option" where
  "set_handle_flags env process handle msk flags s =
     (if get_magic_handle env handle \<noteq> None then
        Some (if msk \<noteq> 0 then set_error STATUS_ACCESS_DENIED s else s, 0)
      else
        do {
          r \<leftarrow> get_handle process handle s;
          (case r of None \<Rightarrow> Some (set_error STATUS_INVALID_HANDLE s, -1)
           | Some (w, i, p, old_access) \<Rightarrow>
               (let mask = push_bit RESERVED_SHIFT msk AND RESERVED_ALL;
                    flags = push_bit RESERVED_SHIFT flags AND mask
                in Some (set_access w i p ((old_access AND NOT mask) OR flags) s,
                         uint (drop_bit RESERVED_SHIFT (old_access AND RESERVED_ALL)))))
        })"

abbreviation DUPLICATE_CLOSE_SOURCE :: u32 where "DUPLICATE_CLOSE_SOURCE \<equiv> 1"
abbreviation DUPLICATE_SAME_ACCESS :: u32 where "DUPLICATE_SAME_ACCESS \<equiv> 2"
abbreviation DUPLICATE_SAME_ATTRIBUTES :: u32 where "DUPLICATE_SAME_ATTRIBUTES \<equiv> 4"
abbreviation DUPLICATE_MAKE_GLOBAL :: u32 where "DUPLICATE_MAKE_GLOBAL \<equiv> 0x80000000"
abbreviation OBJ_INHERIT :: u32 where "OBJ_INHERIT \<equiv> 2"
abbreviation OBJ_PROTECT_CLOSE :: u32 where "OBJ_PROTECT_CLOSE \<equiv> 1"
abbreviation DELETE :: u32 where "DELETE \<equiv> 0x00010000"
abbreviation PROCESS_DUP_HANDLE :: u32 where "PROCESS_DUP_HANDLE \<equiv> 0x40"

text \<open>
  The two accesses checks of \<open>duplicate_handle\<close> when more rights are asked for; \<open>dst\<close> is \<open>NULL\<close> for
  a global handle, and reading \<open>dst->token\<close> is then a fault.
\<close>

definition dup_check ::
  "kenv \<Rightarrow> nat option \<Rightarrow> nat \<Rightarrow> u32 \<Rightarrow> kstate \<Rightarrow> (kstate \<times> u32 option) option" where
  "dup_check env dst p access s =
     do {
       ob \<leftarrow> obj_at s p;
       (case (if e_thread_token env = None then (s, Some access)
              else check_object_access env (e_thread_token env) p ob access s) of
          (s, None) \<Rightarrow> Some (s, None)
        | (s, Some access) \<Rightarrow>
            (case dst of None \<Rightarrow> None
             | Some d \<Rightarrow> Some (check_object_access env (e_token_of env d) p ob access s)))
     }"

text \<open>The part of \<open>duplicate_handle\<close> that allocates the new handle.\<close>

definition dup_alloc ::
  "kenv \<Rightarrow> nat \<Rightarrow> u32 \<Rightarrow> nat option \<Rightarrow> nat \<Rightarrow> (tbl \<times> nat \<times> nat \<times> u32) option \<Rightarrow> u32 \<Rightarrow> u32 \<Rightarrow> u32 \<Rightarrow> u32 \<Rightarrow>
   kstate \<Rightarrow> (kstate \<times> u32) option" where
  "dup_alloc env src src_handle dst p entry src_access access attr options s =
     (if access AND NOT src_access \<noteq> 0 then
        do {
          (s, a) \<leftarrow> dup_check env dst p access s;
          (case a of None \<Rightarrow> Some (s, 0)
           | Some access \<Rightarrow>
               if options AND DUPLICATE_MAKE_GLOBAL \<noteq> 0 then alloc_global_handle env p access s
               else do {
                 d \<leftarrow> dst;
                 alloc_handle_no_access_check env d p access attr s
               })
        }
      else if options AND DUPLICATE_MAKE_GLOBAL \<noteq> 0 then
        alloc_global_handle_no_access_check env p access s
      else
        (case entry of
           Some (w, i, q, a) \<Rightarrow>
             if options AND DUPLICATE_CLOSE_SOURCE \<noteq> 0 \<and> dst = Some src \<and> a AND RESERVED_CLOSE_PROTECT = 0
             then (let access = (if attr AND OBJ_INHERIT \<noteq> 0 then access OR RESERVED_INHERIT else access)
                   in Some (set_access w i q access s, src_handle))
             else do { d \<leftarrow> dst; alloc_handle_entry env d p access attr s }
         | None \<Rightarrow> do { d \<leftarrow> dst; alloc_handle_entry env d p access attr s }))"

definition duplicate_handle ::
  "kenv \<Rightarrow> nat \<Rightarrow> u32 \<Rightarrow> nat option \<Rightarrow> u32 \<Rightarrow> u32 \<Rightarrow> u32 \<Rightarrow> kstate \<Rightarrow> (kstate \<times> u32) option" where
  "duplicate_handle env src src_handle dst access attr options s =
     do {
       (s, obj) \<leftarrow> get_handle_obj env src src_handle 0 None s;
       (case obj of None \<Rightarrow> Some (s, 0)
        | Some p \<Rightarrow>
            do {
              ob \<leftarrow> obj_at s p;
              entry \<leftarrow> get_handle src src_handle s;
              let src_access = (case entry of Some (w, i, q, a) \<Rightarrow> a
                                | None \<Rightarrow> map_obj_access env p ob GENERIC_ALL);
              let src_flags = drop_bit RESERVED_SHIFT (src_access AND RESERVED_ALL);
              let src_access = src_access AND NOT RESERVED_ALL;
              let access = (if options AND DUPLICATE_SAME_ACCESS \<noteq> 0 then src_access
                            else map_obj_access env p ob access AND NOT RESERVED_ALL);
              (s, res) \<leftarrow> dup_alloc env src src_handle dst p entry src_access access attr options s;
              s \<leftarrow> (if res \<noteq> 0 \<and> options AND DUPLICATE_SAME_ATTRIBUTES \<noteq> 0
                    then do {
                      d \<leftarrow> dst;
                      (s, old) \<leftarrow> set_handle_flags env d res (NOT 0) src_flags s;
                      Some s
                    }
                    else Some s);
              s \<leftarrow> release_object env p s;
              Some (s, res)
            })
     }"

section \<open>Requests\<close>

text \<open>\<open>get_process_from_handle\<close> of \<open>server/process.c\<close>: the process object.\<close>

definition get_process_from_handle :: "kenv \<Rightarrow> u32 \<Rightarrow> u32 \<Rightarrow> kstate \<Rightarrow> (kstate \<times> nat option) option" where
  "get_process_from_handle env handle access s =
     get_handle_obj env (cur_proc env) handle access (Some (e_process_ops env)) s"

definition req_close_handle :: "kenv \<Rightarrow> u32 \<Rightarrow> kstate \<Rightarrow> kstate option" where
  "req_close_handle env handle s =
     do {
       (s, st) \<leftarrow> close_handle env (cur_proc env) handle s;
       Some (set_error st s)
     }"

definition req_set_handle_info ::
  "kenv \<Rightarrow> u32 \<Rightarrow> u32 \<Rightarrow> u32 \<Rightarrow> kstate \<Rightarrow> (kstate \<times> int) option" where
  "req_set_handle_info env handle msk flags s =
     set_handle_flags env (cur_proc env) handle msk flags s"

definition req_dup_handle ::
  "kenv \<Rightarrow> u32 \<Rightarrow> u32 \<Rightarrow> u32 \<Rightarrow> u32 \<Rightarrow> u32 \<Rightarrow> u32 \<Rightarrow> kstate \<Rightarrow> (kstate \<times> u32) option" where
  "req_dup_handle env src_process src_handle dst_process access attributes options s =
     do {
       (s, src) \<leftarrow> get_process_from_handle env src_process PROCESS_DUP_HANDLE s;
       (case src of None \<Rightarrow> Some (s, 0)
        | Some src \<Rightarrow>
            do {
              (s, dst, handle) \<leftarrow>
                (if options AND DUPLICATE_MAKE_GLOBAL \<noteq> 0 then
                   do {
                     (s, h) \<leftarrow> duplicate_handle env (e_proc env src) src_handle None access attributes options s;
                     Some (s, None, h)
                   }
                 else
                   do {
                     (s, dst) \<leftarrow> get_process_from_handle env dst_process PROCESS_DUP_HANDLE s;
                     (case dst of None \<Rightarrow> Some (s, None, 0)
                      | Some d \<Rightarrow>
                          do {
                            (s, h) \<leftarrow> duplicate_handle env (e_proc env src) src_handle
                                       (Some (e_proc env d)) access attributes options s;
                            s \<leftarrow> release_object env d s;
                            Some (s, Some d, h)
                          })
                   });
              s \<leftarrow> (if options AND DUPLICATE_CLOSE_SOURCE \<noteq> 0 \<and> (dst \<noteq> Some src \<or> src_handle \<noteq> handle)
                    then do { (s, st) \<leftarrow> close_handle env (e_proc env src) src_handle s; Some s }
                    else Some s);
              s \<leftarrow> release_object env src s;
              Some (s, handle)
            })
     }"

text \<open>The reply is the access rights, the reference count and the handle count.\<close>

definition req_get_object_info ::
  "kenv \<Rightarrow> u32 \<Rightarrow> kstate \<Rightarrow> (kstate \<times> (u32 \<times> nat \<times> nat) option) option" where
  "req_get_object_info env handle s =
     do {
       (s, obj) \<leftarrow> get_handle_obj env (cur_proc env) handle 0 None s;
       (case obj of None \<Rightarrow> Some (s, None)
        | Some p \<Rightarrow>
            do {
              access \<leftarrow> get_handle_access env (cur_proc env) handle s;
              ob \<leftarrow> obj_at s p;
              s \<leftarrow> release_object env p s;
              Some (s, Some (access, refcount ob, handle_count ob))
            })
     }"


definition req_set_object_permanence :: "kenv \<Rightarrow> u32 \<Rightarrow> bool \<Rightarrow> kstate \<Rightarrow> kstate option" where
  "req_set_object_permanence env handle permanent s =
     do {
       (s, obj) \<leftarrow> get_handle_obj env (cur_proc env) handle (if permanent then 0 else DELETE) None s;
       (case obj of None \<Rightarrow> Some s
        | Some p \<Rightarrow>
            do {
              ob \<leftarrow> obj_at s p;
              s \<leftarrow> (if permanent \<and> \<not> is_permanent ob then
                      do { s \<leftarrow> grab_object p s; make_object_permanent p s }
                    else if \<not> permanent \<and> is_permanent ob then
                      do { s \<leftarrow> make_object_temporary p s; release_object env p s }
                    else Some s);
              release_object env p s
            })
     }"

definition req_compare_objects :: "kenv \<Rightarrow> u32 \<Rightarrow> u32 \<Rightarrow> kstate \<Rightarrow> kstate option" where
  "req_compare_objects env first second s =
     do {
       (s, obj1) \<leftarrow> get_handle_obj env (cur_proc env) first 0 None s;
       (case obj1 of None \<Rightarrow> Some s
        | Some obj1 \<Rightarrow>
            do {
              (s, obj2) \<leftarrow> get_handle_obj env (cur_proc env) second 0 None s;
              (case obj2 of None \<Rightarrow> release_object env obj1 s
               | Some obj2 \<Rightarrow>
                   do {
                     let s = (if obj1 \<noteq> obj2 then set_error STATUS_NOT_SAME_OBJECT s else s);
                     s \<leftarrow> release_object env obj2 s;
                     release_object env obj1 s
                   })
            })
     }"

section \<open>Enumeration\<close>

record handle_info =
  hi_owner :: u32
  hi_handle :: u32
  hi_access :: u32
  hi_attributes :: u32
  hi_type :: nat

text \<open>
  \<open>info->handle\<close> is \<open>None\<close> while the handles are counted, then the list of what was written; \<open>count\<close>
  counts up in the first pass and down in the second.  \<open>pid\<close> is \<open>process->id\<close>, and the type is
  given by its number.
\<close>

definition entry_info :: "kenv \<Rightarrow> u32 \<Rightarrow> nat \<Rightarrow> handle_entry \<Rightarrow> kobject \<Rightarrow> handle_info" where
  "entry_info env pid i e ob =
     \<lparr>hi_owner = pid, hi_handle = index_to_handle i, hi_access = hacc e AND NOT RESERVED_ALL,
      hi_attributes = (let a = 0;
                           a = (if hacc e AND RESERVED_INHERIT \<noteq> 0 then a OR OBJ_INHERIT else a);
                           a = (if hacc e AND RESERVED_CLOSE_PROTECT \<noteq> 0 then a OR OBJ_PROTECT_CLOSE else a)
                       in a),
      hi_type = e_type env (ops ob)\<rparr>"

fun enum_loop ::
  "kenv \<Rightarrow> kstate \<Rightarrow> u32 \<Rightarrow> nat \<Rightarrow> handle_entry option list \<Rightarrow> nat \<times> handle_info list option \<Rightarrow>
   (nat \<times> handle_info list option) option" where
  "enum_loop env s pid i [] info = Some info"
| "enum_loop env s pid i (e # es) info =
     do {
       e \<leftarrow> e;
       (case ptr e of None \<Rightarrow> enum_loop env s pid (i + 1) es info
        | Some p \<Rightarrow>
            (case info of
               (count, None) \<Rightarrow> enum_loop env s pid (i + 1) es (count + 1, None)
             | (count, Some out) \<Rightarrow>
                 if count = 0 then None
                 else do {
                   ob \<leftarrow> obj_at s p;
                   enum_loop env s pid (i + 1) es (count - 1, Some (out @ [entry_info env pid i e ob]))
                 }))
     }"

definition enum_handles ::
  "kenv \<Rightarrow> kstate \<Rightarrow> u32 \<Rightarrow> handle_table option \<Rightarrow> nat \<times> handle_info list option \<Rightarrow>
   (nat \<times> handle_info list option) option" where
  "enum_handles env s pid table info =
     (case table of None \<Rightarrow> Some info
      | Some t \<Rightarrow> enum_loop env s pid 0 (take (nat (tlast t + 1)) (entries t)) info)"

text \<open>\<open>enum_processes\<close>: the process list, here the list of process ids and tables.\<close>

fun enum_all ::
  "kenv \<Rightarrow> kstate \<Rightarrow> (u32 \<times> handle_table option) list \<Rightarrow> nat \<times> handle_info list option \<Rightarrow>
   (nat \<times> handle_info list option) option" where
  "enum_all env s [] info = Some info"
| "enum_all env s ((pid, t) # ps) info =
     do {
       info \<leftarrow> enum_handles env s pid t info;
       enum_all env s ps info
     }"

text \<open>
  The reply is the count and, if it fits in \<open>max_handles\<close> entries, the data; \<open>set_reply_data_size\<close>
  fails when memory is short.
\<close>

definition req_get_system_handles ::
  "kenv \<Rightarrow> (nat \<Rightarrow> u32) \<Rightarrow> nat \<Rightarrow> kstate \<Rightarrow> (kstate \<times> nat \<times> handle_info list option) option" where
  "req_get_system_handles env pids max_handles s =
     do {
       let ps = zip (map pids [0..<length (procs s)]) (procs s);
       (count, h) \<leftarrow> enum_all env s ps (0, None);
       if max_handles < count then Some (set_error STATUS_BUFFER_TOO_SMALL s, count, None)
       else if \<not> e_mem env count then Some (set_error STATUS_NO_MEMORY s, count, None)
       else do {
         (rest, out) \<leftarrow> enum_all env s ps (count, Some []);
         Some (s, count, out)
       }
     }"

end
