(* ===== verification/Handle_Tables.thy ===== *)
theory Handle_Tables
  imports Handles
begin

text \<open>
  A handle table seen as a finite map from indices to entries: the representation invariant of
  \<open>struct handle_table\<close>, and what allocation, closing, shrinking and inheritance do to the map.
\<close>

section \<open>Handle values\<close>

lemma uint_index_to_handle: "i < MAX_HANDLE_ENTRIES \<Longrightarrow> uint (index_to_handle i) = int (i + 1) * 4"
  by (simp add: index_to_handle_def MAX_HANDLE_ENTRIES_def push_bit_eq_mult unsigned_of_nat
      take_bit_nat_eq_self uint_mult_lem uint_word_ariths take_bit_eq_mod mod_simps)

lemma handle_index [simp]: "i < MAX_HANDLE_ENTRIES \<Longrightarrow> handle_to_index (index_to_handle i) = int i"
  unfolding handle_to_index_def unsigned_drop_bit_eq
  by (simp add: uint_index_to_handle drop_bit_eq_div take_bit_int_eq_self MAX_HANDLE_ENTRIES_def)

text \<open>A handle made from an index is not 0, is not global, and its global form is.\<close>

lemma index_to_handle_le:
  "i < MAX_HANDLE_ENTRIES \<Longrightarrow> index_to_handle i \<le> push_bit 2 (word_of_nat MAX_HANDLE_ENTRIES)"
  by (simp add: word_le_def uint_index_to_handle) (simp add: MAX_HANDLE_ENTRIES_def)

lemma index_to_handle_neq_0 [simp]: "i < MAX_HANDLE_ENTRIES \<Longrightarrow> index_to_handle i \<noteq> 0"
proof
  assume "i < MAX_HANDLE_ENTRIES" "index_to_handle i = 0"
  then show False using uint_index_to_handle [of i] by simp
qed

lemma obfuscated_high:
  assumes "h \<le> push_bit 2 (word_of_nat MAX_HANDLE_ENTRIES)"
  shows "drop_bit 26 (h XOR HANDLE_OBFUSCATOR) = 21"
proof -
  have "drop_bit 26 h = 0"
  proof (rule word_uint_eqI)
    have "uint h \<le> 0x3fffffc"
      using assms by (simp add: word_le_def MAX_HANDLE_ENTRIES_def)
    then have "uint h div 2 ^ 26 = 0" by simp
    then show "uint (drop_bit 26 h) = uint (0::u32)"
      unfolding unsigned_drop_bit_eq by (simp add: drop_bit_eq_div take_bit_int_eq_self)
  qed
  then show ?thesis
    by (simp add: drop_bit_xor HANDLE_OBFUSCATOR_def)
qed

lemma local_not_global [simp]: "i < MAX_HANDLE_ENTRIES \<Longrightarrow> \<not> handle_is_global (index_to_handle i)"
proof
  assume i: "i < MAX_HANDLE_ENTRIES" and g: "handle_is_global (index_to_handle i)"
  have "drop_bit 26 (index_to_handle i) = 21"
    using obfuscated_high [OF g [unfolded handle_is_global_def]] by (simp add: xor.assoc)
  moreover have "drop_bit 26 (index_to_handle i XOR HANDLE_OBFUSCATOR) = 21"
    by (rule obfuscated_high) (rule index_to_handle_le [OF i])
  ultimately show False by (simp add: drop_bit_xor HANDLE_OBFUSCATOR_def)
qed

lemma global_is_global [simp]:
  "i < MAX_HANDLE_ENTRIES \<Longrightarrow> handle_is_global (handle_local_to_global (index_to_handle i))"
  by (simp add: handle_is_global_def handle_local_to_global_def xor.assoc index_to_handle_le)

lemma global_to_local [simp]:
  "h \<noteq> 0 \<Longrightarrow> handle_global_to_local (handle_local_to_global h) = h"
  by (simp add: handle_global_to_local_def handle_local_to_global_def xor.assoc)

section \<open>The map of a table\<close>

definition slot :: "handle_table \<Rightarrow> nat \<Rightarrow> (nat \<times> u32) option" where
  "slot t i =
     (if i < tcount t then
        (case entries t ! i of None \<Rightarrow> None
         | Some e \<Rightarrow> map_option (\<lambda>p. (p, hacc e)) (ptr e))
      else None)"

definition wf_bounds :: "handle_table \<Rightarrow> bool" where
  "wf_bounds t \<longleftrightarrow>
     MIN_HANDLE_ENTRIES \<le> tcount t \<and> tcount t \<le> MAX_HANDLE_ENTRIES \<and>
     - 1 \<le> tlast t \<and> tlast t < int (tcount t) \<and>
     (\<forall>i. int i \<le> tlast t \<longrightarrow> entries t ! i \<noteq> None) \<and>
     (\<forall>i. int i > tlast t \<longrightarrow> slot t i = None) \<and>
     (\<forall>i<tfree t. slot t i \<noteq> None)"

definition wf_table :: "handle_table \<Rightarrow> bool" where
  "wf_table t \<longleftrightarrow> wf_bounds t \<and> (tlast t = -1 \<or> slot t (nat (tlast t)) \<noteq> None)"

lemma wf_bounds_free: "wf_bounds t \<Longrightarrow> int (tfree t) \<le> tlast t + 1"
proof (rule ccontr)
  assume w: "wf_bounds t" and f: "\<not> int (tfree t) \<le> tlast t + 1"
  have "nat (tlast t + 1) < tfree t" using f w unfolding wf_bounds_def by linarith
  moreover have "int (nat (tlast t + 1)) > tlast t" by simp
  ultimately show False using w unfolding wf_bounds_def by blast
qed

lemma wf_boundsD:
  assumes "wf_bounds t"
  shows "MIN_HANDLE_ENTRIES \<le> tcount t" "tcount t \<le> MAX_HANDLE_ENTRIES" "- 1 \<le> tlast t"
    "tlast t < int (tcount t)" "int i \<le> tlast t \<Longrightarrow> entries t ! i \<noteq> None"
    "tlast t < int j \<Longrightarrow> slot t j = None" "k < tfree t \<Longrightarrow> slot t k \<noteq> None"
  using assms unfolding wf_bounds_def by blast+

lemma wf_tableD:
  assumes "wf_table t"
  shows "wf_bounds t" "tlast t \<noteq> -1 \<Longrightarrow> slot t (nat (tlast t)) \<noteq> None"
  using assms unfolding wf_table_def by auto

lemma slot_read:
  assumes "wf_bounds t" "int i \<le> tlast t"
  obtains e where "entries t ! i = Some e" "i < tcount t" "slot t i = map_option (\<lambda>p. (p, hacc e)) (ptr e)"
proof -
  obtain e where e: "entries t ! i = Some e"
    using wf_boundsD(5) [OF assms(1,2)] by auto
  moreover have "i < tcount t" using assms(2) wf_boundsD(4) [OF assms(1)] by linarith
  ultimately show thesis using that by (simp add: slot_def)
qed

lemma slot_bound: "wf_bounds t \<Longrightarrow> slot t i \<noteq> None \<Longrightarrow> int i \<le> tlast t \<and> i < tcount t \<and> i < MAX_HANDLE_ENTRIES"
  using wf_boundsD(2) [of t] wf_boundsD(6) [of t i] by (force simp: slot_def split: if_splits)

section \<open>Allocation\<close>

lemma find_free_spec:
  assumes "wf_bounds t" "int i \<le> tlast t + 1" "\<forall>j<i. slot t j \<noteq> None"
  shows "\<exists>k. find_free (entries t) (tlast t) i = Some k \<and> int k \<le> tlast t + 1 \<and> slot t k = None \<and>
             (\<forall>j<k. slot t j \<noteq> None)"
  using assms(2,3)
proof (induction "nat (tlast t + 1 - int i)" arbitrary: i)
  case 0
  then have "find_free (entries t) (tlast t) i = Some i" "slot t i = None"
    using wf_boundsD(6) [OF assms(1)] by (simp_all add: find_free.simps)
  then show ?case using 0 by auto
next
  case (Suc n)
  then have i: "int i \<le> tlast t" by linarith
  obtain e where e: "entries t ! i = Some e" "i < tcount t" "slot t i = map_option (\<lambda>p. (p, hacc e)) (ptr e)"
    using slot_read [OF assms(1) i] .
  show ?case
  proof (cases "ptr e")
    case None
    then show ?thesis using e i Suc.prems by (subst find_free.simps) auto
  next
    case (Some p)
    then have "\<forall>j<i + 1. slot t j \<noteq> None" using e(3) Suc.prems by (auto simp: less_Suc_eq)
    then show ?thesis
      using Suc.hyps(1) [of "i + 1"] Suc.hyps(2) e i Some by (subst find_free.simps) simp
  qed
qed

lemma slot_set_entry:
  "i < tcount t \<Longrightarrow> slot (set_entry i e t) = (slot t)(i := map_option (\<lambda>p. (p, hacc e)) (ptr e))"
  by (auto simp: slot_def set_entry_def fun_eq_iff nth_list_update)

lemma slot_fields [simp]:
  "slot (t\<lparr>tlast := l\<rparr>) = slot t" "slot (t\<lparr>tfree := f\<rparr>) = slot t"
  by (simp_all add: slot_def fun_eq_iff)

lemma tcount_set_entry [simp]: "tcount (set_entry i e t) = tcount t"
  by (simp add: set_entry_def)

lemma set_entry_fields [simp]: "tlast (set_entry i e t) = tlast t" "tfree (set_entry i e t) = tfree t"
  by (simp_all add: set_entry_def)

lemma slot_more: "slot (t\<lparr>entries := entries t @ replicate n None\<rparr>) = slot t"
  by (auto simp: slot_def fun_eq_iff nth_append)

text \<open>Filling the first free entry, which is at most one past the last used one.\<close>

lemma wf_fill:
  assumes "wf_bounds t" "i < tcount t" "int i \<le> tlast t + 1" "\<forall>j<i. slot t j \<noteq> None"
    and last_used: "int i \<le> tlast t \<Longrightarrow> slot t (nat (tlast t)) \<noteq> None \<or> int i = tlast t"
  shows "wf_table (set_entry i \<lparr>ptr = Some p, hacc = a\<rparr> (t\<lparr>tlast := max (tlast t) (int i), tfree := i + 1\<rparr>))"
proof -
  let ?t = "set_entry i \<lparr>ptr = Some p, hacc = a\<rparr> (t\<lparr>tlast := max (tlast t) (int i), tfree := i + 1\<rparr>)"
  have s: "slot ?t = (slot t)(i \<mapsto> (p, a))" using assms(2) by (simp add: slot_set_entry)
  have "wf_bounds ?t"
    unfolding wf_bounds_def s
    using assms(2-4) wf_boundsD [OF assms(1)]
    by (auto simp: set_entry_def nth_list_update less_Suc_eq)
  moreover have "slot ?t (nat (tlast ?t)) \<noteq> None"
    unfolding s using assms(3) last_used by (auto simp: max_def)
  ultimately show ?thesis by (simp add: wf_table_def)
qed


lemma grow_spec:
  assumes "wf_bounds t" "grow_handle_table env t = Some t'"
  shows "wf_bounds t'" "slot t' = slot t" "tlast t' = tlast t" "tfree t' = tfree t" "tcount t < tcount t'"
proof -
  let ?n = "min (tcount t * 2) MAX_HANDLE_ENTRIES - tcount t"
  have t': "t' = t\<lparr>entries := entries t @ replicate ?n None\<rparr>" and n: "0 < ?n"
    using assms wf_boundsD(1,2) [OF assms(1)]
    by (auto simp: grow_handle_table_def Let_def MIN_HANDLE_ENTRIES_def split: if_splits)
  show s: "slot t' = slot t" by (simp add: t' slot_more)
  show "tlast t' = tlast t" "tfree t' = tfree t" "tcount t < tcount t'" using n by (simp_all add: t')
  show "wf_bounds t'"
    using assms(1) wf_boundsD(1-4) [OF assms(1)] unfolding wf_bounds_def s by (auto simp: t' nth_append)
qed

text \<open>\<open>alloc_slot\<close> fills the lowest free index, or the table is full and cannot grow.\<close>

lemma alloc_slot_spec:
  assumes w: "wf_table t"
  shows "(alloc_slot env t p a = Some None \<and> (\<forall>j<tcount t. slot t j \<noteq> None) \<and> grow_handle_table env t = None) \<or>
         (\<exists>t' i. alloc_slot env t p a = Some (Some (t', i)) \<and> wf_table t' \<and> slot t i = None \<and>
                 (\<forall>j<i. slot t j \<noteq> None) \<and> slot t' = (slot t)(i \<mapsto> (p, a)) \<and> i < MAX_HANDLE_ENTRIES)"
proof -
  have b: "wf_bounds t" using wf_tableD(1) [OF w] .
  obtain i where i: "find_free (entries t) (tlast t) (tfree t) = Some i" "int i \<le> tlast t + 1"
      "slot t i = None" "\<forall>j<i. slot t j \<noteq> None"
    using find_free_spec [OF b wf_bounds_free [OF b]] wf_boundsD(7) [OF b] by blast
  have last: "int i \<le> tlast t \<Longrightarrow> slot t (nat (tlast t)) \<noteq> None \<or> int i = tlast t"
    using wf_tableD(2) [OF w] by fastforce
  have filled: ?thesis if "alloc_slot env t p a =
      Some (Some (set_entry i \<lparr>ptr = Some p, hacc = a\<rparr> (t2\<lparr>tlast := max (tlast t2) (int i), tfree := i + 1\<rparr>), i))"
      "wf_bounds t2" "slot t2 = slot t" "tlast t2 = tlast t" "i < tcount t2" for t2
    using that i last wf_fill [OF that(2,5)] wf_boundsD(2) [OF that(2)] by (auto simp: slot_set_entry)
  show ?thesis
  proof (cases "int i \<le> tlast t \<or> i < tcount t")
    case True
    then have "i < tcount t" using wf_boundsD(4) [OF b] by linarith
    then show ?thesis
      using i b by (intro filled [of t]) (cases t, auto simp: alloc_slot_def Let_def max_def set_entry_def)+
  next
    case False
    show ?thesis
    proof (cases "grow_handle_table env t")
      case None
      then show ?thesis using i False by (auto simp: alloc_slot_def)
    next
      case (Some t2)
      have "i < tcount t2"
        using grow_spec(5) [OF b Some] i(2) wf_boundsD(4) [OF b] False by linarith
      then show ?thesis
        using grow_spec [OF b Some] i False Some
        by (intro filled [of t2]) (auto simp: alloc_slot_def Let_def max_def)
    qed
  qed
qed


section \<open>Shrinking and closing\<close>

lemma last_used_spec:
  assumes "n \<le> length es" "\<forall>i<n. es ! i \<noteq> None"
  shows "\<exists>k\<le>n. last_used es n = Some k \<and> (\<forall>i. k \<le> i \<and> i < n \<longrightarrow> ptr (the (es ! i)) = None) \<and>
             (k = 0 \<or> ptr (the (es ! (k - 1))) \<noteq> None)"
  using assms
proof (induction n)
  case (Suc n)
  then obtain e where e: "es ! n = Some e" by auto
  show ?case
  proof (cases "ptr e")
    case None
    then show ?thesis using Suc e by (fastforce simp: less_Suc_eq)
  next
    case (Some p)
    then show ?thesis using Suc.prems e by (intro exI [of _ "Suc n"]) auto
  qed
qed simp

lemma slot_take: "(\<forall>i\<ge>n. slot t i = None) \<Longrightarrow> slot (t\<lparr>entries := take n (entries t)\<rparr>) = slot t"
proof
  fix i assume "\<forall>i\<ge>n. slot t i = None"
  then show "slot (t\<lparr>entries := take n (entries t)\<rparr>) i = slot t i"
    by (cases "i < n") (simp_all add: slot_def)
qed

lemma shrink_spec:
  assumes b: "wf_bounds t"
  shows "\<exists>t'. shrink_handle_table env t = Some t' \<and> wf_table t' \<and> slot t' = slot t"
proof -
  let ?n = "nat (tlast t + 1)"
  have n: "?n \<le> tcount t" and en: "\<forall>i<?n. entries t ! i \<noteq> None"
    using wf_boundsD(4,5) [OF b] by (auto simp: nat_less_iff)
  obtain k where k: "k \<le> ?n" "last_used (entries t) ?n = Some k"
      "\<And>i. k \<le> i \<Longrightarrow> i < ?n \<Longrightarrow> ptr (the (entries t ! i)) = None"
      "k = 0 \<or> ptr (the (entries t ! (k - 1))) \<noteq> None"
    using last_used_spec [OF n en] by blast
  have none: "slot t i = None" if "k \<le> i" for i
  proof (cases "i < ?n")
    case True
    then show ?thesis using k(3) [OF that True] en by (auto simp: slot_def)
  next
    case False
    then show ?thesis by (intro wf_boundsD(6) [OF b]) linarith
  qed
  have lst: "k = 0 \<or> slot t (k - 1) \<noteq> None"
  proof (cases k)
    case (Suc j)
    then have "j < ?n" using k(1) by simp
    then have "\<exists>e. entries t ! j = Some e" "j < tcount t" using en n by auto
    then show ?thesis using k(4) Suc by (auto simp: slot_def)
  qed simp
  let ?t = "t\<lparr>tlast := int k - 1\<rparr>"
  have w: "wf_table (t\<lparr>tlast := int k - 1, entries := take m (entries t)\<rparr>)"
      "slot (t\<lparr>tlast := int k - 1, entries := take m (entries t)\<rparr>) = slot t"
    if m: "k \<le> m" "m \<le> tcount t" "MIN_HANDLE_ENTRIES \<le> m" for m
  proof -
    let ?u = "t\<lparr>tlast := int k - 1, entries := take m (entries t)\<rparr>"
    have "slot ?u = slot (t\<lparr>entries := take m (entries t)\<rparr>)" by (simp add: slot_def fun_eq_iff)
    then show s: "slot ?u = slot t" using slot_take [of m t] none m(1) by simp
    have "wf_bounds ?u"
      using wf_boundsD [OF b] none m k(1) unfolding wf_bounds_def s by auto
    then show "wf_table ?u" using lst unfolding wf_table_def s by (cases k) auto
  qed
  have same: "wf_table ?t \<and> slot ?t = slot t"
    using w [of "tcount t"] k(1) n wf_boundsD(1) [OF b] by simp
  show ?thesis
  proof (cases "int k - 1 \<ge> int (tcount t div 4) \<or> tcount t < MIN_HANDLE_ENTRIES * 2 \<or> \<not> e_mem env (tcount t div 2)")
    case True
    then show ?thesis using k(2) same by (auto simp: shrink_handle_table_def Let_def)
  next
    case False
    then have "k \<le> tcount t div 2" "MIN_HANDLE_ENTRIES \<le> tcount t div 2" by linarith+
    then show ?thesis
      using False w [of "tcount t div 2"] k(2) by (auto simp: shrink_handle_table_def Let_def)
  qed
qed


lemma clear_slot_spec:
  assumes w: "wf_table t" and i: "slot t i \<noteq> None"
  shows "\<exists>t'. clear_slot env i t = Some t' \<and> wf_table t' \<and> slot t' = (slot t)(i := None)"
proof -
  have b: "wf_bounds t" using wf_tableD(1) [OF w] .
  note il = slot_bound [OF b i]
  let ?t1 = "t\<lparr>entries := (entries t)[i := map_option (ptr_update (\<lambda>_. None)) (entries t ! i)]\<rparr>"
  let ?t = "if i < tfree t then ?t1\<lparr>tfree := i\<rparr> else ?t1"
  have s1: "slot ?t1 = (slot t)(i := None)"
    by (auto simp: slot_def fun_eq_iff nth_list_update split: option.splits)
  then have s: "slot ?t = (slot t)(i := None)" by simp
  have en: "entries ?t1 ! j \<noteq> None" if "int j \<le> tlast t" for j
    using wf_boundsD(5) [OF b that] il by (auto simp: nth_list_update)
  have "wf_bounds ?t"
    using wf_boundsD(1-4,6,7) [OF b] en unfolding wf_bounds_def s by (auto split: if_splits)
  moreover have "slot ?t (nat (tlast t)) \<noteq> None" if "int i \<noteq> tlast t"
    using that il wf_tableD(2) [OF w] wf_boundsD(3) [OF b] unfolding s by (auto simp: nat_eq_iff)
  ultimately show ?thesis
    using shrink_spec [of ?t env] s by (auto simp: clear_slot_def Let_def wf_table_def split: if_splits)
qed

text \<open>Changing the access rights of a used entry.\<close>

lemma set_access_spec:
  assumes w: "wf_table t" and i: "slot t i \<noteq> None"
  shows "wf_table (set_entry i \<lparr>ptr = Some p, hacc = a\<rparr> t)"
    "slot (set_entry i \<lparr>ptr = Some p, hacc = a\<rparr> t) = (slot t)(i \<mapsto> (p, a))"
proof -
  have b: "wf_bounds t" using wf_tableD(1) [OF w] .
  note il = slot_bound [OF b i]
  show s: "slot (set_entry i \<lparr>ptr = Some p, hacc = a\<rparr> t) = (slot t)(i \<mapsto> (p, a))"
    using il by (simp add: slot_set_entry)
  have en: "entries (set_entry i e t) ! j \<noteq> None" if "int j \<le> tlast t" for j e
    using wf_boundsD(5) [OF b that] il by (auto simp: set_entry_def nth_list_update)
  have "wf_bounds (set_entry i \<lparr>ptr = Some p, hacc = a\<rparr> t)"
    using wf_boundsD(1-4,6,7) [OF b] en il unfolding wf_bounds_def s by auto
  then show "wf_table (set_entry i \<lparr>ptr = Some p, hacc = a\<rparr> t)"
    using wf_tableD(2) [OF w] unfolding wf_table_def s by auto
qed

lemma wf_new_table:
  "alloc_handle_table env n = Some t \<Longrightarrow> n \<le> MAX_HANDLE_ENTRIES \<Longrightarrow> wf_table t \<and> slot t = Map.empty"
  by (auto simp: alloc_handle_table_def Let_def wf_table_def wf_bounds_def slot_def fun_eq_iff
      MIN_HANDLE_ENTRIES_def MAX_HANDLE_ENTRIES_def split: if_splits)

end
