(* ===== verification/Handle_Refs.thy ===== *)
theory Handle_Refs
  imports Handle_Tables
begin

text \<open>
  The reference-count invariant that ties the handle tables to the heap: an object's handle count
  is the number of table entries that point to it, and its reference count covers its handles, its
  waiters, its permanence, the named objects it contains and the references that a request in
  progress holds.  Releasing a counted reference never fails an assertion.
\<close>

section \<open>Counting\<close>

definition refs_in :: "(nat \<rightharpoonup> nat \<times> u32) \<Rightarrow> nat \<Rightarrow> nat" where
  "refs_in f p = card {i. \<exists>a. f i = Some (p, a)}"

lemma finite_refs: "finite (dom f) \<Longrightarrow> finite {i. \<exists>a. f i = Some (p, a)}"
  by (erule rev_finite_subset) auto

lemma refs_in_empty [simp]: "refs_in Map.empty p = 0"
  by (simp add: refs_in_def)

lemma refs_in_insert:
  assumes "finite (dom f)" "f i = None"
  shows "refs_in (f(i \<mapsto> (q, a))) p = refs_in f p + of_bool (p = q)"
proof -
  have "{j. \<exists>b. (f(i \<mapsto> (q, a))) j = Some (p, b)} =
        (if p = q then insert i {j. \<exists>b. f j = Some (p, b)} else {j. \<exists>b. f j = Some (p, b)})"
    using assms(2) by auto
  then show ?thesis
    using finite_refs [OF assms(1), of p] assms(2) by (cases "p = q") (simp_all add: refs_in_def card_insert_if)
qed

lemma refs_in_delete:
  assumes "finite (dom f)" "f i = Some (q, a)"
  shows "refs_in f p = refs_in (f(i := None)) p + of_bool (p = q)"
proof -
  have "finite (dom (f(i := None)))" using assms(1) by simp
  then have "refs_in ((f(i := None))(i \<mapsto> (q, a))) p = refs_in (f(i := None)) p + of_bool (p = q)"
    by (intro refs_in_insert) simp_all
  moreover have "(f(i := None))(i \<mapsto> (q, a)) = f" using assms(2) by auto
  ultimately show ?thesis by simp
qed

lemma refs_in_pos: "finite (dom f) \<Longrightarrow> f i = Some (p, a) \<Longrightarrow> 0 < refs_in f p"
  using finite_refs [of f p] by (auto simp: refs_in_def card_gt_0_iff)

lemma finite_dom_slot [simp]: "finite (dom (slot t))"
  by (rule finite_subset [of _ "{..<tcount t}"]) (auto simp: slot_def split: if_splits)

section \<open>The tables of the state\<close>

definition tabs :: "kstate \<Rightarrow> tbl set" where
  "tabs s = insert Global (Proc ` {..<length (procs s)})"

definition slots :: "kstate \<Rightarrow> tbl \<Rightarrow> (nat \<rightharpoonup> nat \<times> u32)" where
  "slots s w = (case table_at s w of None \<Rightarrow> Map.empty | Some t \<Rightarrow> slot t)"

definition handles_to :: "kstate \<Rightarrow> nat \<Rightarrow> nat" where
  "handles_to s p = (\<Sum>w\<in>tabs s. refs_in (slots s w) p)"

lemma finite_tabs [simp]: "finite (tabs s)"
  by (simp add: tabs_def)

lemma finite_dom_slots [simp]: "finite (dom (slots s w))"
  by (simp add: slots_def split: option.splits)

lemma table_at_tabs: "table_at s w \<noteq> None \<Longrightarrow> w \<in> tabs s"
  by (auto simp: table_at_def tabs_def split: tbl.splits if_splits)

lemma table_at_set [simp]: "w \<in> tabs s \<Longrightarrow> table_at (set_table w t s) = (table_at s)(w := t)"
  by (auto simp: table_at_def set_table_def tabs_def fun_eq_iff split: tbl.splits)

lemma tabs_set [simp]: "tabs (set_table w t s) = tabs s"
  by (simp add: tabs_def set_table_def split: tbl.splits)

lemma objs_set_table [simp]: "objs (set_table w t s) = objs s" "err (set_table w t s) = err s"
  by (simp_all add: set_table_def split: tbl.splits)

lemma slots_set: "w \<in> tabs s \<Longrightarrow> slots (set_table w (Some t) s) = (slots s)(w := slot t)"
  by (auto simp: slots_def)

lemma slots_set_None: "w \<in> tabs s \<Longrightarrow> slots (set_table w None s) = (slots s)(w := Map.empty)"
  by (auto simp: slots_def)

lemma handles_to_change:
  assumes "w \<in> tabs s" "tabs s' = tabs s" "slots s' = (slots s)(w := f)"
  shows "handles_to s' p + refs_in (slots s w) p = handles_to s p + refs_in f p"
proof -
  have "(\<Sum>v\<in>tabs s - {w}. refs_in (slots s' v) p) = (\<Sum>v\<in>tabs s - {w}. refs_in (slots s v) p)"
    by (rule sum.cong) (simp_all add: assms(3))
  then show ?thesis
    using sum.remove [OF finite_tabs assms(1), of "\<lambda>v. refs_in (slots s' v) p"]
      sum.remove [OF finite_tabs assms(1), of "\<lambda>v. refs_in (slots s v) p"] assms(2,3)
    by (simp add: handles_to_def)
qed

lemma handles_to_pos: "slots s w i = Some (p, a) \<Longrightarrow> 0 < handles_to s p"
proof -
  assume i: "slots s w i = Some (p, a)"
  then have "table_at s w \<noteq> None" by (cases "table_at s w") (simp_all add: slots_def)
  then have "w \<in> tabs s" by (rule table_at_tabs)
  moreover have "0 < refs_in (slots s w) p" using i by (intro refs_in_pos) auto
  ultimately show ?thesis
    unfolding handles_to_def by (intro sum_pos2 [of _ w]) auto
qed

section \<open>The invariant\<close>

definition rcount :: "kstate \<Rightarrow> nat \<Rightarrow> nat" where
  "rcount s p = (case obj_at s p of None \<Rightarrow> 0 | Some ob \<Rightarrow> refcount ob)"

definition hcount :: "kstate \<Rightarrow> nat \<Rightarrow> nat" where
  "hcount s p = (case obj_at s p of None \<Rightarrow> 0 | Some ob \<Rightarrow> handle_count ob)"

definition held :: "kstate \<Rightarrow> nat \<Rightarrow> nat" where
  "held s p = (case obj_at s p of None \<Rightarrow> 0
               | Some ob \<Rightarrow> length (wait_queue ob) + of_bool (is_permanent ob))"

definition par :: "kstate \<Rightarrow> nat \<Rightarrow> nat option" where
  "par s p = do { ob \<leftarrow> obj_at s p; n \<leftarrow> oname ob; on_parent n }"

definition children :: "kstate \<Rightarrow> nat \<Rightarrow> nat" where
  "children s p = card {q. par s q = Some p}"

text \<open>\<open>x p\<close> is the number of references to \<open>p\<close> that the request in progress holds.\<close>

definition refs_ok :: "(nat \<Rightarrow> nat) \<Rightarrow> kstate \<Rightarrow> bool" where
  "refs_ok x s \<longleftrightarrow>
     (\<forall>p. hcount s p = handles_to s p \<and> hcount s p + held s p + children s p + x p \<le> rcount s p)"

text \<open>The same with \<open>v p\<close> handles to \<open>p\<close> in a table that is being built or destroyed.\<close>

definition refs_okg :: "(nat \<Rightarrow> nat) \<Rightarrow> (nat \<Rightarrow> nat) \<Rightarrow> kstate \<Rightarrow> bool" where
  "refs_okg v x s \<longleftrightarrow>
     (\<forall>p. hcount s p = handles_to s p + v p \<and> hcount s p + held s p + children s p + x p \<le> rcount s p)"

lemma refs_ok_g: "refs_ok x s \<longleftrightarrow> refs_okg (\<lambda>_. 0) x s"
  by (simp add: refs_ok_def refs_okg_def)

lemma refs_okgD:
  assumes "refs_okg v x s"
  shows "hcount s p = handles_to s p + v p" "hcount s p + held s p + children s p + x p \<le> rcount s p"
  using assms unfolding refs_okg_def by blast+

definition zombies :: "kstate \<Rightarrow> nat set" where
  "zombies s = {p. \<exists>ob. obj_at s p = Some ob \<and> refcount ob = 0}"

lemma finite_par: "finite {q. par s q = Some p}"
  by (rule finite_subset [of _ "fmdom' (objs s)"])
     (auto simp: par_def bind_eq_Some_conv intro: fmdom'I)

lemma counts_set_obj [simp]:
  "rcount (set_obj p ob s) = (rcount s)(p := refcount ob)"
  "hcount (set_obj p ob s) = (hcount s)(p := handle_count ob)"
  "held (set_obj p ob s) = (held s)(p := length (wait_queue ob) + of_bool (is_permanent ob))"
  "par (set_obj p ob s) = (par s)(p := oname ob \<bind> on_parent)"
  by (auto simp: rcount_def hcount_def held_def par_def set_obj_def fun_eq_iff)

lemma obj_at_set_obj [simp]: "obj_at (set_obj p ob s) = (obj_at s)(p \<mapsto> ob)"
  by (simp add: set_obj_def fun_eq_iff)

lemma tables_set_obj [simp]:
  "procs (set_obj p ob s) = procs s" "global_table (set_obj p ob s) = global_table s" "err (set_obj p ob s) = err s"
  by (simp_all add: set_obj_def)

lemma table_at_cong:
  "procs s' = procs s \<Longrightarrow> global_table s' = global_table s \<Longrightarrow> table_at s' = table_at s"
  by (simp add: table_at_def fun_eq_iff split: tbl.split)

lemma slots_cong: "procs s' = procs s \<Longrightarrow> global_table s' = global_table s \<Longrightarrow> slots s' = slots s"
  by (simp add: slots_def table_at_cong [of s' s] fun_eq_iff)

lemma handles_to_cong:
  "procs s' = procs s \<Longrightarrow> global_table s' = global_table s \<Longrightarrow> handles_to s' = handles_to s"
  by (simp add: handles_to_def slots_cong [of s' s] tabs_def fun_eq_iff)

lemma children_remove:
  assumes "par s' = (par s)(p := None)"
  shows "children s r = children s' r + of_bool (par s p = Some r)"
proof -
  have "{q. par s q = Some r} = (if par s p = Some r then insert p {q. par s' q = Some r} else {q. par s' q = Some r})"
    using assms by auto
  then show ?thesis using finite_par [of s' r] assms by (simp add: children_def)
qed

lemma refs_okD:
  assumes "refs_ok x s"
  shows "hcount s p = handles_to s p" "hcount s p + held s p + children s p + x p \<le> rcount s p"
  using assms unfolding refs_ok_def by blast+

lemma rcount_obj: "0 < rcount s p \<Longrightarrow> \<exists>ob. obj_at s p = Some ob \<and> refcount ob = rcount s p"
  by (auto simp: rcount_def split: option.splits)

lemma refs_ok_table_obj: "refs_ok x s \<Longrightarrow> slots s w i = Some (p, a) \<Longrightarrow> \<exists>ob. obj_at s p = Some ob"
proof -
  assume r: "refs_ok x s" and i: "slots s w i = Some (p, a)"
  have "0 < rcount s p" using refs_okD [OF r, of p] handles_to_pos [OF i] by linarith
  then show ?thesis using rcount_obj by blast
qed


section \<open>Grabbing and releasing\<close>

lemma par_same_children: "par s' = par s \<Longrightarrow> children s' = children s"
  by (simp add: children_def fun_eq_iff)

text \<open>Changing only the counters of an object.\<close>

lemma refs_okg_set_obj:
  assumes "refs_okg v x s" "obj_at s p = Some ob" "handle_count ob' = handle_count ob" "oname ob' = oname ob"
    and "handle_count ob' + length (wait_queue ob') + of_bool (is_permanent ob') + children s p + y p \<le> refcount ob'"
    and "\<And>q. q \<noteq> p \<Longrightarrow> y q = x q"
  shows "refs_okg v y (set_obj p ob' s)"
proof -
  let ?s = "set_obj p ob' s"
  have par: "par ?s = par s" using assms(2,4) by (auto simp: par_def fun_eq_iff)
  have "hcount ?s q = handles_to ?s q + v q \<and> hcount ?s q + held ?s q + children ?s q + y q \<le> rcount ?s q" for q
    using refs_okgD [OF assms(1), of q] assms(2,3,5,6) handles_to_cong [of ?s s] par_same_children [OF par]
    by (cases "q = p") (simp_all add: hcount_def)
  then show ?thesis unfolding refs_okg_def by blast
qed

lemma grab_spec_g:
  assumes "refs_okg v x s" "obj_at s p = Some ob" "refcount ob < INT_MAX"
  shows "\<exists>s'. grab_object p s = Some s' \<and> refs_okg v (x(p := x p + 1)) s' \<and> zombies s' \<subseteq> zombies s \<and>
              procs s' = procs s \<and> global_table s' = global_table s \<and> err s' = err s \<and>
              obj_at s' = (obj_at s)(p \<mapsto> ob\<lparr>refcount := refcount ob + 1\<rparr>)"
proof -
  let ?ob = "ob\<lparr>refcount := refcount ob + 1\<rparr>"
  have "refs_okg v (x(p := x p + 1)) (set_obj p ?ob s)"
    using refs_okgD(2) [OF assms(1), of p] assms(2)
    by (intro refs_okg_set_obj [OF assms(1,2)]) (simp_all add: rcount_def hcount_def held_def)
  moreover have "zombies (set_obj p ?ob s) \<subseteq> zombies s" by (auto simp: zombies_def split: if_splits)
  ultimately show ?thesis using assms(2,3) by (simp add: grab_object_def)
qed

text \<open>An object without references can be freed.\<close>

lemma par_free:
  "par (free_object env p ob (destroy p s)) = (par s)(p := None)"
  by (auto simp: par_def free_object_def destroy_def Let_def fun_eq_iff)

lemma frame_free [simp]:
  "procs (free_object env p ob (destroy p s)) = procs s"
  "global_table (free_object env p ob (destroy p s)) = global_table s"
  "err (free_object env p ob (destroy p s)) = err s"
  "obj_at (free_object env p ob (destroy p s)) = (obj_at s)(p := None)"
  by (auto simp: free_object_def destroy_def Let_def fun_eq_iff)

lemma refs_okg_free:
  assumes "refs_okg v x s" "rcount s p = 0"
  shows "refs_okg v x (free_object env p ob (destroy p s))"
proof -
  let ?s = "free_object env p ob (destroy p s)"
  have ch: "children ?s q \<le> children s q" for q
    using children_remove [OF par_free, of s q env p ob] by simp
  have "hcount ?s q = handles_to ?s q + v q \<and> hcount ?s q + held ?s q + children ?s q + x q \<le> rcount ?s q" for q
    using refs_okgD [OF assms(1), of q] assms(2) ch [of q] handles_to_cong [of ?s s]
    by (cases "q = p") (simp_all add: hcount_def held_def rcount_def)
  then show ?thesis unfolding refs_okg_def by blast
qed

lemma unlinked_g:
  assumes r: "refs_okg v (x(p := x p + 1)) s" and ob: "obj_at s p = Some ob" "refcount ob = 1"
    and u: "unlink_named_object p (ob\<lparr>refcount := 0\<rparr>) s = (s1, m)"
  shows "refs_okg v (case m of None \<Rightarrow> x | Some q \<Rightarrow> x(q := x q + 1)) s1" "rcount s1 = (rcount s)(p := 0)"
    "procs s1 = procs s" "global_table s1 = global_table s" "err s1 = err s"
    "obj_at s1 = (obj_at s)(p \<mapsto> ob\<lparr>refcount := 0, oname := None\<rparr>)"
proof -
  let ?ob = "ob\<lparr>refcount := 0, oname := None\<rparr>"
  have nameless: "oname ob = None \<Longrightarrow> ob\<lparr>refcount := 0\<rparr> = ?ob" by (cases ob) simp
  have "m = par s p \<and> objs s1 = objs (set_obj p ?ob s) \<and>
        procs s1 = procs s \<and> global_table s1 = global_table s \<and> err s1 = err s"
  proof (cases "oname ob")
    case None
    then have "s1 = set_obj p ?ob s" "m = None"
      using u None unfolding nameless [OF None, symmetric] by (simp_all add: unlink_named_object_def)
    then show ?thesis using None ob(1) by (simp add: par_def)
  next
    case (Some n)
    then show ?thesis
      using u ob(1) by (auto simp: unlink_named_object_def unlink_name_def par_def set_obj_def split: option.splits)
  qed
  then have m: "m = par s p" and s1: "objs s1 = objs (set_obj p ?ob s)"
    "procs s1 = procs s" "global_table s1 = global_table s" "err s1 = err s" by auto
  then show "procs s1 = procs s" "global_table s1 = global_table s" "err s1 = err s"
    "obj_at s1 = (obj_at s)(p \<mapsto> ?ob)" by (simp_all add: set_obj_def fun_eq_iff)
  have c: "rcount s1 = (rcount s)(p := 0)" "hcount s1 = (hcount s)(p := handle_count ob)"
      "held s1 = (held s)(p := length (wait_queue ob) + of_bool (is_permanent ob))" "par s1 = (par s)(p := None)"
    using counts_set_obj [of p ?ob s] s1(1) by (auto simp: rcount_def hcount_def held_def par_def fun_eq_iff)
  then show "rcount s1 = (rcount s)(p := 0)" by simp
  have "hcount s1 q = handles_to s1 q + v q \<and>
        hcount s1 q + held s1 q + children s1 q + (case m of None \<Rightarrow> x | Some r \<Rightarrow> x(r := x r + 1)) q \<le> rcount s1 q" for q
    using refs_okgD [OF r, of q] ob children_remove [OF c(4), of q] c(1-3) m handles_to_cong [OF s1(2,3)]
    by (cases "q = p") (auto simp: hcount_def held_def rcount_def split: option.splits)
  then show "refs_okg v (case m of None \<Rightarrow> x | Some q \<Rightarrow> x(q := x q + 1)) s1" unfolding refs_okg_def by blast
qed


text \<open>
  A counted reference can be released: no assertion fails, and the invariant holds with one
  reference less.  Counts only decrease, and no object without references stays.
\<close>

definition released :: "kstate \<Rightarrow> kstate \<Rightarrow> bool" where
  "released s s' \<longleftrightarrow>
     procs s' = procs s \<and> global_table s' = global_table s \<and> err s' = err s \<and>
     zombies s' \<subseteq> zombies s \<and> (\<forall>q. rcount s' q \<le> rcount s q) \<and>
     (\<forall>q ob'. obj_at s' q = Some ob' \<longrightarrow>
        (\<exists>ob. obj_at s q = Some ob \<and> ops ob' = ops ob \<and> has_sd ob' = has_sd ob))"

lemma released_free:
  assumes "obj_at s p = Some ob" "obj_at s1 = (obj_at s)(p \<mapsto> ob\<lparr>refcount := 0, oname := None\<rparr>)"
    and "procs s1 = procs s" "global_table s1 = global_table s" "err s1 = err s" "released s1 s2"
  shows "released s (free_object env p ob' (destroy p s2))"
proof -
  have "zombies s1 \<subseteq> insert p (zombies s)" using assms(2) by (auto simp: zombies_def)
  moreover have "zombies (free_object env p ob' (destroy p s2)) = zombies s2 - {p}"
    by (auto simp: zombies_def split: if_splits)
  ultimately have "zombies (free_object env p ob' (destroy p s2)) \<subseteq> zombies s"
    using assms(6) unfolding released_def by blast
  moreover have "rcount (free_object env p ob' (destroy p s2)) q \<le> rcount s q" for q
  proof (cases "q = p")
    case False
    then have "rcount s1 q = rcount s q" using assms(2) by (simp add: rcount_def)
    then show ?thesis using assms(6) False unfolding released_def
      by (metis frame_free(4) fun_upd_other rcount_def)
  qed (simp add: rcount_def)
  moreover have "\<exists>o1. obj_at s q = Some o1 \<and> ops o2 = ops o1 \<and> has_sd o2 = has_sd o1"
    if at2: "obj_at s2 q = Some o2" and qp: "q \<noteq> p" for q o2
  proof -
    obtain o1 where "obj_at s1 q = Some o1" "ops o2 = ops o1" "has_sd o2 = has_sd o1"
      using assms(6) at2 unfolding released_def by blast
    then show ?thesis using qp assms(2) by simp
  qed
  moreover have "procs s2 = procs s" "global_table s2 = global_table s" "err s2 = err s"
    using assms(3-6) unfolding released_def by simp_all
  ultimately show ?thesis unfolding released_def frame_free by (simp split: if_splits)
qed

lemma release_spec_g:
  "refs_okg v (x(p := x p + 1)) s \<Longrightarrow> \<exists>s'. release_object env p s = Some s' \<and> refs_okg v x s' \<and> released s s'"
proof (induction "card (live s)" arbitrary: x p s rule: less_induct)
  case less
  have "0 < rcount s p" using refs_okgD(2) [OF less.prems, of p] by simp
  then obtain ob where ob: "obj_at s p = Some ob" "0 < refcount ob" using rcount_obj by metis
  note need = refs_okgD [OF less.prems, of p]
  let ?ob = "ob\<lparr>refcount := refcount ob - 1\<rparr>"
  show ?case
  proof (cases "refcount ob = 1")
    case False
    then have "release_object env p s = Some (set_obj p ?ob s)"
      using ob by (simp add: release_object.simps [of env p s])
    moreover have "refs_okg v x (set_obj p ?ob s)"
      using need ob by (intro refs_okg_set_obj [OF less.prems ob(1)]) (simp_all add: rcount_def hcount_def held_def)
    moreover have "released s (set_obj p ?ob s)"
      using ob False by (auto simp: released_def zombies_def rcount_def)
    ultimately show ?thesis by blast
  next
    case True
    have clear: "handle_count ob = 0" "wait_queue ob = []"
      using need ob True by (simp_all add: rcount_def hcount_def held_def)
    have ob0: "?ob = ob\<lparr>refcount := 0\<rparr>" using True by simp
    obtain s1 m where u: "unlink_named_object p (ob\<lparr>refcount := 0\<rparr>) s = (s1, m)" by fastforce
    note s1 = unlinked_g [OF less.prems ob(1) True u]
    show ?thesis
    proof (cases m)
      case None
      let ?s = "free_object env p (ob\<lparr>refcount := 0\<rparr>) (destroy p s1)"
      have "release_object env p s = Some ?s"
        using ob clear ob0 u None True by (simp add: release_object.simps [of env p s] Let_def)
      moreover have "refs_okg v x ?s" using s1(1,2) None by (intro refs_okg_free) simp_all
      moreover have "released s ?s"
        using s1 by (auto simp: released_def zombies_def rcount_def split: if_splits)
      ultimately show ?thesis by blast
    next
      case (Some q)
      have "live s1 \<subset> live s"
        using s1(6) ob by (fastforce simp: live_def split: if_splits)
      then have "card (live s1) < card (live s)" by (simp add: psubset_card_mono)
      moreover have "refs_okg v (x(q := x q + 1)) s1" using s1(1) Some by simp
      ultimately obtain s2 where s2: "release_object env q s1 = Some s2" "refs_okg v x s2" "released s1 s2"
        using less.hyps by blast
      let ?s = "free_object env p (ob\<lparr>refcount := 0\<rparr>) (destroy p s2)"
      have z: "rcount s2 p = 0"
        using s2(3) s1(2) unfolding released_def by (metis fun_upd_same le_zero_eq)
      have "release_object env p s = Some ?s"
        using ob clear ob0 u Some True s2(1) by (simp add: release_object.simps [of env p s] Let_def)
      moreover have "refs_okg v x ?s" using s2(2) z by (rule refs_okg_free)
      moreover have "released s ?s"
        by (rule released_free [OF ob(1) s1(6,3,4,5) s2(3)])
      ultimately show ?thesis by blast
    qed
  qed
qed


lemmas refs_ok_set_obj = refs_okg_set_obj [of "\<lambda>_. 0", folded refs_ok_g]
lemmas grab_spec = grab_spec_g [of "\<lambda>_. 0", folded refs_ok_g]
lemmas release_spec = release_spec_g [of "\<lambda>_. 0", folded refs_ok_g]

end
