(* ===== verification/Handle_Inv.thy ===== *)
theory Handle_Inv
  imports Handle_Refs
begin

text \<open>
  The operations of \<open>server/handle.c\<close> on the whole state: each keeps the reference-count invariant
  and the invariant of the tables, and changes the tables, seen as maps, as intended.
\<close>

definition kinv :: "(nat \<Rightarrow> nat) \<Rightarrow> kstate \<Rightarrow> bool" where
  "kinv x s \<longleftrightarrow> refs_ok x s \<and> zombies s = {} \<and> (\<forall>w t. table_at s w = Some t \<longrightarrow> wf_table t)"

lemma kinvD:
  assumes "kinv x s"
  shows "refs_ok x s" "zombies s = {}" "table_at s w = Some t \<Longrightarrow> wf_table t"
  using assms unfolding kinv_def by blast+

lemma kinv_held: "kinv x s \<Longrightarrow> 0 < x p \<Longrightarrow> \<exists>ob. obj_at s p = Some ob"
  using refs_okD(2) [OF kinvD(1), of x s p] rcount_obj [of s p] by fastforce

lemma kinv_entry: "kinv x s \<Longrightarrow> slots s w i = Some (p, a) \<Longrightarrow> \<exists>ob. obj_at s p = Some ob"
  using refs_ok_table_obj [OF kinvD(1)] .

lemma zombies_cong: "obj_at s' = obj_at s \<Longrightarrow> zombies s' = zombies s"
  by (simp add: zombies_def)

lemma refs_ok_cong:
  assumes "refs_ok x s" "obj_at s' = obj_at s" "procs s' = procs s" "global_table s' = global_table s"
  shows "refs_ok x s'"
proof -
  have "children s' = children s" using assms(2) by (simp add: par_def children_def fun_eq_iff)
  moreover have "hcount s' = hcount s" "rcount s' = rcount s" "held s' = held s"
    using assms(2) by (simp_all add: hcount_def rcount_def held_def fun_eq_iff)
  ultimately show ?thesis using assms(1) handles_to_cong [OF assms(3,4)]
    unfolding refs_ok_def by metis
qed

lemma kinv_cong:
  assumes "kinv x s" "obj_at s' = obj_at s" "procs s' = procs s" "global_table s' = global_table s"
  shows "kinv x s'"
  using refs_ok_cong [OF kinvD(1) [OF assms(1)] assms(2-4)] zombies_cong [OF assms(2)]
    table_at_cong [OF assms(3,4)] assms(1) by (simp add: kinv_def)

lemma kinv_set_error [simp]: "kinv x s \<Longrightarrow> kinv x (set_error st s)"
  by (erule kinv_cong) (simp_all add: set_error_def)

lemma set_error_fields [simp]:
  "objs (set_error st s) = objs s" "procs (set_error st s) = procs s"
  "global_table (set_error st s) = global_table s" "err (set_error st s) = st"
  by (simp_all add: set_error_def)

lemma slots_set_error [simp]: "slots (set_error st s) = slots s" "table_at (set_error st s) = table_at s"
  by (auto intro: slots_cong table_at_cong)

section \<open>Lookup\<close>

definition hlookup :: "kstate \<Rightarrow> nat \<Rightarrow> u32 \<Rightarrow> (tbl \<times> nat \<times> nat \<times> u32) option" where
  "hlookup s process handle =
     (let w = handle_table_of process handle;
          index = handle_to_index (if handle_is_global handle then handle_global_to_local handle else handle)
      in if index < 0 then None
         else map_option (\<lambda>(p, a). (w, nat index, p, a)) (slots s w (nat index)))"

lemma get_handle_spec:
  assumes "kinv x s"
  shows "get_handle process handle s = Some (hlookup s process handle)"
proof -
  let ?w = "handle_table_of process handle"
  let ?i = "handle_to_index (if handle_is_global handle then handle_global_to_local handle else handle)"
  show ?thesis
  proof (cases "table_at s ?w")
    case None
    then show ?thesis by (simp add: get_handle_def hlookup_def slots_def Let_def)
  next
    case (Some t)
    have b: "wf_bounds t" using wf_tableD(1) [OF kinvD(3) [OF assms Some]] .
    consider "?i < 0" | "?i > tlast t" "0 \<le> ?i" | "0 \<le> ?i" "?i \<le> tlast t" by linarith
    then show ?thesis
    proof cases
      case 2
      then have "slot t (nat ?i) = None" by (intro wf_boundsD(6) [OF b]) simp
      then show ?thesis using Some 2 by (simp add: get_handle_def hlookup_def slots_def Let_def)
    next
      case 3
      obtain e where "entries t ! nat ?i = Some e" "nat ?i < tcount t"
          "slot t (nat ?i) = map_option (\<lambda>p. (p, hacc e)) (ptr e)"
        using slot_read [OF b, of "nat ?i"] 3 by auto
      then show ?thesis
        using Some 3 by (cases "ptr e") (simp_all add: get_handle_def hlookup_def slots_def Let_def)
    qed (use Some in \<open>simp add: get_handle_def hlookup_def Let_def\<close>)
  qed
qed

lemma hlookup_Some:
  "hlookup s process handle = Some (w, i, p, a) \<Longrightarrow>
   slots s w i = Some (p, a) \<and> w = handle_table_of process handle \<and>
   int i = handle_to_index (if handle_is_global handle then handle_global_to_local handle else handle)"
  by (auto simp: hlookup_def Let_def split: if_splits)

lemma hlookup_cong: "slots s' = slots s \<Longrightarrow> hlookup s' process handle = hlookup s process handle"
  by (simp add: hlookup_def Let_def)

text \<open>The local and the global handle of an index find the entry of that index.\<close>

lemma hlookup_local:
  "i < MAX_HANDLE_ENTRIES \<Longrightarrow>
   hlookup s process (index_to_handle i) = map_option (\<lambda>(p, a). (Proc process, i, p, a)) (slots s (Proc process) i)"
  by (simp add: hlookup_def handle_table_of_def Let_def)

lemma hlookup_global:
  "i < MAX_HANDLE_ENTRIES \<Longrightarrow>
   hlookup s process (handle_local_to_global (index_to_handle i)) =
   map_option (\<lambda>(p, a). (Global, i, p, a)) (slots s Global i)"
  by (simp add: hlookup_def handle_table_of_def Let_def)

section \<open>Allocation\<close>

lemma par_types [simp]: "obj_at (s\<lparr>types := ty\<rparr>) = obj_at s" by simp

lemma grab_for_handle_spec:
  assumes r: "refs_ok x s" and ob: "obj_at s p = Some ob" "refcount ob < INT_MAX"
    and t: "table_at s w = Some t" "slot t i = None" "slot t' = (slot t)(i \<mapsto> (p, a))"
  shows "\<exists>s1. grab_object_for_handle env p s = Some s1 \<and> refs_ok x (set_table w (Some t') s1) \<and>
              procs s1 = procs s \<and> global_table s1 = global_table s \<and> err s1 = err s \<and>
              obj_at s1 = (obj_at s)(p \<mapsto> ob\<lparr>refcount := refcount ob + 1, handle_count := handle_count ob + 1\<rparr>)"
proof -
  let ?ob = "ob\<lparr>refcount := refcount ob + 1, handle_count := handle_count ob + 1\<rparr>"
  obtain s1 where s1: "grab_object_for_handle env p s = Some s1" "procs s1 = procs s"
      "global_table s1 = global_table s" "err s1 = err s" "obj_at s1 = (obj_at s)(p \<mapsto> ?ob)"
    using ob by (simp add: grab_object_for_handle_def grab_object_def set_obj_def Let_def fun_eq_iff)
  let ?s = "set_table w (Some t') s1"
  have tab: "table_at s1 = table_at s" "slots s1 = slots s" "handles_to s1 = handles_to s"
    using s1(2,3) by (auto intro: table_at_cong slots_cong handles_to_cong)
  have w: "w \<in> tabs s1" using t(1) tab by (intro table_at_tabs) simp
  have sl: "slots s w = slot t" using t(1) by (simp add: slots_def)
  have "handles_to ?s q + refs_in (slot t) q = handles_to s q + refs_in (slot t') q" for q
    using handles_to_change [OF w tabs_set slots_set [OF w], of t' q] tab sl by simp
  then have h: "handles_to ?s q = handles_to s q + of_bool (q = p)" for q
    using refs_in_insert [OF finite_dom_slot t(2)] t(3) by simp
  have "par ?s = par s" using s1(5) ob by (auto simp: par_def fun_eq_iff)
  then have ch: "children ?s = children s" by (rule par_same_children)
  have "hcount ?s q = handles_to ?s q \<and> hcount ?s q + held ?s q + children ?s q + x q \<le> rcount ?s q" for q
    using refs_okD [OF r, of q] s1(5) ob h ch
    by (cases "q = p") (simp_all add: hcount_def held_def rcount_def)
  then have "refs_ok x ?s" unfolding refs_ok_def by blast
  then show ?thesis using s1 by blast
qed

lemma alloc_entry_spec:
  assumes k: "kinv x s" and ob: "obj_at s p = Some ob" "refcount ob < INT_MAX" and t: "table_at s w = Some t"
  shows "(alloc_entry env w p a s = Some (set_error STATUS_INSUFFICIENT_RESOURCES s, 0) \<and>
          (\<forall>j<tcount t. slots s w j \<noteq> None) \<and> grow_handle_table env t = None) \<or>
         (\<exists>s' i. alloc_entry env w p a s = Some (s', index_to_handle i) \<and> kinv x s' \<and> i < MAX_HANDLE_ENTRIES \<and>
            slots s w i = None \<and> (\<forall>j<i. slots s w j \<noteq> None) \<and>
            slots s' = (slots s)(w := (slots s w)(i \<mapsto> (p, a))) \<and> err s' = err s \<and>
            obj_at s' = (obj_at s)(p \<mapsto> ob\<lparr>refcount := refcount ob + 1, handle_count := handle_count ob + 1\<rparr>))"
proof -
  have wt: "wf_table t" using kinvD(3) [OF k t] .
  have sl: "slots s w = slot t" using t by (simp add: slots_def)
  consider (full) "alloc_slot env t p a = Some None" "\<forall>j<tcount t. slot t j \<noteq> None" "grow_handle_table env t = None"
    | (ok) t' i where "alloc_slot env t p a = Some (Some (t', i))" "wf_table t'" "slot t i = None"
        "\<forall>j<i. slot t j \<noteq> None" "slot t' = (slot t)(i \<mapsto> (p, a))" "i < MAX_HANDLE_ENTRIES"
    using alloc_slot_spec [OF wt, of env p a] by metis
  then show ?thesis
  proof cases
    case full
    then show ?thesis using t sl by (simp add: alloc_entry_def)
  next
    case ok
    obtain s1 where s1: "grab_object_for_handle env p s = Some s1" "refs_ok x (set_table w (Some t') s1)"
        "procs s1 = procs s" "global_table s1 = global_table s" "err s1 = err s"
        "obj_at s1 = (obj_at s)(p \<mapsto> ob\<lparr>refcount := refcount ob + 1, handle_count := handle_count ob + 1\<rparr>)"
      using grab_for_handle_spec [OF kinvD(1) [OF k] ob t ok(3,5)] by blast
    have tab: "table_at s1 = table_at s" "slots s1 = slots s"
      using s1(3,4) by (auto intro: table_at_cong slots_cong)
    have w: "w \<in> tabs s1" using t tab by (intro table_at_tabs) simp
    have "zombies (set_table w (Some t') s1) = {}"
      using kinvD(2) [OF k] s1(6) by (auto simp: zombies_def split: if_splits)
    then have "kinv x (set_table w (Some t') s1)"
      using s1(2) ok(2) kinvD(3) [OF k] w tab unfolding kinv_def by (auto split: if_splits)
    then show ?thesis
      using s1 ok t tab sl slots_set [OF w, of t'] by (auto simp: alloc_entry_def)
  qed
qed


section \<open>Closing\<close>

lemma kinv_released:
  assumes "refs_ok x s'" "released s s'" "zombies s = {}" "\<And>w t. table_at s w = Some t \<Longrightarrow> wf_table t"
  shows "kinv x s'" "slots s' = slots s" "err s' = err s" "table_at s' = table_at s"
proof -
  have p: "procs s' = procs s" "global_table s' = global_table s" "err s' = err s" "zombies s' \<subseteq> zombies s"
    using assms(2) by (auto simp: released_def)
  then show "slots s' = slots s" "err s' = err s" and t: "table_at s' = table_at s"
    by (auto intro: slots_cong table_at_cong)
  show "kinv x s'" unfolding kinv_def using assms(1,3,4) p(4) t by auto
qed

lemma release_kinv:
  assumes "kinv (x(p := x p + 1)) s"
  shows "\<exists>s'. release_object env p s = Some s' \<and> kinv x s' \<and> slots s' = slots s \<and> err s' = err s \<and>
              released s s'"
  using release_spec [OF kinvD(1) [OF assms], of env] kinv_released kinvD(2,3) [OF assms] by metis

lemma release_from_handle_spec:
  assumes k: "kinv x s" and i: "slots s w i = Some (p, a)"
    and t': "wf_table t'" "slot t' = (slots s w)(i := None)"
  shows "\<exists>s'. release_object_from_handle env p (set_table w (Some t') s) = Some s' \<and> kinv x s' \<and>
              slots s' = (slots s)(w := (slots s w)(i := None)) \<and> err s' = err s"
proof -
  note r = refs_okD [OF kinvD(1) [OF k]]
  obtain ob where ob: "obj_at s p = Some ob" using kinv_entry [OF k i] by blast
  have w: "w \<in> tabs s"
    using i by (intro table_at_tabs) (auto simp: slots_def split: option.splits)
  have h0: "handles_to s q = handles_to (set_table w (Some t') s) q + of_bool (q = p)" for q
    using handles_to_change [OF w tabs_set slots_set [OF w], of t' q] refs_in_delete [of "slots s w" i p a q] i t'(2) by simp
  have hc: "0 < handle_count ob"
    using h0 [of p] r(1) [of p] ob by (simp add: hcount_def)
  obtain s1 where s1: "release_object_from_handle env p (set_table w (Some t') s) = release_object env p s1"
      "obj_at s1 = (obj_at s)(p \<mapsto> ob\<lparr>handle_count := handle_count ob - 1\<rparr>)"
      "procs s1 = procs (set_table w (Some t') s)" "global_table s1 = global_table (set_table w (Some t') s)"
      "err s1 = err s"
    using ob hc by (simp add: release_object_from_handle_def set_obj_def Let_def fun_eq_iff)
  have tab: "slots s1 = (slots s)(w := slot t')" "table_at s1 = (table_at s)(w := Some t')"
      "handles_to s1 = handles_to (set_table w (Some t') s)"
    using slots_cong [OF s1(3,4)] table_at_cong [OF s1(3,4)] handles_to_cong [OF s1(3,4)] slots_set [OF w] w
    by simp_all
  have "par s1 = par s" using s1(2) ob by (auto simp: par_def fun_eq_iff)
  then have ch: "children s1 = children s" by (rule par_same_children)
  have "hcount s1 q = handles_to s1 q \<and> hcount s1 q + held s1 q + children s1 q + (x(p := x p + 1)) q \<le> rcount s1 q" for q
    using r [of q] h0 [of q] s1(2) ob hc ch tab(3)
    by (cases "q = p") (simp_all add: hcount_def held_def rcount_def)
  then have "refs_ok (x(p := x p + 1)) s1" unfolding refs_ok_def by blast
  moreover have "zombies s1 = {}" using kinvD(2) [OF k] s1(2) ob by (auto simp: zombies_def split: if_splits)
  ultimately have "kinv (x(p := x p + 1)) s1"
    using kinvD(3) [OF k] t'(1) tab(2) by (auto simp: kinv_def split: if_splits)
  then show ?thesis using release_kinv [of x p s1 env] s1(1,5) tab(1) t'(2) by auto
qed

text \<open>The outcome of \<open>close_handle\<close> on an entry: refused by the flag or by the object's type.\<close>

definition closable :: "kenv \<Rightarrow> nat \<Rightarrow> u32 \<Rightarrow> kstate \<Rightarrow> nat \<Rightarrow> u32 \<Rightarrow> bool" where
  "closable env process handle s p a \<longleftrightarrow>
     a AND RESERVED_CLOSE_PROTECT = 0 \<and>
     (case obj_at s p of None \<Rightarrow> False
      | Some ob \<Rightarrow> (case e_close env (ops ob) of None \<Rightarrow> True | Some f \<Rightarrow> f p process handle))"

lemma close_handle_local:
  assumes k: "kinv x s" and l: "\<not> handle_is_global handle"
  shows "\<exists>s' st. close_handle env process handle s = Some (s', st) \<and> kinv x s' \<and> err s' = err s \<and>
           (case hlookup s process handle of None \<Rightarrow> st = STATUS_INVALID_HANDLE \<and> s' = s
            | Some (w, i, p, a) \<Rightarrow>
                if closable env process handle s p a
                then st = STATUS_SUCCESS \<and> slots s' = (slots s)(w := (slots s w)(i := None))
                else st = STATUS_HANDLE_NOT_CLOSABLE \<and> s' = s)"
proof (cases "hlookup s process handle")
  case None
  then show ?thesis using k by (simp add: close_handle_def get_handle_spec [OF k])
next
  case (Some v)
  then obtain w i p a where v: "hlookup s process handle = Some (w, i, p, a)" by (cases v) auto
  note hs = hlookup_Some [OF v]
  have i: "slots s w i = Some (p, a)" and w: "w = handle_table_of process handle"
    and ix: "handle_to_index handle = int i" using hs l by auto
  obtain ob where ob: "obj_at s p = Some ob" using kinv_entry [OF k i] by blast
  obtain t where t: "table_at s w = Some t" "slots s w = slot t"
    using i by (auto simp: slots_def split: option.splits)
  have wt: "wf_table t" using kinvD(3) [OF k t(1)] .
  have si: "slot t i \<noteq> None" using i t(2) by simp
  obtain t' where t': "clear_slot env i t = Some t'" "wf_table t'" "slot t' = (slots s w)(i := None)"
    using clear_slot_spec [OF wt si, of env] t(2) by metis
  obtain s' where s': "release_object_from_handle env p (set_table w (Some t') s) = Some s'" "kinv x s'"
      "slots s' = (slots s)(w := (slots s w)(i := None))" "err s' = err s"
    using release_from_handle_spec [OF k i t'(2,3)] by blast
  have ilt: "i < tcount t" using slot_bound [OF wf_tableD(1) [OF wt] si] by simp
  show ?thesis
    using k ob t(1) t'(1) s' ilt ix
    by (cases "e_close env (ops ob)")
       (auto simp: close_handle_def get_handle_spec [OF k] v closable_def Let_def w [symmetric])
qed

end
