(* ===== verification/Handle_Reqs.thy ===== *)
theory Handle_Reqs
  imports Handle_Inv
begin

text \<open>
  The requests of \<open>server/handle.c\<close> on top of the operations: none of them fails an assertion or
  touches freed memory in a state that satisfies the invariant, and each re-establishes it.
  \<open>room n s\<close> says that \<open>n\<close> more references can be taken to any object.
\<close>

definition room :: "nat \<Rightarrow> kstate \<Rightarrow> bool" where
  "room n s \<longleftrightarrow> (\<forall>p. rcount s p + n \<le> INT_MAX)"

lemma roomD: "room n s \<Longrightarrow> obj_at s p = Some ob \<Longrightarrow> 0 < n \<Longrightarrow> refcount ob < INT_MAX"
proof -
  assume r: "room n s" "obj_at s p = Some ob" "0 < n"
  have "rcount s p + n \<le> INT_MAX" using r(1) by (simp add: room_def)
  then show ?thesis using r(2,3) by (simp add: rcount_def)
qed

lemma room_step: "room (n + 1) s \<Longrightarrow> (\<And>p. rcount s' p \<le> rcount s p + 1) \<Longrightarrow> room n s'"
proof -
  assume r: "room (n + 1) s" and le: "\<And>p. rcount s' p \<le> rcount s p + 1"
  have "rcount s' p + n \<le> INT_MAX" for p
    using r [unfolded room_def, rule_format, of p] le [of p] by linarith
  then show ?thesis by (simp add: room_def)
qed

lemma room_same: "room n s \<Longrightarrow> (\<And>p. rcount s' p \<le> rcount s p) \<Longrightarrow> room n s'"
  using add_le_mono order_trans unfolding room_def by (meson add_le_cancel_right)

lemma room_mono: "room n s \<Longrightarrow> m \<le> n \<Longrightarrow> room m s"
  unfolding room_def by (meson add_left_mono order_trans)

lemma rcount_objs: "obj_at s' = obj_at s \<Longrightarrow> rcount s' = rcount s"
  by (simp add: rcount_def fun_eq_iff)

lemma rcount_released: "released s s' \<Longrightarrow> rcount s' p \<le> rcount s p"
  by (simp add: released_def)

lemma rcount_error [simp]: "rcount (set_error st s) = rcount s"
  by (simp add: rcount_def fun_eq_iff)

section \<open>Objects from handles\<close>

text \<open>The pseudo-handles stand for objects to which the current thread holds references.\<close>

definition magic_ok :: "kenv \<Rightarrow> (nat \<Rightarrow> nat) \<Rightarrow> bool" where
  "magic_ok env x \<longleftrightarrow>
     (\<forall>p\<in>set [e_thread env, e_process env] \<union>
          set_option (e_thread_impersonation env) \<union> set_option (e_thread_token env) \<union>
          set_option (e_token_of env (cur_proc env)). 0 < x p)"

lemma magic_held: "magic_ok env x \<Longrightarrow> get_magic_handle env handle = Some p \<Longrightarrow> 0 < x p"
  by (auto simp: magic_ok_def get_magic_handle_def split: if_splits)

lemma magic_mono: "magic_ok env x \<Longrightarrow> magic_ok env (x(p := x p + 1))"
  by (auto simp: magic_ok_def)

definition obj_of_handle :: "kenv \<Rightarrow> kstate \<Rightarrow> nat \<Rightarrow> u32 \<Rightarrow> (nat \<times> u32) option" where
  "obj_of_handle env s process handle =
     (case get_magic_handle env handle of Some p \<Rightarrow> Some (p, NOT 0)
      | None \<Rightarrow> map_option (\<lambda>(w, i, p, a). (p, a)) (hlookup s process handle))"

lemma obj_of_handle_exists:
  "kinv x s \<Longrightarrow> magic_ok env x \<Longrightarrow> obj_of_handle env s process handle = Some (p, a) \<Longrightarrow> \<exists>ob. obj_at s p = Some ob"
  using kinv_held magic_held kinv_entry hlookup_Some
  by (fastforce simp: obj_of_handle_def split: option.splits)

lemma grab_kinv:
  assumes "kinv x s" "obj_at s p = Some ob" "refcount ob < INT_MAX"
  shows "\<exists>s'. grab_object p s = Some s' \<and> kinv (x(p := x p + 1)) s' \<and> slots s' = slots s \<and> err s' = err s \<and>
              obj_at s' = (obj_at s)(p \<mapsto> ob\<lparr>refcount := refcount ob + 1\<rparr>) \<and>
              (\<forall>q. rcount s' q \<le> rcount s q + 1)"
proof -
  obtain s' where s': "grab_object p s = Some s'" "refs_ok (x(p := x p + 1)) s'" "zombies s' \<subseteq> zombies s"
      "procs s' = procs s" "global_table s' = global_table s" "err s' = err s"
      "obj_at s' = (obj_at s)(p \<mapsto> ob\<lparr>refcount := refcount ob + 1\<rparr>)"
    using grab_spec [OF kinvD(1) [OF assms(1)] assms(2,3)] by blast
  have "kinv (x(p := x p + 1)) s'"
    using s' kinvD(2,3) [OF assms(1)] table_at_cong [OF s'(4,5)] by (auto simp: kinv_def)
  moreover have "rcount s' q \<le> rcount s q + 1" for q
    using s'(7) assms(2) by (simp add: rcount_def)
  ultimately show ?thesis using s' slots_cong [OF s'(4,5)] by blast
qed

text \<open>
  \<open>get_handle_obj\<close> returns the object of the handle with a reference of its own, if it has the type
  and the handle the rights that are asked for; otherwise only the error is set.
\<close>

definition obj_result ::
  "kenv \<Rightarrow> kstate \<Rightarrow> nat \<Rightarrow> u32 \<Rightarrow> u32 \<Rightarrow> nat option \<Rightarrow> status + nat" where
  "obj_result env s process handle access op =
     (case obj_of_handle env s process handle of None \<Rightarrow> Inl STATUS_INVALID_HANDLE
      | Some (p, a) \<Rightarrow>
          (case obj_at s p of None \<Rightarrow> Inl STATUS_INVALID_HANDLE
           | Some ob \<Rightarrow>
               if op \<noteq> None \<and> op \<noteq> Some (ops ob) then Inl STATUS_OBJECT_TYPE_MISMATCH
               else if a AND access \<noteq> access then Inl STATUS_ACCESS_DENIED
               else Inr p))"

lemma get_handle_obj_spec:
  assumes k: "kinv x s" and m: "magic_ok env x" and r: "room 1 s"
  shows "case obj_result env s process handle access op of
           Inl st \<Rightarrow> get_handle_obj env process handle access op s = Some (set_error st s, None)
         | Inr p \<Rightarrow> \<exists>s'. get_handle_obj env process handle access op s = Some (s', Some p) \<and>
                      grab_object p s = Some s' \<and> kinv (x(p := x p + 1)) s' \<and> slots s' = slots s \<and> err s' = err s \<and>
                      (\<forall>q. rcount s' q \<le> rcount s q + 1) \<and>
                      (\<exists>ob. obj_at s p = Some ob \<and> obj_at s' = (obj_at s)(p \<mapsto> ob\<lparr>refcount := refcount ob + 1\<rparr>))"
proof (cases "obj_of_handle env s process handle")
  case None
  then show ?thesis
    by (auto simp: obj_result_def obj_of_handle_def get_handle_obj_def get_handle_spec [OF k] Let_def
        split: option.splits)
next
  case (Some v)
  then obtain p a where v: "obj_of_handle env s process handle = Some (p, a)" by (cases v) auto
  obtain ob where ob: "obj_at s p = Some ob" using obj_of_handle_exists [OF k m v] by blast
  have "refcount ob < INT_MAX" using roomD [OF r ob] by simp
  then obtain s' where s': "grab_object p s = Some s'" "kinv (x(p := x p + 1)) s'" "slots s' = slots s" "err s' = err s"
      "obj_at s' = (obj_at s)(p \<mapsto> ob\<lparr>refcount := refcount ob + 1\<rparr>)" "\<forall>q. rcount s' q \<le> rcount s q + 1"
    using grab_kinv [OF k ob] by blast
  show ?thesis
  proof (cases "get_magic_handle env handle")
    case None
    then obtain w i where "hlookup s process handle = Some (w, i, p, a)"
      using v by (auto simp: obj_of_handle_def)
    then show ?thesis
      using None v ob s' by (auto simp: obj_result_def get_handle_obj_def get_handle_spec [OF k] Let_def)
  next
    case Some
    then show ?thesis
      using v ob s' by (auto simp: obj_result_def obj_of_handle_def get_handle_obj_def Let_def)
  qed
qed


section \<open>Access rights\<close>

text \<open>Changing the rights of an entry in place.\<close>

lemma set_access_kinv:
  assumes k: "kinv x s" and i: "slots s w i = Some (p, a)"
  shows "kinv x (set_access w i p b s)" "slots (set_access w i p b s) = (slots s)(w := (slots s w)(i \<mapsto> (p, b)))"
    "obj_at (set_access w i p b s) = obj_at s" "err (set_access w i p b s) = err s"
proof -
  obtain t where t: "table_at s w = Some t" "slots s w = slot t"
    using i by (auto simp: slots_def split: option.splits)
  let ?t = "set_entry i \<lparr>ptr = Some p, hacc = b\<rparr> t"
  have s': "set_access w i p b s = set_table w (Some ?t) s" using t by (simp add: set_access_def)
  have w: "w \<in> tabs s" using t by (intro table_at_tabs) simp
  have si: "slot t i \<noteq> None" using i t(2) by simp
  note sa = set_access_spec [OF kinvD(3) [OF k t(1)] si, of p b]
  show sl: "slots (set_access w i p b s) = (slots s)(w := (slots s w)(i \<mapsto> (p, b)))"
    using slots_set [OF w, of ?t] sa(2) t(2) s' by simp
  show o: "obj_at (set_access w i p b s) = obj_at s" "err (set_access w i p b s) = err s"
    using s' by simp_all
  have "refs_in (slot ?t) q = refs_in (slot t) q" for q
    using refs_in_delete [of "slot t" i p a q] refs_in_delete [of "slot ?t" i p b q] sa(2) i t(2) by simp
  then have h: "handles_to (set_access w i p b s) q = handles_to s q" for q
    using handles_to_change [OF w tabs_set slots_set [OF w], of ?t q] t(2) s' by simp
  have c: "hcount (set_access w i p b s) = hcount s" "rcount (set_access w i p b s) = rcount s"
      "held (set_access w i p b s) = held s" "children (set_access w i p b s) = children s"
    using o(1) by (simp_all add: hcount_def rcount_def held_def par_def children_def fun_eq_iff)
  have "refs_ok x (set_access w i p b s)"
    using kinvD(1) [OF k] h c unfolding refs_ok_def by metis
  moreover have "zombies (set_access w i p b s) = {}" using kinvD(2) [OF k] zombies_cong [OF o(1)] by simp
  ultimately show "kinv x (set_access w i p b s)"
    using kinvD(3) [OF k] sa(1) w s' by (auto simp: kinv_def split: if_splits)
qed

definition new_flags :: "u32 \<Rightarrow> u32 \<Rightarrow> u32 \<Rightarrow> u32" where
  "new_flags msk flags old_access =
     (old_access AND NOT (push_bit RESERVED_SHIFT msk AND RESERVED_ALL)) OR
     (push_bit RESERVED_SHIFT flags AND (push_bit RESERVED_SHIFT msk AND RESERVED_ALL))"

lemma set_handle_flags_spec:
  assumes k: "kinv x s"
  shows "\<exists>s' old. set_handle_flags env process handle msk flags s = Some (s', old) \<and> kinv x s' \<and>
           obj_at s' = obj_at s \<and>
           (case get_magic_handle env handle of
              Some _ \<Rightarrow> old = 0 \<and> slots s' = slots s \<and> err s' = (if msk \<noteq> 0 then STATUS_ACCESS_DENIED else err s)
            | None \<Rightarrow>
                (case hlookup s process handle of
                   None \<Rightarrow> old = -1 \<and> s' = set_error STATUS_INVALID_HANDLE s
                 | Some (w, i, p, a) \<Rightarrow>
                     old = uint (drop_bit RESERVED_SHIFT (a AND RESERVED_ALL)) \<and> err s' = err s \<and>
                     slots s' = (slots s)(w := (slots s w)(i \<mapsto> (p, new_flags msk flags a)))))"
proof (cases "get_magic_handle env handle")
  case None
  show ?thesis
  proof (cases "hlookup s process handle")
    case (Some v)
    then obtain w i p a where v: "hlookup s process handle = Some (w, i, p, a)" by (cases v) auto
    have i: "slots s w i = Some (p, a)" using hlookup_Some [OF v] by blast
    show ?thesis
      using None v set_access_kinv [OF k i]
      by (simp add: set_handle_flags_def get_handle_spec [OF k] Let_def new_flags_def)
  qed (use None k in \<open>simp add: set_handle_flags_def get_handle_spec [OF k]\<close>)
qed (use k in \<open>simp add: set_handle_flags_def\<close>)

lemma check_object_access_frame:
  assumes "check_object_access env token p ob access s = (s', r)"
  shows "obj_at s' = obj_at s" "procs s' = procs s" "global_table s' = global_table s"
    "r \<noteq> None \<Longrightarrow> s' = s"
  using assms by (auto simp: check_object_access_def Let_def split: if_splits option.splits)

lemma check_object_access_kinv:
  assumes "check_object_access env token p ob access s = (s', r)" "kinv x s"
  shows "kinv x s'" "slots s' = slots s"
  by (rule kinv_cong [OF assms(2) check_object_access_frame(1-3) [OF assms(1)]])
     (rule slots_cong [OF check_object_access_frame(2,3) [OF assms(1)]])

section \<open>New handles\<close>

text \<open>
  The outcome of an allocation: no handle and the tables unchanged, or a handle of the process
  whose entry, free before, is now the object with the rights.
\<close>

definition allocated :: "(nat \<Rightarrow> nat) \<Rightarrow> nat \<Rightarrow> nat \<Rightarrow> (u32 \<Rightarrow> bool) \<Rightarrow> kstate \<Rightarrow> kstate \<Rightarrow> u32 \<Rightarrow> bool" where
  "allocated x process p R s s' h \<longleftrightarrow>
     kinv x s' \<and> (\<forall>q. rcount s' q \<le> rcount s q + 1) \<and>
     (if h = 0 then slots s' = slots s \<and> obj_at s' = obj_at s
      else \<not> handle_is_global h \<and> hlookup s process h = None \<and>
           (\<exists>i a. hlookup s' process h = Some (Proc process, i, p, a) \<and> R (a AND NOT RESERVED_ALL) \<and>
                  slots s' = (slots s)(Proc process := (slots s (Proc process))(i \<mapsto> (p, a)))))"

text \<open>The rights of an entry apart from the two flags.\<close>

lemma strip_reserved:
  assumes "access AND RESERVED_ALL = 0"
  shows "access AND NOT RESERVED_ALL = access" "(access OR RESERVED_INHERIT) AND NOT RESERVED_ALL = access"
proof -
  have "access AND NOT RESERVED_ALL = access AND NOT RESERVED_ALL OR access AND RESERVED_ALL"
    using assms by simp
  also have "\<dots> = access" by (simp flip: bit.conj_disj_distrib)
  finally show a: "access AND NOT RESERVED_ALL = access" .
  have "RESERVED_INHERIT AND NOT RESERVED_ALL = 0" by (simp add: RESERVED_ALL_def RESERVED_INHERIT_def RESERVED_CLOSE_PROTECT_def RESERVED_SHIFT_def)
  then show "(access OR RESERVED_INHERIT) AND NOT RESERVED_ALL = access"
    using a by (simp add: bit.conj_disj_distrib2)
qed

lemma allocated_fail: "kinv x s \<Longrightarrow> allocated x process p R s (set_error st s) 0"
  by (simp add: allocated_def)

lemma alloc_handle_entry_spec:
  assumes k: "kinv x s" and ob: "obj_at s p = Some ob" "refcount ob < INT_MAX"
    and a: "access AND RESERVED_ALL = 0"
  shows "\<exists>s' h. alloc_handle_entry env process p access attr s = Some (s', h) \<and>
                allocated x process p (\<lambda>b. b = access) s s' h"
proof (cases "table_at s (Proc process)")
  case None
  then show ?thesis using a allocated_fail [OF k] by (simp add: alloc_handle_entry_def)
next
  case (Some t)
  let ?a = "if attr AND 2 \<noteq> 0 then access OR RESERVED_INHERIT else access"
  let ?w = "Proc process"
  have eq: "alloc_handle_entry env process p access attr s = alloc_entry env ?w p ?a s"
    using a Some by (simp add: alloc_handle_entry_def Let_def)
  from alloc_entry_spec [OF k ob Some, of env ?a] show ?thesis
  proof (elim disjE exE conjE)
    fix s' i
    assume e: "alloc_entry env ?w p ?a s = Some (s', index_to_handle i)" "kinv x s'" "i < MAX_HANDLE_ENTRIES"
      "slots s ?w i = None" "slots s' = (slots s)(?w := (slots s ?w)(i \<mapsto> (p, ?a)))"
      "obj_at s' = (obj_at s)(p \<mapsto> ob\<lparr>refcount := refcount ob + 1, handle_count := handle_count ob + 1\<rparr>)"
    have "\<forall>q. rcount s' q \<le> rcount s q + 1" using e(6) ob by (simp add: rcount_def)
    then have "allocated x process p (\<lambda>b. b = access) s s' (index_to_handle i)"
      using e strip_reserved [OF a] by (auto simp: allocated_def hlookup_local)
    then show ?thesis using eq e(1) by (metis (no_types))
  qed (use eq allocated_fail [OF k] in auto)
qed

lemma and_not_reserved [simp]: "(a AND NOT RESERVED_ALL) AND RESERVED_ALL = 0"
  by (simp add: and.assoc)

lemma allocated_mono: "allocated x process p R s s' h \<Longrightarrow> (\<And>b. R b \<Longrightarrow> R' b) \<Longrightarrow> allocated x process p R' s s' h"
  by (auto simp: allocated_def split: if_splits)

lemma alloc_handle_no_access_check_spec:
  assumes "kinv x s" "obj_at s p = Some ob" "refcount ob < INT_MAX"
  shows "\<exists>s' h. alloc_handle_no_access_check env process p access attr s = Some (s', h) \<and>
                allocated x process p (\<lambda>b. True) s s' h"
proof -
  let ?a = "map_obj_access env p ob (if access AND MAXIMUM_ALLOWED \<noteq> 0 then GENERIC_ALL else access)"
  show ?thesis
    using alloc_handle_entry_spec [OF assms and_not_reserved [of ?a], of env process attr] assms(2)
    by (auto simp: alloc_handle_no_access_check_def Let_def intro: allocated_mono)
qed

text \<open>
  \<open>alloc_handle\<close> asserts that the granted rights do not contain the two reserved bits, which no
  generic mapping of the server has.
\<close>

definition grants_ok :: "kenv \<Rightarrow> bool" where
  "grants_ok env \<longleftrightarrow>
     (\<forall>p ob access. map_obj_access env p ob access AND RESERVED_ALL = 0) \<and>
     (\<forall>token p access granted. e_token_check env token p access = Some granted \<longrightarrow> granted AND RESERVED_ALL = 0)"

lemma alloc_handle_spec:
  assumes k: "kinv x s" and ob: "obj_at s p = Some ob" "refcount ob < INT_MAX" and g: "grants_ok env"
  shows "\<exists>s' h. alloc_handle env process p access attr s = Some (s', h) \<and>
                allocated x process p (\<lambda>b. True) s s' h"
proof -
  let ?a = "map_obj_access env p ob access AND NOT RESERVED_ALL"
  show ?thesis
  proof (cases "?a = 0")
    case True
    then show ?thesis using ob(1) allocated_fail [OF k] by (simp add: alloc_handle_def)
  next
    case False
    obtain s1 r where c: "check_object_access env None p ob ?a s = (s1, r)" by fastforce
    show ?thesis
    proof (cases r)
      case None
      then have "s1 = set_error STATUS_ACCESS_DENIED s"
        using c by (auto simp: check_object_access_def Let_def split: if_splits option.splits)
      then show ?thesis using None False ob(1) c allocated_fail [OF k] by (simp add: alloc_handle_def Let_def)
    next
      case (Some b)
      then have "s1 = s" and "b AND RESERVED_ALL = 0"
        using c g and_not_reserved [of "map_obj_access env p ob access"]
        by (auto simp: check_object_access_def Let_def grants_ok_def split: if_splits option.splits)
      then show ?thesis
        using alloc_handle_entry_spec [OF k ob, of b env process attr] False ob(1) c Some
        by (auto simp: alloc_handle_def Let_def intro: allocated_mono)
    qed
  qed
qed

end
