(* ===== verification/Handle_Dup.thy ===== *)
theory Handle_Dup
  imports Handle_Reqs
begin

text \<open>
  \<open>duplicate_handle\<close> and the requests of \<open>server/handle.c\<close> that are built from several operations.
\<close>

section \<open>Pseudo-handles are not in the tables\<close>

lemma hlookup_bound:
  assumes "kinv x s" "hlookup s process handle = Some (w, i, p, a)"
  shows "i < MAX_HANDLE_ENTRIES"
proof -
  have sl: "slots s w i = Some (p, a)" using hlookup_Some [OF assms(2)] by blast
  then obtain t where t: "table_at s w = Some t" "slot t i = Some (p, a)"
    by (auto simp: slots_def split: option.splits)
  show ?thesis
    using slot_bound [OF wf_tableD(1) [OF kinvD(3) [OF assms(1) t(1)]], of i] t(2) by simp
qed

lemma magic_not_in_table:
  assumes "kinv x s" "get_magic_handle env handle = Some q"
  shows "hlookup s process handle = None"
proof (rule ccontr)
  assume "hlookup s process handle \<noteq> None"
  then obtain w i p a where h: "hlookup s process handle = Some (w, i, p, a)" by (metis option.exhaust prod.exhaust)
  have "handle \<in> set [0xfffffffa, 0xfffffffb, 0xfffffffc, 0xfffffffe, 0x7fffffff, 0xffffffff]"
    using assms(2) by (auto simp: get_magic_handle_def split: if_splits)
  then have "\<not> handle_is_global handle \<and> handle_to_index handle \<ge> int MAX_HANDLE_ENTRIES"
    by (elim set_ConsD [elim_format] disjE) (simp_all add: handle_is_global_def handle_to_index_def
        HANDLE_OBFUSCATOR_def MAX_HANDLE_ENTRIES_def)
  then show False using hlookup_Some [OF h] hlookup_bound [OF assms(1) h] by auto
qed

lemma hlookup_0 [simp]: "hlookup s process 0 = None"
  by (simp add: hlookup_def handle_is_global_def handle_to_index_def HANDLE_OBFUSCATOR_def
      MAX_HANDLE_ENTRIES_def Let_def)

lemma hlookup_upd:
  assumes "hlookup s process handle = Some (w, i, p, a)" "slots s' = (slots s)(w := (slots s w)(i \<mapsto> (q, b)))"
  shows "hlookup s' process handle = Some (w, i, q, b)"
  using assms hlookup_Some [OF assms(1)] by (auto simp: hlookup_def Let_def split: if_splits)

lemma new_flags_rights: "new_flags msk flags a AND NOT RESERVED_ALL = a AND NOT RESERVED_ALL"
  by (rule bit_eqI) (auto simp: new_flags_def bit_and_iff bit_or_iff bit_not_iff)

section \<open>Duplication\<close>

lemma dup_check_spec:
  assumes "obj_at s p = Some ob"
  shows "\<exists>s' r. dup_check env (Some d) p access s = Some (s', r) \<and> (r \<noteq> None \<longrightarrow> s' = s) \<and>
                obj_at s' = obj_at s \<and> procs s' = procs s \<and> global_table s' = global_table s"
proof -
  obtain s1 r1 where c1: "(if e_thread_token env = None then (s, Some access)
      else check_object_access env (e_thread_token env) p ob access s) = (s1, r1)" by fastforce
  have f1: "obj_at s1 = obj_at s" "procs s1 = procs s" "global_table s1 = global_table s" "r1 \<noteq> None \<Longrightarrow> s1 = s"
    using c1 check_object_access_frame [of env "e_thread_token env" p ob access s s1 r1] by (auto split: if_splits)
  show ?thesis
  proof (cases r1)
    case None
    then show ?thesis using assms c1 f1 by (simp add: dup_check_def)
  next
    case (Some b)
    obtain s2 r2 where c2: "check_object_access env (e_token_of env d) p ob b s1 = (s2, r2)" by fastforce
    show ?thesis
      using assms c1 Some c2 f1 check_object_access_frame [OF c2] by (auto simp: dup_check_def)
  qed
qed

text \<open>
  The handle that the allocation step returns denotes the object, with exactly the rights asked for
  when these are no more than the source has.
\<close>

definition duplicated ::
  "(nat \<Rightarrow> nat) \<Rightarrow> nat \<Rightarrow> nat \<Rightarrow> (u32 \<Rightarrow> bool) \<Rightarrow> kstate \<Rightarrow> kstate \<Rightarrow> u32 \<Rightarrow> bool" where
  "duplicated x d p R s s' res \<longleftrightarrow>
     kinv x s' \<and>
     (if res = 0 then slots s' = slots s
      else \<exists>w i a. hlookup s' d res = Some (w, i, p, a) \<and> R (a AND NOT RESERVED_ALL))"

lemma allocated_duplicated:
  "allocated x d p R s s' res \<Longrightarrow> duplicated x d p R s s' res \<and> (\<forall>q. rcount s' q \<le> rcount s q + 1)"
  by (auto simp: allocated_def duplicated_def split: if_splits)

lemma duplicated_cong: "duplicated x d p R s s' res \<Longrightarrow> (\<And>b. R b \<Longrightarrow> R' b) \<Longrightarrow> duplicated x d p R' s s' res"
  by (auto simp: duplicated_def split: if_splits)

lemma dup_alloc_spec:
  assumes k: "kinv x s" and ob: "obj_at s p = Some ob" "refcount ob < INT_MAX"
    and same: "case hlookup s src h of Some (w, i, q, a) \<Rightarrow> q = p | None \<Rightarrow> True"
    and ng: "options AND DUPLICATE_MAKE_GLOBAL = 0" and a: "access AND RESERVED_ALL = 0"
  shows "\<exists>s' res. dup_alloc env src h (Some d) p (hlookup s src h) sa access attr options s = Some (s', res) \<and>
           duplicated x d p (\<lambda>b. access AND NOT sa = 0 \<longrightarrow> b = access) s s' res \<and>
           (\<forall>q. rcount s' q \<le> rcount s q + 1)"
proof (cases "access AND NOT sa = 0")
  case False
  obtain s1 r where c: "dup_check env (Some d) p access s = Some (s1, r)" "r \<noteq> None \<Longrightarrow> s1 = s"
      "obj_at s1 = obj_at s" "procs s1 = procs s" "global_table s1 = global_table s"
    using dup_check_spec [OF ob(1), of env d access] by blast
  show ?thesis
  proof (cases r)
    case None
    have "duplicated x d p R s s1 0 \<and> (\<forall>q. rcount s1 q \<le> rcount s q + 1)" for R
      using kinv_cong [OF k c(3-5)] slots_cong [OF c(4,5)] rcount_objs [OF c(3)] by (simp add: duplicated_def)
    then show ?thesis using None c(1) False by (simp add: dup_alloc_def)
  next
    case (Some b)
    then show ?thesis
      using alloc_handle_no_access_check_spec [OF k ob, of env d b attr] c False ng
      by (auto simp: dup_alloc_def dest!: allocated_duplicated intro: duplicated_cong)
  qed
next
  case True
  show ?thesis
  proof (cases "\<exists>w i q b. hlookup s src h = Some (w, i, q, b) \<and> options AND DUPLICATE_CLOSE_SOURCE \<noteq> 0 \<and>
                  d = src \<and> b AND RESERVED_CLOSE_PROTECT = 0")
    case in_place: True
    then obtain w i q b where hl: "hlookup s src h = Some (w, i, q, b)"
      and c: "options AND DUPLICATE_CLOSE_SOURCE \<noteq> 0" "d = src" "b AND RESERVED_CLOSE_PROTECT = 0" by blast
    have q: "q = p" using same hl by simp
    have h: "h \<noteq> 0" using hl by (intro notI) simp
    have i: "slots s w i = Some (p, b)" using hlookup_Some [OF hl] q by blast
    let ?a = "if attr AND OBJ_INHERIT \<noteq> 0 then access OR RESERVED_INHERIT else access"
    note sa = set_access_kinv [OF k i, of ?a]
    have "hlookup (set_access w i p ?a s) src h = Some (w, i, p, ?a)" by (rule hlookup_upd [OF hl sa(2)])
    then have "duplicated x d p (\<lambda>b. b = access) s (set_access w i p ?a s) h \<and>
               (\<forall>q. rcount (set_access w i p ?a s) q \<le> rcount s q + 1)"
      using sa rcount_objs [OF sa(3)] strip_reserved [OF a] c(2) h
      by (auto simp: duplicated_def)
    then show ?thesis
      using True hl q c ng by (auto simp: dup_alloc_def Let_def intro: duplicated_cong)
  next
    case False
    then have "dup_alloc env src h (Some d) p (hlookup s src h) sa access attr options s =
        alloc_handle_entry env d p access attr s"
      using True ng by (auto simp: dup_alloc_def split: option.splits)
    then show ?thesis
      using alloc_handle_entry_spec [OF k ob a, of env d attr]
      by (auto dest!: allocated_duplicated intro: duplicated_cong)
  qed
qed


definition src_rights :: "kenv \<Rightarrow> kstate \<Rightarrow> nat \<Rightarrow> u32 \<Rightarrow> u32 \<Rightarrow> bool" where
  "src_rights env s src h b \<longleftrightarrow>
     (case hlookup s src h of
        Some (w, i, p, a) \<Rightarrow> b = a AND NOT RESERVED_ALL
      | None \<Rightarrow> (\<exists>p ob. get_magic_handle env h = Some p \<and> obj_at s p = Some ob \<and>
                         b = map_obj_access env p ob GENERIC_ALL AND NOT RESERVED_ALL))"

lemma map_obj_access_ops: "ops ob' = ops ob \<Longrightarrow> map_obj_access env p ob' a = map_obj_access env p ob a"
  by (simp add: map_obj_access_def default_map_access_def split: option.split)

text \<open>The last step of \<open>duplicate_handle\<close>: flags, then the temporary reference is dropped.\<close>

lemma dup_finish:
  assumes d: "duplicated (x(p := x p + 1)) d p R s s2 res"
  shows "\<exists>s3 s4. (if res \<noteq> 0 \<and> options AND DUPLICATE_SAME_ATTRIBUTES \<noteq> 0
            then do { d \<leftarrow> Some d; (s, old) \<leftarrow> set_handle_flags env d res (NOT 0) f s2; Some s }
            else Some s2) = Some s3 \<and> release_object env p s3 = Some s4 \<and>
           duplicated x d p R s s4 res \<and> (\<forall>q. rcount s4 q \<le> rcount s2 q)"
proof -
  have k2: "kinv (x(p := x p + 1)) s2" using d by (simp add: duplicated_def)
  obtain s3 where s3: "(if res \<noteq> 0 \<and> options AND DUPLICATE_SAME_ATTRIBUTES \<noteq> 0
            then do { d \<leftarrow> Some d; (s, old) \<leftarrow> set_handle_flags env d res (NOT 0) f s2; Some s }
            else Some s2) = Some s3" "duplicated (x(p := x p + 1)) d p R s s3 res" "obj_at s3 = obj_at s2"
  proof (cases "res \<noteq> 0 \<and> options AND DUPLICATE_SAME_ATTRIBUTES \<noteq> 0")
    case True
    obtain w i a where h: "hlookup s2 d res = Some (w, i, p, a)" "R (a AND NOT RESERVED_ALL)"
      using d True by (auto simp: duplicated_def)
    have m: "get_magic_handle env res = None"
      using magic_not_in_table [OF k2, of env res _ d] h(1) by (cases "get_magic_handle env res") auto
    obtain s3 old where f: "set_handle_flags env d res (NOT 0) f s2 = Some (s3, old)" "kinv (x(p := x p + 1)) s3"
        "obj_at s3 = obj_at s2" "slots s3 = (slots s2)(w := (slots s2 w)(i \<mapsto> (p, new_flags (NOT 0) f a)))"
      using set_handle_flags_spec [OF k2, of env d res "NOT 0" f] m h(1) by auto
    have "duplicated (x(p := x p + 1)) d p R s s3 res"
      using True f(2) hlookup_upd [OF h(1) f(4)] h(2) new_flags_rights [of "NOT 0" f a] by (auto simp: duplicated_def)
    then show thesis using that True f(1,3) by simp
  qed (use d that in auto)
  then have "kinv (x(p := x p + 1)) s3" by (simp add: duplicated_def)
  then obtain s4 where s4: "release_object env p s3 = Some s4" "kinv x s4" "slots s4 = slots s3" "released s3 s4"
    using release_kinv by blast
  have "hlookup s4 d res = hlookup s3 d res" by (rule hlookup_cong) (rule s4(3))
  then have "duplicated x d p R s s4 res" using s3(2) s4(2,3) by (auto simp: duplicated_def)
  moreover have "rcount s4 q \<le> rcount s2 q" for q
    using rcount_released [OF s4(4), of q] rcount_objs [OF s3(3)] by simp
  ultimately show ?thesis using s3(1) s4(1) by blast
qed

text \<open>After the object of the source handle has been found and referenced.\<close>

lemma dup_body:
  assumes k: "kinv (x(p := x p + 1)) s" and ob: "obj_at s p = Some ob" "refcount ob < INT_MAX"
    and same: "case hlookup s src h of Some (w, i, q, a) \<Rightarrow> q = p | None \<Rightarrow> True"
    and ng: "options AND DUPLICATE_MAKE_GLOBAL = 0" and a: "access AND RESERVED_ALL = 0"
  shows "\<exists>s2 res s3 s4.
           dup_alloc env src h (Some d) p (hlookup s src h) sa access attr options s = Some (s2, res) \<and>
           (if res \<noteq> 0 \<and> options AND DUPLICATE_SAME_ATTRIBUTES \<noteq> 0
            then do { d \<leftarrow> Some d; (s, old) \<leftarrow> set_handle_flags env d res (NOT 0) f s2; Some s }
            else Some s2) = Some s3 \<and> release_object env p s3 = Some s4 \<and>
           duplicated x d p (\<lambda>b. access AND NOT sa = 0 \<longrightarrow> b = access) s s4 res \<and>
           (\<forall>q. rcount s4 q \<le> rcount s q + 1)"
proof -
  obtain s2 res where s2: "dup_alloc env src h (Some d) p (hlookup s src h) sa access attr options s = Some (s2, res)"
      "duplicated (x(p := x p + 1)) d p (\<lambda>b. access AND NOT sa = 0 \<longrightarrow> b = access) s s2 res"
      "\<forall>q. rcount s2 q \<le> rcount s q + 1"
    using dup_alloc_spec [OF k ob same ng a, where env = env and d = d and sa = sa and attr = attr] by blast
  obtain s3 s4 where "(if res \<noteq> 0 \<and> options AND DUPLICATE_SAME_ATTRIBUTES \<noteq> 0
            then do { d \<leftarrow> Some d; (s, old) \<leftarrow> set_handle_flags env d res (NOT 0) f s2; Some s }
            else Some s2) = Some s3" "release_object env p s3 = Some s4"
      "duplicated x d p (\<lambda>b. access AND NOT sa = 0 \<longrightarrow> b = access) s s4 res"
      "\<forall>q. rcount s4 q \<le> rcount s2 q"
    using dup_finish [OF s2(2), of options env f] by blast
  then show ?thesis using s2(1,3) order_trans by blast
qed

lemma duplicate_handle_found:
  assumes k: "kinv x s" and m: "magic_ok env x" and r: "room 2 s"
    and ng: "options AND DUPLICATE_MAKE_GLOBAL = 0" and v: "obj_of_handle env s src h = Some (p, a)"
  shows "\<exists>s' res. duplicate_handle env src h (Some d) access attr options s = Some (s', res) \<and>
           (\<forall>q. rcount s' q \<le> rcount s q + 2) \<and>
           duplicated x d p (\<lambda>b. options AND DUPLICATE_SAME_ACCESS \<noteq> 0 \<longrightarrow> src_rights env s src h b) s s' res"
proof -
  obtain ob0 where ob0: "obj_at s p = Some ob0" using obj_of_handle_exists [OF k m v] by blast
  have r1: "room 1 s" by (rule room_mono [OF r]) simp
  define ob where "ob = ob0\<lparr>refcount := refcount ob0 + 1\<rparr>"
  obtain s1 where s1: "get_handle_obj env src h 0 None s = Some (s1, Some p)" "kinv (x(p := x p + 1)) s1"
      "slots s1 = slots s" "\<forall>q. rcount s1 q \<le> rcount s q + 1" "obj_at s1 = (obj_at s)(p \<mapsto> ob)"
    using get_handle_obj_spec [OF k m r1, of src h 0 None] v ob0 unfolding ob_def by (auto simp: obj_result_def)
  have ob: "obj_at s1 p = Some ob" using s1(5) by simp
  have rc: "refcount ob < INT_MAX"
    using r ob0 unfolding room_def ob_def by (drule_tac x = p in spec) (simp add: rcount_def)
  have hl: "hlookup s1 src h = hlookup s src h" by (rule hlookup_cong) (rule s1(3))
  have same: "case hlookup s1 src h of Some (w, i, q, a) \<Rightarrow> q = p | None \<Rightarrow> True"
    using v hl magic_not_in_table [OF k, of env h _ src]
    by (auto simp: obj_of_handle_def split: option.splits)
  define sa0 where "sa0 = (case hlookup s src h of Some (w, i, q, a) \<Rightarrow> a | None \<Rightarrow> map_obj_access env p ob GENERIC_ALL)"
  define sa where "sa = sa0 AND NOT RESERVED_ALL"
  define acc where "acc = (if options AND DUPLICATE_SAME_ACCESS \<noteq> 0 then sa
                           else map_obj_access env p ob access AND NOT RESERVED_ALL)"
  have acc: "acc AND RESERVED_ALL = 0" by (simp add: acc_def sa_def)
  obtain s2 res s3 s4 where s4: "dup_alloc env src h (Some d) p (hlookup s1 src h) sa acc attr options s1 = Some (s2, res)"
      "(if res \<noteq> 0 \<and> options AND DUPLICATE_SAME_ATTRIBUTES \<noteq> 0
        then do { d \<leftarrow> Some d; (s, old) \<leftarrow> set_handle_flags env d res (NOT 0)
                        (drop_bit RESERVED_SHIFT (sa0 AND RESERVED_ALL)) s2; Some s }
        else Some s2) = Some s3" "release_object env p s3 = Some s4"
      "duplicated x d p (\<lambda>b. acc AND NOT sa = 0 \<longrightarrow> b = acc) s1 s4 res" "\<forall>q. rcount s4 q \<le> rcount s1 q + 1"
    using dup_body [OF s1(2) ob rc same ng acc, where env = env and d = d and sa = sa and attr = attr
        and f = "drop_bit RESERVED_SHIFT (sa0 AND RESERVED_ALL)"]
    by blast
  have "src_rights env s src h sa"
    using v ob0 map_obj_access_ops [of ob ob0]
    by (auto simp: src_rights_def obj_of_handle_def sa_def sa0_def ob_def split: option.splits)
  then have "duplicated x d p (\<lambda>b. options AND DUPLICATE_SAME_ACCESS \<noteq> 0 \<longrightarrow> src_rights env s src h b) s s4 res"
    using s4(4) s1(3) by (auto simp: duplicated_def acc_def split: if_splits)
  moreover have "rcount s4 q \<le> rcount s q + 2" for q
    using s4(5) [rule_format, of q] s1(4) [rule_format, of q] by linarith
  moreover have "duplicate_handle env src h (Some d) access attr options s = Some (s4, res)"
    using s4(1-3) unfolding duplicate_handle_def s1(1)
    by (simp only: Option.bind.simps prod.case option.case ob get_handle_spec [OF s1(2)] Let_def hl
        flip: sa0_def sa_def acc_def)
  ultimately show ?thesis by blast
qed

end
