(* ===== verification/Handle_Requests.thy ===== *)
theory Handle_Requests
  imports Handle_Dup
begin

text \<open>
  Sequences of requests to \<open>server/handle.c\<close>: each request completes in a state that satisfies the
  invariant, and so does every request after it.
\<close>

lemma get_process_spec:
  assumes "kinv x s" "magic_ok env x" "room 1 s"
  obtains (fail) st where "get_process_from_handle env h access s = Some (set_error st s, None)"
  | (found) p s' where "get_process_from_handle env h access s = Some (s', Some p)" "kinv (x(p := x p + 1)) s'"
      "slots s' = slots s" "\<And>q. rcount s' q \<le> rcount s q + 1"
proof -
  let ?r = "obj_result env s (cur_proc env) h access (Some (e_process_ops env))"
  note g = get_handle_obj_spec [OF assms, of "cur_proc env" h access "Some (e_process_ops env)"]
  show thesis
  proof (cases ?r)
    case (Inl st)
    then show thesis using g fail by (simp add: get_process_from_handle_def)
  next
    case (Inr p)
    then show thesis using g found [of _ p] by (auto simp: get_process_from_handle_def)
  qed
qed

lemma close_handle_any:
  assumes "kinv x s" "\<not> handle_is_global h"
  obtains s' st where "close_handle env process h s = Some (s', st)" "kinv x s'"
  using close_handle_local [OF assms, of env process] by blast

text \<open>\<open>req_dup_handle\<close> after the source process is found.\<close>

lemma dup_tail:
  assumes k: "kinv (x(src := x src + 1)) s"
    and g: "options AND DUPLICATE_CLOSE_SOURCE \<noteq> 0 \<longrightarrow> \<not> handle_is_global h"
  shows "\<exists>s1 s2. (if options AND DUPLICATE_CLOSE_SOURCE \<noteq> 0 \<and> c
              then do { (s, st) \<leftarrow> close_handle env (e_proc env src) h s; Some s } else Some s) = Some s1 \<and>
           release_object env src s1 = Some s2 \<and> kinv x s2"
proof (cases "options AND DUPLICATE_CLOSE_SOURCE \<noteq> 0 \<and> c")
  case True
  then obtain s1 st where s1: "close_handle env (e_proc env src) h s = Some (s1, st)" "kinv (x(src := x src + 1)) s1"
    using close_handle_any [OF k, of h env "e_proc env src"] g by blast
  then show ?thesis using release_kinv [OF s1(2), of env] True by auto
next
  case False
  then show ?thesis using release_kinv [OF k, of env] by auto
qed

lemma dup_dst:
  assumes k: "kinv x s" and m: "magic_ok env x" and r: "room 3 s"
    and ng: "options AND DUPLICATE_MAKE_GLOBAL = 0"
  shows "\<exists>s' dst handle.
    do { (s, dst) \<leftarrow> get_process_from_handle env dst_process PROCESS_DUP_HANDLE s;
         (case dst of None \<Rightarrow> Some (s, None, 0)
          | Some d \<Rightarrow>
              do {
                (s, h) \<leftarrow> duplicate_handle env src h (Some (e_proc env d)) access attr options s;
                s \<leftarrow> release_object env d s;
                Some (s, Some d, h)
              }) } = Some (s', dst, handle) \<and> kinv x s'"
proof -
  have r1: "room 1 s" by (rule room_mono [OF r]) simp
  show ?thesis
  proof (cases rule: get_process_spec [OF k m r1, of dst_process PROCESS_DUP_HANDLE])
    case (1 st)
    then show ?thesis using k by simp
  next
    case (2 d s1)
    have r2: "room 2 s1" by (rule room_step [of 2 s]) (use r 2(4) in simp_all)
    have m1: "magic_ok env (x(d := x d + 1))" by (rule magic_mono) (rule m)
    obtain s2 res where s2: "duplicate_handle env src h (Some (e_proc env d)) access attr options s1 = Some (s2, res)"
        "kinv (x(d := x d + 1)) s2"
    proof (cases "obj_of_handle env s1 src h")
      case None
      have "room 1 s1" by (rule room_mono [OF r2]) simp
      then have "get_handle_obj env src h 0 None s1 = Some (set_error STATUS_INVALID_HANDLE s1, None)"
        using get_handle_obj_spec [OF 2(2) m1, of src h 0 None] None by (simp add: obj_result_def)
      then show thesis using that 2(2) by (simp add: duplicate_handle_def)
    next
      case (Some v)
      then show thesis
        using that duplicate_handle_found [OF 2(2) m1 r2 ng, of src h "fst v" "snd v" "e_proc env d" access attr]
        by (auto simp: duplicated_def)
    qed
    then show ?thesis using 2(1) release_kinv [OF s2(2), of env] by auto
  qed
qed

lemma req_dup_handle_ok:
  assumes k: "kinv x s" and m: "magic_ok env x" and r: "room 4 s"
    and ng: "options AND DUPLICATE_MAKE_GLOBAL = 0"
    and g: "options AND DUPLICATE_CLOSE_SOURCE \<noteq> 0 \<longrightarrow> \<not> handle_is_global h"
  shows "\<exists>s' res. req_dup_handle env src_process h dst_process access attr options s = Some (s', res) \<and> kinv x s'"
proof -
  have r1: "room 1 s" by (rule room_mono [OF r]) simp
  show ?thesis
  proof (cases rule: get_process_spec [OF k m r1, of src_process PROCESS_DUP_HANDLE])
    case (1 st)
    then show ?thesis using k by (simp add: req_dup_handle_def)
  next
    case (2 src s1)
    have r3: "room 3 s1" by (rule room_step [of 3 s]) (use r 2(4) in simp_all)
    have m1: "magic_ok env (x(src := x src + 1))" by (rule magic_mono) (rule m)
    obtain s2 dst res where s2: "do { (s, dst) \<leftarrow> get_process_from_handle env dst_process PROCESS_DUP_HANDLE s1;
         (case dst of None \<Rightarrow> Some (s, None, 0)
          | Some d \<Rightarrow>
              do {
                (s, h) \<leftarrow> duplicate_handle env (e_proc env src) h (Some (e_proc env d)) access attr options s;
                s \<leftarrow> release_object env d s;
                Some (s, Some d, h)
              }) } = Some (s2, dst, res)" "kinv (x(src := x src + 1)) s2"
      using dup_dst [OF 2(2) m1 r3 ng, where src = "e_proc env src" and h = h and access = access and attr = attr
          and dst_process = dst_process] by blast
    obtain s3 s4 where s4: "(if options AND DUPLICATE_CLOSE_SOURCE \<noteq> 0 \<and> (dst \<noteq> Some src \<or> h \<noteq> res)
              then do { (s, st) \<leftarrow> close_handle env (e_proc env src) h s2; Some s } else Some s2) = Some s3"
        "release_object env src s3 = Some s4" "kinv x s4"
      using dup_tail [OF s2(2) g, where c = "dst \<noteq> Some src \<or> h \<noteq> res" and env = env] by blast
    have "req_dup_handle env src_process h dst_process access attr options s = Some (s4, res)"
      unfolding req_dup_handle_def 2(1)
      by (simp only: Option.bind.simps prod.case option.case ng s2(1) s4(1,2) if_False simp_thms)
    then show ?thesis using s4(3) by blast
  qed
qed


section \<open>The other requests\<close>

lemma get_object_spec:
  assumes "kinv x s" "magic_ok env x" "room 1 s"
  obtains (fail) st where "get_handle_obj env process h access op s = Some (set_error st s, None)"
  | (found) p ob s' where "get_handle_obj env process h access op s = Some (s', Some p)"
      "kinv (x(p := x p + 1)) s'" "slots s' = slots s" "obj_at s' p = Some ob"
      "\<And>q. rcount s' q \<le> rcount s q + 1"
proof -
  note g = get_handle_obj_spec [OF assms, of process h access op]
  show thesis
  proof (cases "obj_result env s process h access op")
    case (Inr p)
    then show thesis using g found [of _ p] by auto
  qed (use g fail in simp)
qed

lemma get_handle_access_total: "kinv x s \<Longrightarrow> \<exists>a. get_handle_access env process h s = Some a"
  by (auto simp: get_handle_access_def get_handle_spec)

lemma req_get_object_info_ok:
  assumes k: "kinv x s" and "magic_ok env x" "room 1 s"
  shows "\<exists>s' r. req_get_object_info env h s = Some (s', r) \<and> kinv x s'"
proof (cases rule: get_object_spec [OF assms, of "cur_proc env" h 0 None])
  case (2 p ob s1)
  obtain a where "get_handle_access env (cur_proc env) h s1 = Some a"
    using get_handle_access_total [OF 2(2)] by blast
  then show ?thesis using 2(1,4) release_kinv [OF 2(2), of env] by (auto simp: req_get_object_info_def)
qed (use k in \<open>simp add: req_get_object_info_def\<close>)

lemma req_compare_objects_ok:
  assumes k: "kinv x s" and m: "magic_ok env x" and r: "room 2 s"
  shows "\<exists>s'. req_compare_objects env h1 h2 s = Some s' \<and> kinv x s'"
proof -
  have r1: "room 1 s" by (rule room_mono [OF r]) simp
  show ?thesis
  proof (cases rule: get_object_spec [OF k m r1, of "cur_proc env" h1 0 None])
    case (1 st)
    then show ?thesis using k by (simp add: req_compare_objects_def)
  next
    case (2 p1 ob1 s1)
    have ra: "room 1 s1" by (rule room_step [of 1 s]) (use r 2(5) in \<open>simp_all add: numeral_2_eq_2\<close>)
    show ?thesis
    proof (cases rule: get_object_spec [OF 2(2) magic_mono [OF m] ra, of "cur_proc env" h2 0 None])
      case (1 st)
      then show ?thesis
        using 2(1) release_kinv [of x p1 "set_error st s1" env] kinv_set_error [OF 2(2), of st] by (auto simp: req_compare_objects_def)
    next
      case (2 p2 ob2 s2)
      let ?s = "if p1 \<noteq> p2 then set_error STATUS_NOT_SAME_OBJECT s2 else s2"
      obtain s3 where s3: "release_object env p2 ?s = Some s3" "kinv (x(p1 := x p1 + 1)) s3"
        using release_kinv [of "x(p1 := x p1 + 1)" p2 ?s env] 2(2) by (auto split: if_splits)
      obtain s4 where "release_object env p1 s3 = Some s4" "kinv x s4"
        using release_kinv [OF s3(2), of env] by blast
      then show ?thesis
        using \<open>get_handle_obj env (cur_proc env) h1 0 None s = Some (s1, Some p1)\<close> 2(1) s3(1)
        by (simp only: req_compare_objects_def Option.bind.simps prod.case option.case Let_def) blast
    qed
  qed
qed


text \<open>Making an object permanent uses up a reference, making it temporary gives one back.\<close>

lemma permanent_kinv:
  assumes k: "kinv (x(p := x p + 1)) s" and ob: "obj_at s p = Some ob" "\<not> is_permanent ob"
  shows "\<exists>s'. make_object_permanent p s = Some s' \<and> kinv x s'"
proof -
  let ?s = "set_obj p (ob\<lparr>is_permanent := True\<rparr>) s"
  have "refs_ok x ?s"
    using refs_okD(2) [OF kinvD(1) [OF k], of p] ob
    by (intro refs_ok_set_obj [OF kinvD(1) [OF k] ob(1)]) (simp_all add: rcount_def hcount_def held_def)
  moreover have "zombies ?s = {}" using kinvD(2) [OF k] ob by (auto simp: zombies_def split: if_splits)
  ultimately have "kinv x ?s"
    using kinvD(3) [OF k] table_at_cong [of ?s s] by (simp add: kinv_def)
  then show ?thesis using ob by (simp add: make_object_permanent_def)
qed

lemma temporary_kinv:
  assumes k: "kinv x s" and ob: "obj_at s p = Some ob" "is_permanent ob"
  shows "\<exists>s'. make_object_temporary p s = Some s' \<and> kinv (x(p := x p + 1)) s'"
proof -
  let ?s = "set_obj p (ob\<lparr>is_permanent := False\<rparr>) s"
  have "refs_ok (x(p := x p + 1)) ?s"
    using refs_okD(2) [OF kinvD(1) [OF k], of p] ob
    by (intro refs_ok_set_obj [OF kinvD(1) [OF k] ob(1)]) (simp_all add: rcount_def hcount_def held_def)
  moreover have "zombies ?s = {}" using kinvD(2) [OF k] ob by (auto simp: zombies_def split: if_splits)
  ultimately have "kinv (x(p := x p + 1)) ?s"
    using kinvD(3) [OF k] table_at_cong [of ?s s] by (simp add: kinv_def)
  then show ?thesis using ob by (simp add: make_object_temporary_def)
qed

lemma req_set_object_permanence_ok:
  assumes k: "kinv x s" and m: "magic_ok env x" and r: "room 2 s"
  shows "\<exists>s'. req_set_object_permanence env h permanent s = Some s' \<and> kinv x s'"
proof -
  have r1: "room 1 s" by (rule room_mono [OF r]) simp
  let ?a = "if permanent then 0 else DELETE"
  show ?thesis
  proof (cases rule: get_object_spec [OF k m r1, of "cur_proc env" h ?a None])
    case (1 st)
    then show ?thesis using k by (simp add: req_set_object_permanence_def)
  next
    case (2 p ob s1)
    let ?step = "(if permanent \<and> \<not> is_permanent ob then do { s \<leftarrow> grab_object p s1; make_object_permanent p s }
                 else if \<not> permanent \<and> is_permanent ob then do { s \<leftarrow> make_object_temporary p s1; release_object env p s }
                 else Some s1)"
    have "refcount ob < INT_MAX"
      using roomD [OF room_step [of 1 s s1] 2(4)] r 2(5) by (simp add: numeral_2_eq_2)
    then obtain sg where sg: "grab_object p s1 = Some sg" "kinv ((x(p := x p + 1))(p := (x(p := x p + 1)) p + 1)) sg"
        "obj_at sg p = Some (ob\<lparr>refcount := refcount ob + 1\<rparr>)"
      using grab_kinv [OF 2(2,4)] by force
    obtain s2 where s2: "?step = Some s2" "kinv (x(p := x p + 1)) s2"
    proof (cases "is_permanent ob = permanent")
      case True
      then show thesis using that [of s1] 2(2) by auto
    next
      case False
      show thesis
      proof (cases permanent)
        case True
        then show thesis using that permanent_kinv [OF sg(2,3)] sg(1) False by auto
      next
        case nperm: False
        then obtain st where st: "make_object_temporary p s1 = Some st"
            "kinv ((x(p := x p + 1))(p := (x(p := x p + 1)) p + 1)) st"
          using temporary_kinv [OF 2(2,4)] False by auto
        then show thesis using that release_kinv [OF st(2), of env] nperm False by auto
      qed
    qed
    obtain s3 where "release_object env p s2 = Some s3" "kinv x s3" using release_kinv [OF s2(2), of env] by blast
    then show ?thesis
      using 2(1,4) s2(1)
      by (simp only: req_set_object_permanence_def Option.bind.simps prod.case option.case Let_def) blast
  qed
qed

section \<open>Sequences of requests\<close>

datatype hreq =
    CloseHandle u32
  | SetHandleInfo u32 u32 u32
  | DupHandle u32 u32 u32 u32 u32 u32
  | GetObjectInfo u32
  | SetObjectPermanence u32 bool
  | CompareObjects u32 u32

fun run_req :: "kenv \<Rightarrow> hreq \<Rightarrow> kstate \<Rightarrow> kstate option" where
  "run_req env (CloseHandle h) s = req_close_handle env h s"
| "run_req env (SetHandleInfo h m f) s = map_option fst (req_set_handle_info env h m f s)"
| "run_req env (DupHandle src h dst a attr opt) s = map_option fst (req_dup_handle env src h dst a attr opt s)"
| "run_req env (GetObjectInfo h) s = map_option fst (req_get_object_info env h s)"
| "run_req env (SetObjectPermanence h b) s = req_set_object_permanence env h b s"
| "run_req env (CompareObjects h1 h2) s = req_compare_objects env h1 h2 s"

text \<open>Requests that do not close or make global handles.\<close>

fun local_req :: "hreq \<Rightarrow> bool" where
  "local_req (CloseHandle h) \<longleftrightarrow> \<not> handle_is_global h"
| "local_req (DupHandle src h dst a attr opt) \<longleftrightarrow>
     opt AND DUPLICATE_MAKE_GLOBAL = 0 \<and> (opt AND DUPLICATE_CLOSE_SOURCE \<noteq> 0 \<longrightarrow> \<not> handle_is_global h)"
| "local_req _ \<longleftrightarrow> True"

lemma run_req_ok:
  assumes k: "kinv x s" and m: "magic_ok env x" and r: "room 4 s" and l: "local_req q"
  shows "\<exists>s'. run_req env q s = Some s' \<and> kinv x s'"
proof (cases q)
  case (CloseHandle h)
  then obtain s' st where "close_handle env (cur_proc env) h s = Some (s', st)" "kinv x s'"
    using close_handle_any [OF k, of h env "cur_proc env"] l by auto
  then show ?thesis using CloseHandle by (simp add: req_close_handle_def)
next
  case (SetHandleInfo h m f)
  then show ?thesis
    using set_handle_flags_spec [OF k, of env "cur_proc env" h m f] by (auto simp: req_set_handle_info_def)
next
  case (DupHandle src h dst a attr opt)
  then show ?thesis
    using req_dup_handle_ok [OF k m r, of opt h src dst a attr] l by auto
next
  case (GetObjectInfo h)
  then show ?thesis using req_get_object_info_ok [OF k m room_mono [OF r], of h] by auto
next
  case (SetObjectPermanence h b)
  then show ?thesis using req_set_object_permanence_ok [OF k m room_mono [OF r], of h b] by simp
next
  case (CompareObjects h1 h2)
  then show ?thesis using req_compare_objects_ok [OF k m room_mono [OF r], of h1 h2] by simp
qed

text \<open>The states that the server reaches; the current thread may change between requests.\<close>

inductive serves :: "(nat \<Rightarrow> nat) \<Rightarrow> kstate \<Rightarrow> kstate \<Rightarrow> bool" where
  start: "serves x s s"
| request: "serves x s s1 \<Longrightarrow> magic_ok env x \<Longrightarrow> room 4 s1 \<Longrightarrow> local_req q \<Longrightarrow> run_req env q s1 = Some s2 \<Longrightarrow>
    serves x s s2"

lemma serves_kinv: "serves x s s' \<Longrightarrow> kinv x s \<Longrightarrow> kinv x s'"
proof (induction rule: serves.induct)
  case (request x s s1 env q s2)
  then show ?case using run_req_ok [of x s1 env q] by auto
qed

end
