(* ===== verification/Handle_Process.thy ===== *)
theory Handle_Process
  imports Handle_Requests
begin

text \<open>
  Whole tables of \<open>server/handle.c\<close>: what a child process inherits, the end of a process, and the
  enumeration of all handles.
\<close>

section \<open>Entries of a table that is not in the state\<close>

definition eref :: "handle_entry option list \<Rightarrow> nat \<Rightarrow> nat" where
  "eref es p = length (filter (\<lambda>e. e \<bind> ptr = Some p) es)"

lemma eref_simps [simp]:
  "eref [] p = 0" "eref (e # es) p = of_bool (e \<bind> ptr = Some p) + eref es p"
  by (simp_all add: eref_def)

abbreviation used :: "handle_table \<Rightarrow> handle_entry option list" where
  "used t \<equiv> take (nat (tlast t + 1)) (entries t)"

lemma used_Some: "wf_bounds t \<Longrightarrow> None \<notin> set (used t)"
  using wf_boundsD(4,5) [of t] by (auto simp: in_set_conv_nth)

lemma slot_used:
  assumes "wf_bounds t"
  shows "slot t i = Some (p, a) \<longleftrightarrow> i < length (used t) \<and> (\<exists>e. used t ! i = Some e \<and> ptr e = Some p \<and> hacc e = a)"
proof -
  have len: "length (used t) = nat (tlast t + 1)" using wf_boundsD(4) [OF assms] by simp
  show ?thesis
  proof (cases "int i \<le> tlast t")
    case True
    then obtain e where "entries t ! i = Some e" "slot t i = map_option (\<lambda>p. (p, hacc e)) (ptr e)"
      using slot_read [OF assms] by metis
    then show ?thesis using True len by auto
  next
    case False
    then have "slot t i = None" by (intro wf_boundsD(6) [OF assms]) simp
    then show ?thesis using False len by auto
  qed
qed

lemma refs_in_used: "wf_bounds t \<Longrightarrow> refs_in (slot t) p = eref (used t) p"
proof -
  assume b: "wf_bounds t"
  have "{i. \<exists>a. slot t i = Some (p, a)} = {i. i < length (used t) \<and> (used t ! i \<bind> ptr = Some p)}"
    using slot_used [OF b] by (auto simp: bind_eq_Some_conv)
  then show ?thesis by (simp only: refs_in_def eref_def length_filter_conv_card)
qed

lemma count_entries_eq: "None \<notin> set es \<Longrightarrow> count_entries p es = Some (eref es p)"
proof (induction es)
  case (Cons e es)
  then show ?case by (cases e) auto
qed simp

section \<open>The end of a process\<close>

lemma released_refl [simp]: "released s s"
  by (auto simp: released_def)

lemma released_trans: "released s s1 \<Longrightarrow> released s1 s2 \<Longrightarrow> released s s2"
proof -
  assume a: "released s s1" "released s1 s2"
  have "\<exists>ob. obj_at s q = Some ob \<and> ops ob' = ops ob \<and> has_sd ob' = has_sd ob" if "obj_at s2 q = Some ob'" for q ob'
    using a that unfolding released_def by metis
  moreover have "rcount s2 q \<le> rcount s q" for q
    using rcount_released [OF a(1), of q] rcount_released [OF a(2), of q] by simp
  ultimately show ?thesis using a unfolding released_def by auto
qed

lemma release_from_handle_g:
  assumes r: "refs_okg (v(p := v p + 1)) x s"
  shows "\<exists>s'. release_object_from_handle env p s = Some s' \<and> refs_okg v x s' \<and> released s s'"
proof -
  have "0 < hcount s p" using refs_okgD(1) [OF r, of p] by simp
  then obtain ob where ob: "obj_at s p = Some ob" "0 < handle_count ob"
    by (auto simp: hcount_def split: option.splits)
  obtain s1 where s1: "release_object_from_handle env p s = release_object env p s1"
      "obj_at s1 = (obj_at s)(p \<mapsto> ob\<lparr>handle_count := handle_count ob - 1\<rparr>)"
      "procs s1 = procs s" "global_table s1 = global_table s" "err s1 = err s"
    using ob by (simp add: release_object_from_handle_def set_obj_def Let_def fun_eq_iff)
  have "par s1 = par s" using s1(2) ob by (auto simp: par_def fun_eq_iff)
  then have ch: "children s1 = children s" by (rule par_same_children)
  have "hcount s1 q = handles_to s1 q + v q \<and> hcount s1 q + held s1 q + children s1 q + (x(p := x p + 1)) q \<le> rcount s1 q" for q
    using refs_okgD [OF r, of q] s1(2) ob ch handles_to_cong [OF s1(3,4)]
    by (cases "q = p") (simp_all add: hcount_def held_def rcount_def)
  then have "refs_okg v (x(p := x p + 1)) s1" unfolding refs_okg_def by blast
  then obtain s' where "release_object env p s1 = Some s'" "refs_okg v x s'" "released s1 s'"
    using release_spec_g by blast
  moreover have "released s s1"
    using s1(2-5) ob by (auto simp: released_def zombies_def rcount_def split: if_splits)
  ultimately show ?thesis using s1(1) released_trans by metis
qed

lemma destroy_entries_ok:
  assumes "refs_okg (\<lambda>p. v p + eref es p) x s" "None \<notin> set es"
  shows "\<exists>s'. destroy_entries env es s = Some s' \<and> refs_okg v x s' \<and> released s s'"
  using assms
proof (induction es arbitrary: s)
  case (Cons e es)
  then obtain e' where e: "e = Some e'" by (cases e) auto
  show ?case
  proof (cases "ptr e'")
    case None
    then show ?thesis using Cons e by simp
  next
    case (Some p)
    have "(\<lambda>q. v q + eref (e # es) q) = (\<lambda>q. v q + eref es q)(p := (v p + eref es p) + 1)"
      using e Some by (auto simp: fun_eq_iff)
    then obtain s1 where s1: "release_object_from_handle env p s = Some s1" "refs_okg (\<lambda>q. v q + eref es q) x s1"
        "released s s1"
      using release_from_handle_g [of "\<lambda>q. v q + eref es q" p x s env] Cons.prems(1) by auto
    obtain s2 where "destroy_entries env es s1 = Some s2" "refs_okg v x s2" "released s1 s2"
      using Cons.IH [OF s1(2)] Cons.prems(2) by auto
    then show ?thesis using e Some s1(1) released_trans [OF s1(3)] by simp
  qed
qed simp

lemma close_process_handles_ok:
  assumes k: "kinv x s"
  shows "\<exists>s'. close_process_handles env process s = Some s' \<and> kinv x s' \<and> slots s' = (slots s)(Proc process := Map.empty)"
proof (cases "table_at s (Proc process)")
  case None
  then have "slots s = (slots s)(Proc process := Map.empty)" by (auto simp: slots_def)
  then show ?thesis using None k by (simp add: close_process_handles_def)
next
  case (Some t)
  let ?w = "Proc process"
  have b: "wf_bounds t" using wf_tableD(1) [OF kinvD(3) [OF k Some]] .
  have w: "?w \<in> tabs s" using Some by (intro table_at_tabs) simp
  let ?s = "set_table ?w None s"
  have sl: "slots s ?w = slot t" using Some by (simp add: slots_def)
  have h: "handles_to s q = handles_to ?s q + eref (used t) q" for q
    using handles_to_change [OF w tabs_set slots_set_None [OF w], of q] refs_in_used [OF b, of q] sl by simp
  have c: "hcount ?s = hcount s" "rcount ?s = rcount s" "held ?s = held s" "children ?s = children s"
    by (simp_all add: hcount_def rcount_def held_def par_def children_def fun_eq_iff)
  have "refs_okg (\<lambda>q. 0 + eref (used t) q) x ?s"
    using refs_okD [OF kinvD(1) [OF k]] h c unfolding refs_okg_def by simp
  then obtain s' where s': "destroy_entries env (used t) ?s = Some s'" "refs_okg (\<lambda>_. 0) x s'" "released ?s s'"
    using destroy_entries_ok [of "\<lambda>_. 0" "used t" x ?s env] used_Some [OF b] by auto
  have "zombies ?s = {}" using kinvD(2) [OF k] by (simp add: zombies_def)
  moreover have "\<And>w' t'. table_at ?s w' = Some t' \<Longrightarrow> wf_table t'"
    using kinvD(3) [OF k] w by (auto split: if_splits)
  ultimately have "kinv x s'" "slots s' = slots ?s"
    using kinv_released [OF s'(2) [folded refs_ok_g] s'(3)] by blast+
  then show ?thesis
    using Some s'(1) slots_set_None [OF w] by (simp add: close_process_handles_def handle_table_destroy_def)
qed


section \<open>Inheritance\<close>

lemma grab_for_handle_g:
  assumes r: "refs_okg v x s" and ob: "obj_at s p = Some ob" "refcount ob < INT_MAX"
  shows "\<exists>s'. grab_object_for_handle env p s = Some s' \<and> refs_okg (v(p := v p + 1)) x s' \<and>
              procs s' = procs s \<and> global_table s' = global_table s \<and> zombies s' \<subseteq> zombies s \<and>
              (\<forall>q. rcount s' q \<le> rcount s q + 1) \<and> fmdom' (objs s') = fmdom' (objs s)"
proof -
  let ?ob = "ob\<lparr>refcount := refcount ob + 1, handle_count := handle_count ob + 1\<rparr>"
  obtain s1 where s1: "grab_object_for_handle env p s = Some s1" "procs s1 = procs s"
      "global_table s1 = global_table s" "obj_at s1 = (obj_at s)(p \<mapsto> ?ob)"
    using ob by (simp add: grab_object_for_handle_def grab_object_def set_obj_def Let_def fun_eq_iff)
  have "par s1 = par s" using s1(4) ob by (auto simp: par_def fun_eq_iff)
  then have ch: "children s1 = children s" by (rule par_same_children)
  have "hcount s1 q = handles_to s1 q + (v(p := v p + 1)) q \<and>
        hcount s1 q + held s1 q + children s1 q + x q \<le> rcount s1 q" for q
    using refs_okgD [OF r, of q] s1(4) ob ch handles_to_cong [OF s1(2,3)]
    by (cases "q = p") (simp_all add: hcount_def held_def rcount_def)
  then have "refs_okg (v(p := v p + 1)) x s1" unfolding refs_okg_def by blast
  moreover have "zombies s1 \<subseteq> zombies s" "\<forall>q. rcount s1 q \<le> rcount s q + 1"
    using s1(4) ob by (auto simp: zombies_def rcount_def split: if_splits)
  moreover have "fmdom' (objs s1) = fmdom' (objs s)"
    using s1(4) ob by (auto simp: fmlookup_dom'_iff split: if_splits)
  ultimately show ?thesis using s1(1-3) by blast
qed

text \<open>An entry that is not inheritable becomes free in the child.\<close>

definition inherited :: "handle_entry \<Rightarrow> handle_entry" where
  "inherited e = (if hacc e AND RESERVED_INHERIT \<noteq> 0 then e else e\<lparr>ptr := None\<rparr>)"

lemma inherit_entries_ok:
  assumes "refs_okg v x s" "None \<notin> set es" "room (length es) s"
    and "\<forall>e\<in>set es. \<forall>p. e \<bind> ptr = Some p \<longrightarrow> p \<in> fmdom' (objs s)"
  shows "\<exists>s'. inherit_entries env es s = Some (map (map_option inherited) es, s') \<and>
              refs_okg (\<lambda>p. v p + eref (map (map_option inherited) es) p) x s' \<and>
              procs s' = procs s \<and> global_table s' = global_table s \<and> zombies s' \<subseteq> zombies s"
  using assms
proof (induction es arbitrary: v s)
  case (Cons e es)
  then obtain e' where e: "e = Some e'" by (cases e) auto
  have r: "room (length es) s" by (rule room_mono [OF Cons.prems(3)]) simp
  consider (free) "ptr e' = None" | (skip) p where "ptr e' = Some p" "hacc e' AND RESERVED_INHERIT = 0"
    | (keep) p where "ptr e' = Some p" "hacc e' AND RESERVED_INHERIT \<noteq> 0" by blast
  then show ?case
  proof cases
    case free
    then have i: "inherited e' = e'" by (cases e') (simp add: inherited_def)
    show ?thesis using Cons.IH [OF Cons.prems(1) _ r] Cons.prems(2,4) e free i by auto
  next
    case skip
    then have i: "inherited e' = e'\<lparr>ptr := None\<rparr>" by (simp add: inherited_def)
    show ?thesis using Cons.IH [OF Cons.prems(1) _ r] Cons.prems(2,4) e skip i by auto
  next
    case keep
    then have i: "inherited e' = e'" by (simp add: inherited_def)
    have "p \<in> fmdom' (objs s)" using Cons.prems(4) e keep by auto
    then obtain ob where ob: "obj_at s p = Some ob" by (auto simp: fmlookup_dom'_iff)
    have "refcount ob < INT_MAX" using roomD [OF Cons.prems(3) ob] by simp
    then obtain s1 where s1: "grab_object_for_handle env p s = Some s1" "refs_okg (v(p := v p + 1)) x s1"
        "procs s1 = procs s" "global_table s1 = global_table s" "zombies s1 \<subseteq> zombies s"
        "\<forall>q. rcount s1 q \<le> rcount s q + 1" "fmdom' (objs s1) = fmdom' (objs s)"
      using grab_for_handle_g [OF Cons.prems(1) ob, of env] by blast
    have r1: "room (length es) s1" by (rule room_step [of _ s]) (use Cons.prems(3) s1(6) in simp_all)
    have eq: "(\<lambda>q. (v(p := v p + 1)) q + eref es' q) = (\<lambda>q. v q + eref (Some e' # es') q)" for es'
      using keep(1) by (auto simp: fun_eq_iff)
    obtain s2 where s2: "inherit_entries env es s1 = Some (map (map_option inherited) es, s2)"
        "refs_okg (\<lambda>q. (v(p := v p + 1)) q + eref (map (map_option inherited) es) q) x s2"
        "procs s2 = procs s1" "global_table s2 = global_table s1" "zombies s2 \<subseteq> zombies s1"
      using Cons.IH [OF s1(2) _ r1] Cons.prems(2,4) s1(7) by auto
    have "inherit_entries env (e # es) s = Some (map (map_option inherited) (e # es), s2)"
      using e keep i s1(1) s2(1) by simp
    moreover have "refs_okg (\<lambda>q. v q + eref (map (map_option inherited) (e # es)) q) x s2"
      using s2(2) e i unfolding eq by simp
    ultimately show ?thesis using s1(3-5) s2(3-5) by auto
  qed
qed simp

text \<open>The table of a child process has the inheritable entries of its parent, at the same indices.\<close>

definition inherited_slots :: "(nat \<rightharpoonup> nat \<times> u32) \<Rightarrow> (nat \<rightharpoonup> nat \<times> u32)" where
  "inherited_slots f i = (case f i of None \<Rightarrow> None | Some (p, a) \<Rightarrow> if a AND RESERVED_INHERIT \<noteq> 0 then Some (p, a) else None)"

lemma copied_table:
  assumes b: "wf_bounds pt" and t: "alloc_handle_table env (tcount pt) = Some t"
  defines "c \<equiv> t\<lparr>tlast := tlast pt,
                  entries := map (map_option inherited) (used pt) @ drop (nat (tlast pt + 1)) (entries t)\<rparr>"
  shows "wf_bounds c" "slot c = inherited_slots (slot pt)"
proof -
  let ?n = "nat (tlast pt + 1)"
  note pb = wf_boundsD [OF b]
  have t': "tlast t = -1" "tfree t = 0" "entries t = replicate (tcount pt) None"
    using t pb(1) by (auto simp: alloc_handle_table_def Let_def max_def split: if_splits)
  have n: "?n \<le> tcount pt" using pb(4) by simp
  have len: "tcount c = tcount pt" using n by (simp add: c_def t')
  have c1: "entries c ! i = map_option inherited (entries pt ! i)" if "i < ?n" for i
    using that n by (simp add: c_def nth_append)
  have c2: "entries c ! i = None" if "?n \<le> i" "i < tcount pt" for i
    using that n by (simp add: c_def nth_append t')
  show sl: "slot c = inherited_slots (slot pt)"
  proof
    fix i
    show "slot c i = inherited_slots (slot pt) i"
    proof (cases "i < ?n")
      case True
      then have "int i \<le> tlast pt" by linarith
      then obtain e where "entries pt ! i = Some e" "i < tcount pt" "slot pt i = map_option (\<lambda>p. (p, hacc e)) (ptr e)"
        by (rule slot_read [OF b])
      then show ?thesis
        using c1 [OF True] len
        by (cases "ptr e") (auto simp: slot_def inherited_slots_def inherited_def)
    next
      case False
      then have "slot pt i = None" by (intro pb(6)) linarith
      then show ?thesis using c2 [of i] False len by (auto simp: slot_def inherited_slots_def)
    qed
  qed
  have en: "entries c ! i \<noteq> None" if "int i \<le> tlast pt" for i
    using c1 [of i] pb(5) [OF that] that by (auto simp: zless_nat_conj)
  have none: "slot c i = None" if "tlast pt < int i" for i
    using pb(6) [OF that] unfolding sl by (simp add: inherited_slots_def)
  show "wf_bounds c"
    unfolding wf_bounds_def len using pb(1-4) en none by (simp add: c_def t')
qed

lemma copy_handle_table_ok:
  assumes k: "kinv x s" and pt: "table_at s (Proc parent) = Some pt" and r: "room (tcount pt) s"
    and m: "e_mem env (tcount pt)"
    and ch: "Proc child \<in> tabs s" "table_at s (Proc child) = None"
  shows "\<exists>t s'. copy_handle_table env parent None std_handles s = Some (Some t, s') \<and>
                kinv x (set_table (Proc child) (Some t) s') \<and> slot t = inherited_slots (slots s (Proc parent))"
proof -
  have b: "wf_bounds pt" using wf_tableD(1) [OF kinvD(3) [OF k pt]] .
  have ps: "slots s (Proc parent) = slot pt" using pt by (simp add: slots_def)
  obtain t where t: "alloc_handle_table env (tcount pt) = Some t"
    using m wf_boundsD(1) [OF b] by (simp add: alloc_handle_table_def Let_def max_def)
  let ?es = "map (map_option inherited) (used pt)"
  define c where "c = t\<lparr>tlast := tlast pt, entries := ?es @ drop (nat (tlast pt + 1)) (entries t)\<rparr>"
  note cw = copied_table [OF b t, folded c_def]
  have r': "room (length (used pt)) s" by (rule room_mono [OF r]) simp
  have ob: "\<forall>e\<in>set (used pt). \<forall>p. e \<bind> ptr = Some p \<longrightarrow> p \<in> fmdom' (objs s)"
  proof (intro ballI allI impI)
    fix e p assume e: "e \<in> set (used pt)" "e \<bind> ptr = Some p"
    then obtain i e' where i: "i < length (used pt)" "used pt ! i = Some e'" "ptr e' = Some p"
      by (auto simp: in_set_conv_nth bind_eq_Some_conv)
    then have "slots s (Proc parent) i = Some (p, hacc e')" using slot_used [OF b] ps by auto
    then show "p \<in> fmdom' (objs s)" using kinv_entry [OF k] by (meson fmdom'I)
  qed
  obtain s1 where s1: "inherit_entries env (used pt) s = Some (?es, s1)" "refs_okg (\<lambda>p. 0 + eref ?es p) x s1"
      "procs s1 = procs s" "global_table s1 = global_table s" "zombies s1 \<subseteq> zombies s"
    using inherit_entries_ok [OF kinvD(1) [OF k, unfolded refs_ok_g] used_Some [OF b] r' ob, of env] by blast
  obtain t' where t': "shrink_handle_table env c = Some t'" "wf_table t'" "slot t' = slot c"
    using shrink_spec [OF cw(1)] by blast
  have uc: "used c = ?es" using wf_boundsD(4) [OF b] by (simp add: c_def)
  have er: "refs_in (slot t') q = eref ?es q" for q using refs_in_used [OF cw(1), of q] t'(3) uc by simp
  let ?w = "Proc child" and ?s = "set_table (Proc child) (Some t') s1"
  have tab: "table_at s1 = table_at s" "slots s1 = slots s" "tabs s1 = tabs s"
    using s1(3,4) by (auto intro: table_at_cong slots_cong simp: tabs_def)
  have w: "?w \<in> tabs s1" "slots s1 ?w = Map.empty" using ch tab by (simp_all add: slots_def)
  have h: "handles_to ?s q = handles_to s1 q + eref ?es q" for q
    using handles_to_change [OF w(1) tabs_set slots_set [OF w(1)], of t' q] w(2) er [of q] by simp
  have cn: "hcount ?s = hcount s1" "rcount ?s = rcount s1" "held ?s = held s1" "children ?s = children s1"
    by (simp_all add: hcount_def rcount_def held_def par_def children_def fun_eq_iff)
  have "refs_ok x ?s" using refs_okgD [OF s1(2)] h cn unfolding refs_ok_def by simp
  moreover have "zombies ?s = {}" using s1(5) kinvD(2) [OF k] zombies_cong [of ?s s1] by simp
  ultimately have "kinv x ?s" using kinvD(3) [OF k] t'(2) w(1) tab by (auto simp: kinv_def split: if_splits)
  then show ?thesis
    using pt t s1(1) t' cw(2) ps by (auto simp: copy_handle_table_def Let_def c_def)
qed


section \<open>Enumeration\<close>

text \<open>What the second pass writes for a table.\<close>

fun infos :: "kenv \<Rightarrow> kstate \<Rightarrow> u32 \<Rightarrow> nat \<Rightarrow> handle_entry option list \<Rightarrow> handle_info list" where
  "infos env s pid i [] = []"
| "infos env s pid i (e # es) =
     (case e of None \<Rightarrow> infos env s pid (i + 1) es
      | Some e \<Rightarrow>
          (case ptr e of None \<Rightarrow> infos env s pid (i + 1) es
           | Some p \<Rightarrow> (case obj_at s p of None \<Rightarrow> infos env s pid (i + 1) es
                        | Some ob \<Rightarrow> entry_info env pid i e ob # infos env s pid (i + 1) es)))"

definition present :: "kstate \<Rightarrow> handle_entry option list \<Rightarrow> bool" where
  "present s es \<longleftrightarrow> None \<notin> set es \<and> (\<forall>e\<in>set es. \<forall>p. e \<bind> ptr = Some p \<longrightarrow> (\<exists>ob. obj_at s p = Some ob))"

lemma present_Cons:
  "present s (e # es) \<longleftrightarrow> (\<exists>e'. e = Some e' \<and> (\<forall>p. ptr e' = Some p \<longrightarrow> (\<exists>ob. obj_at s p = Some ob))) \<and> present s es"
  by (cases e) (auto simp: present_def)

lemma enum_count:
  "present s es \<Longrightarrow> enum_loop env s pid i es (n, None) = Some (n + length (infos env s pid i es), None)"
  by (induction es arbitrary: i n) (auto simp: present_Cons split: option.splits)

lemma enum_write:
  "present s es \<Longrightarrow> length (infos env s pid i es) \<le> n \<Longrightarrow>
   enum_loop env s pid i es (n, Some out) = Some (n - length (infos env s pid i es), Some (out @ infos env s pid i es))"
  by (induction es arbitrary: i n out) (auto simp: present_Cons split: option.splits)

definition table_infos :: "kenv \<Rightarrow> kstate \<Rightarrow> u32 \<times> handle_table option \<Rightarrow> handle_info list" where
  "table_infos env s = (\<lambda>(pid, t). case t of None \<Rightarrow> [] | Some t \<Rightarrow> infos env s pid 0 (used t))"

definition all_present :: "kstate \<Rightarrow> (u32 \<times> handle_table option) list \<Rightarrow> bool" where
  "all_present s ps \<longleftrightarrow> (\<forall>(pid, t)\<in>set ps. case t of None \<Rightarrow> True | Some t \<Rightarrow> present s (used t))"

lemma all_present_Cons:
  "all_present s (pt # ps) \<longleftrightarrow> (case snd pt of None \<Rightarrow> True | Some t \<Rightarrow> present s (used t)) \<and> all_present s ps"
  by (cases pt) (simp add: all_present_def)

lemma enum_all_count:
  "all_present s ps \<Longrightarrow>
   enum_all env s ps (n, None) = Some (n + length (concat (map (table_infos env s) ps)), None)"
proof (induction ps arbitrary: n)
  case (Cons pt ps)
  then show ?case
    by (cases pt; cases "snd pt") (simp_all add: all_present_Cons enum_handles_def table_infos_def enum_count)
qed simp

lemma enum_all_write:
  "all_present s ps \<Longrightarrow> length (concat (map (table_infos env s) ps)) \<le> n \<Longrightarrow>
   enum_all env s ps (n, Some out) =
   Some (n - length (concat (map (table_infos env s) ps)), Some (out @ concat (map (table_infos env s) ps)))"
proof (induction ps arbitrary: n out)
  case (Cons pt ps)
  then show ?case
    by (cases pt; cases "snd pt") (simp_all add: all_present_Cons enum_handles_def table_infos_def enum_write)
qed simp

lemma present_used:
  assumes k: "kinv x s" and t: "table_at s w = Some t"
  shows "present s (used t)"
proof -
  have b: "wf_bounds t" using wf_tableD(1) [OF kinvD(3) [OF k t]] .
  have "\<exists>ob. obj_at s p = Some ob" if e: "e \<in> set (used t)" "e \<bind> ptr = Some p" for e p
  proof -
    obtain i e' where i: "i < length (used t)" "used t ! i = Some e'" "ptr e' = Some p"
      using e by (auto simp: in_set_conv_nth bind_eq_Some_conv)
    then have "slots s w i = Some (p, hacc e')" using slot_used [OF b] t by (auto simp: slots_def)
    then show ?thesis using kinv_entry [OF k] by blast
  qed
  then show ?thesis using used_Some [OF b] by (auto simp: present_def)
qed

definition all_infos :: "kenv \<Rightarrow> (nat \<Rightarrow> u32) \<Rightarrow> kstate \<Rightarrow> handle_info list" where
  "all_infos env pids s = concat (map (table_infos env s) (zip (map pids [0..<length (procs s)]) (procs s)))"

lemma get_system_handles_ok:
  assumes k: "kinv x s"
  shows "req_get_system_handles env pids max_handles s =
           (let n = length (all_infos env pids s)
            in Some (if max_handles < n then (set_error STATUS_BUFFER_TOO_SMALL s, n, None)
                     else if \<not> e_mem env n then (set_error STATUS_NO_MEMORY s, n, None)
                     else (s, n, Some (all_infos env pids s))))"
proof -
  let ?ps = "zip (map pids [0..<length (procs s)]) (procs s)"
  have "all_present s ?ps"
    unfolding all_present_def
  proof (clarify)
    fix pid to assume "(pid, to) \<in> set ?ps"
    then obtain i where "i < length (procs s)" "to = procs s ! i" by (auto simp: set_zip)
    then show "case to of None \<Rightarrow> True | Some t \<Rightarrow> present s (used t)"
      using present_used [OF k, of "Proc i"] by (auto simp: table_at_def split: option.splits)
  qed
  note e = enum_all_count [OF this, of env, folded all_infos_def] enum_all_write [OF this, of env, folded all_infos_def]
  show ?thesis
    using e(1) [of 0] e(2) [of "length (all_infos env pids s)" "[]"]
    by (simp add: req_get_system_handles_def Let_def)
qed

end
