(* ===== verification/Handle_Props.thy ===== *)
theory Handle_Props
  imports Handle_Process
begin

text \<open>
  Handle tables: the interface that clients of a process's table rely on, and the properties of
  \<open>server/handle.c\<close>.
\<close>

section \<open>The interface of a process's handles\<close>

text \<open>
  Handles are numbered by table index.  Allocation gives a free number or none; closing frees the
  number, or refuses and changes nothing.
\<close>

locale handle_store =
  fixes inv :: "'s \<Rightarrow> bool" and avail :: "'s \<Rightarrow> 'o \<Rightarrow> bool" and find :: "'s \<Rightarrow> nat \<Rightarrow> 'o option"
    and alloc :: "'o \<Rightarrow> 's \<Rightarrow> ('s \<times> nat option) option" and close :: "nat \<Rightarrow> 's \<Rightarrow> ('s \<times> status) option"
  assumes alloc_law: "inv s \<Longrightarrow> avail s ob \<Longrightarrow>
      \<exists>s' r. alloc ob s = Some (s', r) \<and> inv s' \<and>
             (case r of None \<Rightarrow> find s' = find s
              | Some i \<Rightarrow> i < MAX_HANDLE_ENTRIES \<and> find s i = None \<and> find s' = (find s)(i \<mapsto> ob))"
    and close_law: "inv s \<Longrightarrow> i < MAX_HANDLE_ENTRIES \<Longrightarrow>
      \<exists>s' st. close i s = Some (s', st) \<and> inv s' \<and>
              (if find s i = None then st = STATUS_INVALID_HANDLE else st \<noteq> STATUS_INVALID_HANDLE) \<and>
              find s' = (if st = STATUS_SUCCESS then (find s)(i := None) else find s)"
begin

lemma alloc_then_find:
  "inv s \<Longrightarrow> avail s ob \<Longrightarrow> alloc ob s = Some (s', Some i) \<Longrightarrow> find s' i = Some ob \<and> (\<forall>j\<noteq>i. find s' j = find s j)"
  using alloc_law [of s ob] by auto

lemma alloc_then_close:
  assumes "inv s" "avail s ob" "alloc ob s = Some (s1, Some i)" "close i s1 = Some (s2, STATUS_SUCCESS)"
  shows "inv s2" "find s2 = find s"
proof -
  have a: "inv s1" "i < MAX_HANDLE_ENTRIES" "find s i = None" "find s1 = (find s)(i \<mapsto> ob)"
    using alloc_law [OF assms(1,2)] assms(3) by auto
  then show "inv s2" "find s2 = find s" using close_law [OF a(1,2)] assms(4) by auto
qed

lemma close_twice:
  assumes "inv s" "i < MAX_HANDLE_ENTRIES" "close i s = Some (s1, STATUS_SUCCESS)"
  shows "\<exists>s2. close i s1 = Some (s2, STATUS_INVALID_HANDLE) \<and> find s2 = find s1"
proof -
  have a: "inv s1" "find s1 i = None" using close_law [OF assms(1,2)] assms(3) by auto
  then show ?thesis using close_law [OF a(1) assms(2)] by fastforce
qed

end

text \<open>The table of a process implements it, with \<open>alloc_handle_no_access_check\<close> and \<open>close_handle\<close>.\<close>

definition proc_find :: "nat \<Rightarrow> kstate \<Rightarrow> nat \<Rightarrow> nat option" where
  "proc_find process s i = map_option fst (slots s (Proc process) i)"

definition can_ref :: "kstate \<Rightarrow> nat \<Rightarrow> bool" where
  "can_ref s p \<longleftrightarrow> (\<exists>ob. obj_at s p = Some ob \<and> refcount ob < INT_MAX)"

definition proc_alloc :: "kenv \<Rightarrow> nat \<Rightarrow> u32 \<Rightarrow> u32 \<Rightarrow> nat \<Rightarrow> kstate \<Rightarrow> (kstate \<times> nat option) option" where
  "proc_alloc env process access attr p s =
     do {
       (s, h) \<leftarrow> alloc_handle_no_access_check env process p access attr s;
       Some (s, if h = 0 then None else Some (nat (handle_to_index h)))
     }"

definition proc_close :: "kenv \<Rightarrow> nat \<Rightarrow> nat \<Rightarrow> kstate \<Rightarrow> (kstate \<times> status) option" where
  "proc_close env process i s = close_handle env process (index_to_handle i) s"

lemma proc_find_upd:
  "slots s' = (slots s)(Proc process := (slots s (Proc process))(i \<mapsto> (p, a))) \<Longrightarrow>
   proc_find process s' = (proc_find process s)(i \<mapsto> p)"
  "slots s' = (slots s)(Proc process := (slots s (Proc process))(i := None)) \<Longrightarrow>
   proc_find process s' = (proc_find process s)(i := None)"
  by (simp_all add: proc_find_def fun_eq_iff)

interpretation ph: handle_store "kinv x" can_ref "proc_find process"
  "proc_alloc env process access attr" "proc_close env process" for x env process access attr
proof unfold_locales
  fix s p
  assume k: "kinv x s" and "can_ref s p"
  then obtain ob where ob: "obj_at s p = Some ob" "refcount ob < INT_MAX" by (auto simp: can_ref_def)
  obtain s' h where a: "alloc_handle_no_access_check env process p access attr s = Some (s', h)"
      "allocated x process p (\<lambda>b. True) s s' h"
    using alloc_handle_no_access_check_spec [OF k ob] by blast
  show "\<exists>s' r. proc_alloc env process access attr p s = Some (s', r) \<and> kinv x s' \<and>
      (case r of None \<Rightarrow> proc_find process s' = proc_find process s
       | Some i \<Rightarrow> i < MAX_HANDLE_ENTRIES \<and> proc_find process s i = None \<and>
                   proc_find process s' = (proc_find process s)(i \<mapsto> p))"
  proof (cases "h = 0")
    case True
    then show ?thesis using a by (simp add: proc_alloc_def allocated_def proc_find_def fun_eq_iff)
  next
    case False
    then obtain i c where h: "\<not> handle_is_global h" "hlookup s process h = None" "kinv x s'"
        "hlookup s' process h = Some (Proc process, i, p, c)"
        "slots s' = (slots s)(Proc process := (slots s (Proc process))(i \<mapsto> (p, c)))"
      using a(2) by (auto simp: allocated_def)
    have i: "handle_to_index h = int i" using hlookup_Some [OF h(4)] h(1) by simp
    then have "slots s (Proc process) i = None"
      using h(1,2) by (simp add: hlookup_def handle_table_of_def Let_def)
    then show ?thesis
      using a(1) False i h(3) proc_find_upd(1) [OF h(5)] hlookup_bound [OF h(3,4)]
      by (simp add: proc_alloc_def proc_find_def)
  qed
next
  fix s i
  assume k: "kinv x s" and i: "i < MAX_HANDLE_ENTRIES"
  obtain s' st where c: "close_handle env process (index_to_handle i) s = Some (s', st)" "kinv x s'"
      "case hlookup s process (index_to_handle i) of None \<Rightarrow> st = STATUS_INVALID_HANDLE \<and> s' = s
       | Some (w, j, p, a) \<Rightarrow>
           if closable env process (index_to_handle i) s p a
           then st = STATUS_SUCCESS \<and> slots s' = (slots s)(w := (slots s w)(j := None))
           else st = STATUS_HANDLE_NOT_CLOSABLE \<and> s' = s"
    using close_handle_local [OF k local_not_global [OF i], of env process] by blast
  then show "\<exists>s' st. proc_close env process i s = Some (s', st) \<and> kinv x s' \<and>
      (if proc_find process s i = None then st = STATUS_INVALID_HANDLE else st \<noteq> STATUS_INVALID_HANDLE) \<and>
      proc_find process s' = (if st = STATUS_SUCCESS then (proc_find process s)(i := None) else proc_find process s)"
    using proc_find_upd(2) [of s' s process i]
    by (auto simp: proc_close_def hlookup_local [OF i] proc_find_def split: option.splits if_splits)
qed


section \<open>A concrete server state\<close>

text \<open>
  One object, 5, which is the current thread, its process and the target of handles; two processes,
  the second without a table.
\<close>

definition demo_env :: kenv where
  "demo_env = \<lparr>e_mem = \<lambda>n. True, e_type = \<lambda>op. 0, e_mapping = \<lambda>t. \<lparr>gm_read = 1, gm_write = 2, gm_exec = 4, gm_all = 7\<rparr>,
     e_map_access = \<lambda>op. None, e_close = \<lambda>op. None, e_token_check = \<lambda>t p a. Some a, e_thread_impersonation = None,
     e_thread_token = None, e_thread = 5, e_process = 5, e_process_ops = 0, e_proc = \<lambda>p. 0, e_token_of = \<lambda>p. None\<rparr>"

definition demo_ob :: kobject where
  "demo_ob = \<lparr>refcount = 1, handle_count = 0, ops = 0, wait_queue = [], oname = None, has_sd = False,
              is_permanent = False\<rparr>"

definition demo :: kstate where
  "demo = \<lparr>objs = fmap_of_list [(5, demo_ob)], types = \<lambda>t. \<lparr>obj_count = 1, type_handle_count = 0, obj_max = 1, handle_max = 0\<rparr>,
     namespaces = \<lambda>p. [], destroyed = [], procs = [alloc_handle_table demo_env 0, None],
     global_table = alloc_handle_table demo_env 0, err = 0\<rparr>"

definition demo_x :: "nat \<Rightarrow> nat" where
  "demo_x p = of_bool (p = 5)"

lemma demo_tables: "table_at demo w = Some t \<Longrightarrow> wf_table t \<and> slot t = Map.empty"
  using wf_new_table [of demo_env 0]
  by (auto simp: demo_def table_at_def nth_Cons split: tbl.splits if_splits nat.splits)

lemma demo_objs: "obj_at demo p = (if p = 5 then Some demo_ob else None)"
  by (simp add: demo_def fmlookup_of_list)

lemma demo_5: "obj_at demo 5 = Some demo_ob" "refcount demo_ob < INT_MAX"
  by (simp_all add: demo_objs demo_ob_def INT_MAX_def)

lemma demo_inv: "kinv demo_x demo" "magic_ok demo_env demo_x" "room 1000 demo"
proof -
  have "slots demo w = Map.empty" for w
    using demo_tables [of w] by (auto simp: slots_def split: option.splits)
  then have "handles_to demo p = 0" for p by (simp add: handles_to_def)
  moreover have "children demo p = 0" for p by (simp add: children_def par_def demo_objs demo_ob_def)
  ultimately have "refs_ok demo_x demo"
    by (simp add: refs_ok_def hcount_def held_def rcount_def demo_objs demo_ob_def demo_x_def)
  then show "kinv demo_x demo"
    using demo_tables by (auto simp: kinv_def zombies_def demo_objs demo_ob_def split: if_splits)
  show "magic_ok demo_env demo_x" by (simp add: magic_ok_def demo_env_def demo_x_def)
  show "room 1000 demo" by (simp add: room_def rcount_def demo_objs demo_ob_def INT_MAX_def)
qed

text \<open>The first handle made in it, in any of its tables.\<close>

lemma demo_alloc:
  assumes t: "table_at demo w = Some t"
  shows "\<exists>s'. alloc_entry demo_env w 5 a demo = Some (s', 4) \<and> kinv demo_x s' \<and>
              slots s' = (slots demo)(w := [0 \<mapsto> (5, a)]) \<and>
              obj_at s' = [5 \<mapsto> demo_ob\<lparr>refcount := 2, handle_count := 1\<rparr>]"
proof -
  have sl: "slots demo w = Map.empty" using demo_tables [OF t] t by (simp add: slots_def)
  have tc: "0 < tcount t"
    using wf_boundsD(1) [OF wf_tableD(1)] demo_tables [OF t] by (fastforce simp: MIN_HANDLE_ENTRIES_def)
  show ?thesis
    using alloc_entry_spec [OF demo_inv(1) demo_5 t, of demo_env a]
  proof (elim disjE exE conjE)
    fix s' i
    assume a: "alloc_entry demo_env w 5 a demo = Some (s', index_to_handle i)" "kinv demo_x s'"
      "\<forall>j<i. slots demo w j \<noteq> None" "slots s' = (slots demo)(w := (slots demo w)(i \<mapsto> (5, a)))"
      "obj_at s' = (obj_at demo)(5 \<mapsto> demo_ob\<lparr>refcount := refcount demo_ob + 1, handle_count := handle_count demo_ob + 1\<rparr>)"
    have "i = 0" using a(3) sl by (cases i) auto
    then show ?thesis
      using a sl by (auto simp: index_to_handle_def demo_objs demo_ob_def fun_eq_iff)
  qed (use sl tc in auto)
qed

lemma demo_has_tables: "\<exists>t. table_at demo (Proc 0) = Some t" "\<exists>t. table_at demo Global = Some t"
  by (simp_all add: table_at_def demo_def alloc_handle_table_def demo_env_def Let_def)

text \<open>The state after a handle with all rights, inheritable, has been made for the first process.\<close>

definition demo1 :: kstate where
  "demo1 = fst (the (alloc_handle_no_access_check demo_env 0 5 GENERIC_ALL OBJ_INHERIT demo))"

lemma demo1_spec:
  "alloc_handle_no_access_check demo_env 0 5 GENERIC_ALL OBJ_INHERIT demo = Some (demo1, 4)"
  "kinv demo_x demo1" "slots demo1 = (slots demo)(Proc 0 := [0 \<mapsto> (5, 0x04000007)])"
  "obj_at demo1 = [5 \<mapsto> demo_ob\<lparr>refcount := 2, handle_count := 1\<rparr>]"
proof -
  obtain t where t: "table_at demo (Proc 0) = Some t" using demo_has_tables(1) by blast
  have "alloc_handle_no_access_check demo_env 0 5 GENERIC_ALL OBJ_INHERIT demo =
      alloc_entry demo_env (Proc 0) 5 0x04000007 demo"
    using t by (simp add: alloc_handle_no_access_check_def demo_objs map_obj_access_def demo_env_def
        default_map_access_def map_access_def alloc_handle_entry_def RESERVED_ALL_def RESERVED_INHERIT_def
        RESERVED_CLOSE_PROTECT_def RESERVED_SHIFT_def)
  then show "alloc_handle_no_access_check demo_env 0 5 GENERIC_ALL OBJ_INHERIT demo = Some (demo1, 4)"
    "kinv demo_x demo1" "slots demo1 = (slots demo)(Proc 0 := [0 \<mapsto> (5, 0x04000007)])"
    "obj_at demo1 = [5 \<mapsto> demo_ob\<lparr>refcount := 2, handle_count := 1\<rparr>]"
    using demo_alloc [OF t, of "0x04000007"] by (auto simp: demo1_def)
qed

lemma demo1_look: "hlookup demo1 0 4 = Some (Proc 0, 0, 5, 0x04000007)" "obj_of_handle demo_env demo1 0 4 = Some (5, 0x04000007)"
proof -
  have "index_to_handle 0 = 4" by (simp add: index_to_handle_def)
  then show h: "hlookup demo1 0 4 = Some (Proc 0, 0, 5, 0x04000007)"
    using hlookup_local [of 0 demo1 0] demo1_spec(3) by (simp add: MAX_HANDLE_ENTRIES_def)
  then show "obj_of_handle demo_env demo1 0 4 = Some (5, 0x04000007)"
    by (simp add: obj_of_handle_def get_magic_handle_def)
qed

lemma demo1_room: "room 1000 demo1"
  by (simp add: room_def rcount_def demo1_spec(4) demo_ob_def INT_MAX_def)

lemma take_bit_u32 [simp]: "take_bit 32 (uint (h :: u32)) = uint h"
  using uint_lt2p [of h] by (simp add: take_bit_int_eq_self)

lemma uint_drop_bit_26: "uint (drop_bit 26 (h :: u32)) = uint h div 2 ^ 26"
  unfolding unsigned_drop_bit_eq by (simp add: drop_bit_eq_div)

section \<open>Properties\<close>

text \<open>
  C12.  Handle values and table indices convert back and forth for every index a table can have;
  such a handle is not 0, it is never taken for a global handle, and its global form is and converts
  back to it.
\<close>

theorem handle_values_roundtrip:
  assumes "i < MAX_HANDLE_ENTRIES"
  shows "handle_to_index (index_to_handle i) = int i \<and> index_to_handle i \<noteq> 0 \<and>
         \<not> handle_is_global (index_to_handle i) \<and>
         handle_is_global (handle_local_to_global (index_to_handle i)) \<and>
         handle_global_to_local (handle_local_to_global (index_to_handle i)) = index_to_handle i"
  using assms by simp

theorem handle_values_roundtrip_witness:
  "handle_to_index (index_to_handle 41) = 41 \<and> handle_is_global (handle_local_to_global (index_to_handle 41))"
  using handle_values_roundtrip [of 41] by (simp add: MAX_HANDLE_ENTRIES_def)



text \<open>
  C14.  In every reachable state an object's handle count is exact: it is the sum, over the
  processes, of what \<open>get_obj_handle_count\<close> answers, plus the entries of the global table; and it
  never exceeds the reference count, which is positive.
\<close>

theorem handle_count_exact:
  assumes "kinv x s" "serves x s s'" "obj_at s' p = Some ob"
  shows "(\<forall>i<length (procs s'). get_obj_handle_count i p s' = Some (refs_in (slots s' (Proc i)) p)) \<and>
         handle_count ob = (\<Sum>i<length (procs s'). refs_in (slots s' (Proc i)) p) + refs_in (slots s' Global) p \<and>
         handle_count ob \<le> refcount ob \<and> 0 < refcount ob"
proof -
  have k: "kinv x s'" using serves_kinv [OF assms(2,1)] .
  have "get_obj_handle_count i p s' = Some (refs_in (slots s' (Proc i)) p)" for i
  proof (cases "table_at s' (Proc i)")
    case (Some t)
    then have "wf_bounds t" using wf_tableD(1) [OF kinvD(3) [OF k]] by blast
    then show ?thesis
      using Some count_entries_eq [OF used_Some] refs_in_used by (simp add: get_obj_handle_count_def slots_def)
  qed (simp add: get_obj_handle_count_def slots_def)
  moreover have "handles_to s' p = (\<Sum>i<length (procs s'). refs_in (slots s' (Proc i)) p) + refs_in (slots s' Global) p"
    by (simp add: handles_to_def tabs_def sum.reindex inj_on_def image_iff)
  moreover have "refcount ob \<noteq> 0" using kinvD(2) [OF k] assms(3) by (auto simp: zombies_def)
  ultimately show ?thesis
    using refs_okD [OF kinvD(1) [OF k], of p] assms(3) by (simp add: hcount_def rcount_def)
qed

theorem handle_count_exact_witness:
  "get_obj_handle_count 0 5 demo1 = Some (refs_in [0 \<mapsto> (5, 0x04000007)] 5)"
proof -
  have "slots demo1 (Proc 0) 0 = Some (5, 0x04000007)" using demo1_spec(3) by simp
  then have "table_at demo1 (Proc 0) \<noteq> None" by (auto simp: slots_def split: option.splits)
  then have "length (procs demo1) \<noteq> 0" by (auto simp: table_at_def)
  then show ?thesis
    using handle_count_exact [OF demo1_spec(2) serves.start, of 5] demo1_spec(3,4) by simp
qed




text \<open>
  C16.  Closing a valid, unprotected global handle writes outside the global table: \<open>close_handle\<close>
  takes the table index from the obfuscated handle value, which no table is large enough for.
\<close>

theorem close_global_handle_out_of_bounds:
  assumes "kinv x s" "handle_is_global handle" "hlookup s process handle = Some (w, i, p, a)"
    and "closable env process handle s p a"
  shows "close_handle env process handle s = None"
proof -
  have w: "w = Global" "slots s w i = Some (p, a)"
    using hlookup_Some [OF assms(3)] assms(2) by (auto simp: handle_table_of_def)
  then obtain t where t: "table_at s Global = Some t" by (auto simp: slots_def split: option.splits)
  have "drop_bit 26 handle = 21"
    using obfuscated_high [OF assms(2) [unfolded handle_is_global_def]] by (simp add: xor.assoc)
  then have "uint handle div 2 ^ 26 = 21" using uint_drop_bit_26 [of handle] by simp
  then have "uint handle \<ge> 21 * 2 ^ 26" by simp
  then have "handle_to_index handle \<ge> int MAX_HANDLE_ENTRIES"
    unfolding handle_to_index_def unsigned_drop_bit_eq
    by (simp add: drop_bit_eq_div MAX_HANDLE_ENTRIES_def)
  then have "\<not> handle_to_index handle < int (tcount t)"
    using wf_boundsD(2) [OF wf_tableD(1) [OF kinvD(3) [OF assms(1) t]]] by linarith
  then show ?thesis
    using assms(2-4) t w(1)
    by (auto simp: close_handle_def get_handle_spec [OF assms(1)] closable_def handle_table_of_def split: option.splits)
qed


theorem close_global_handle_out_of_bounds_witness:
  "\<exists>s. alloc_global_handle_no_access_check demo_env 5 7 demo = Some (s, handle_local_to_global 4) \<and>
       close_handle demo_env 0 (handle_local_to_global 4) s = None"
proof -
  obtain t where t: "table_at demo Global = Some t" using demo_has_tables(2) by blast
  obtain s where s: "alloc_entry demo_env Global 5 7 demo = Some (s, 4)" "kinv demo_x s"
      "slots s = (slots demo)(Global := [0 \<mapsto> (5, 7)])" "obj_at s = [5 \<mapsto> demo_ob\<lparr>refcount := 2, handle_count := 1\<rparr>]"
    using demo_alloc [OF t, of 7] by blast
  have h: "index_to_handle 0 = 4" by (simp add: index_to_handle_def)
  have i: "(0::nat) < MAX_HANDLE_ENTRIES" by (simp add: MAX_HANDLE_ENTRIES_def)
  have "hlookup s 0 (handle_local_to_global 4) = Some (Global, 0, 5, 7)"
    using hlookup_global [OF i, of s 0] s(3) h by simp
  moreover have "closable demo_env 0 (handle_local_to_global 4) s 5 7"
    using s(4) by (simp add: closable_def RESERVED_CLOSE_PROTECT_def RESERVED_SHIFT_def demo_env_def)
  moreover have "handle_is_global (handle_local_to_global 4)" using global_is_global [OF i] h by simp
  ultimately have "close_handle demo_env 0 (handle_local_to_global 4) s = None"
    using close_global_handle_out_of_bounds [OF s(2)] by blast
  moreover have "alloc_global_handle_no_access_check demo_env 5 7 demo = Some (s, handle_local_to_global 4)"
    using s(1) t by (simp add: alloc_global_handle_no_access_check_def table_at_def)
  ultimately show ?thesis by blast
qed

text \<open>
  C17.  \<open>duplicate_handle\<close> to a process, from a known handle: the invariant is kept, and either no
  handle results and no table changes, or the new handle, or the source handle reused, denotes the
  same object in the target process.  With \<open>DUPLICATE_SAME_ACCESS\<close> it has exactly the rights of the
  source handle, for a pseudo-handle all rights of the object's type.
\<close>

theorem duplicate_handle_behaviour:
  assumes "kinv x s" "magic_ok env x" "room 2 s" "options AND DUPLICATE_MAKE_GLOBAL = 0"
    and "obj_of_handle env s src h = Some (p, a)"
  shows "\<exists>s' res. duplicate_handle env src h (Some d) access attr options s = Some (s', res) \<and> kinv x s' \<and>
           (if res = 0 then slots s' = slots s
            else \<exists>w i b. hlookup s' d res = Some (w, i, p, b) \<and>
                  (options AND DUPLICATE_SAME_ACCESS \<noteq> 0 \<longrightarrow> src_rights env s src h (b AND NOT RESERVED_ALL)))"
  using duplicate_handle_found [OF assms, of d access attr] unfolding duplicated_def by blast

theorem duplicate_handle_behaviour_witness:
  "\<exists>s' res. duplicate_handle demo_env 0 4 (Some 0) 0 0 DUPLICATE_SAME_ACCESS demo1 = Some (s', res) \<and> kinv demo_x s'"
proof -
  have "room 2 demo1" by (rule room_mono [OF demo1_room]) simp
  then show ?thesis
    using duplicate_handle_behaviour [OF demo1_spec(2) demo_inv(2) _ _ demo1_look(2), of DUPLICATE_SAME_ACCESS 0 0 0]
    by auto
qed

text \<open>
  C18.  Making a global handle with more rights than the source handle has dereferences the target
  process, which is \<open>NULL\<close> in that case, instead of checking the rights.
\<close>

theorem duplicate_global_null_dereference:
  assumes "kinv x s" "magic_ok env x" "room 1 s" "e_thread_token env = None"
    and "get_magic_handle env h = None" "hlookup s src h = Some (w, i, p, a)" "obj_at s p = Some ob"
    and "options AND DUPLICATE_SAME_ACCESS = 0"
    and "(map_obj_access env p ob access AND NOT RESERVED_ALL) AND NOT (a AND NOT RESERVED_ALL) \<noteq> 0"
  shows "duplicate_handle env src h None access attr options s = None"
proof -
  have v: "obj_result env s src h 0 None = Inr p"
    using assms(5-7) by (simp add: obj_result_def obj_of_handle_def)
  obtain s1 where s1: "get_handle_obj env src h 0 None s = Some (s1, Some p)" "kinv (x(p := x p + 1)) s1"
      "slots s1 = slots s" "obj_at s1 = (obj_at s)(p \<mapsto> ob\<lparr>refcount := refcount ob + 1\<rparr>)"
    using get_handle_obj_spec [OF assms(1-3), of src h 0 None] v assms(7) by auto
  have m: "map_obj_access env p (ob\<lparr>refcount := refcount ob + 1\<rparr>) access = map_obj_access env p ob access"
    by (rule map_obj_access_ops) simp
  have hl: "hlookup s1 src h = Some (w, i, p, a)" using hlookup_cong [OF s1(3)] assms(6) by simp
  show ?thesis
    unfolding duplicate_handle_def s1(1)
    using hl s1(4) assms(4,8,9) m by (simp add: get_handle_spec [OF s1(2)] Let_def dup_alloc_def dup_check_def)
qed


theorem duplicate_global_null_dereference_witness:
  "duplicate_handle demo_env 0 4 None 8 0 DUPLICATE_MAKE_GLOBAL demo1 = None"
proof -
  have r: "room 1 demo1" by (rule room_mono [OF demo1_room]) simp
  have m: "get_magic_handle demo_env 4 = None" "e_thread_token demo_env = None"
    by (simp_all add: get_magic_handle_def demo_env_def)
  have ob: "obj_at demo1 5 = Some (demo_ob\<lparr>refcount := 2, handle_count := 1\<rparr>)" by (simp add: demo1_spec(4))
  show ?thesis
    by (rule duplicate_global_null_dereference [OF demo1_spec(2) demo_inv(2) r m(2,1) demo1_look(1) ob])
       (simp_all add: map_obj_access_def default_map_access_def map_access_def demo_env_def RESERVED_ALL_def
         RESERVED_INHERIT_def RESERVED_CLOSE_PROTECT_def RESERVED_SHIFT_def)
qed

text \<open>
  C19.  \<open>get_handle_obj\<close> gives out an object only if the handle denotes it, it has the type asked for,
  and, unless the handle is a pseudo-handle, the rights asked for are among those of the handle; the
  caller then holds one more reference.  Otherwise the error says which check failed and nothing
  else changes.
\<close>

theorem get_handle_obj_access:
  assumes "kinv x s" "magic_ok env x" "room 1 s"
  shows "case obj_result env s process handle access op of
           Inl st \<Rightarrow> get_handle_obj env process handle access op s = Some (set_error st s, None)
         | Inr p \<Rightarrow> \<exists>s'. get_handle_obj env process handle access op s = Some (s', Some p) \<and>
                      grab_object p s = Some s' \<and> kinv (x(p := x p + 1)) s' \<and> slots s' = slots s \<and>
                      (\<exists>ob a. obj_at s p = Some ob \<and> (op = None \<or> op = Some (ops ob)) \<and>
                              obj_of_handle env s process handle = Some (p, a) \<and> a AND access = access)"
proof -
  have "obj_result env s process handle access op = Inr p \<Longrightarrow>
        \<exists>ob a. obj_at s p = Some ob \<and> (op = None \<or> op = Some (ops ob)) \<and>
               obj_of_handle env s process handle = Some (p, a) \<and> a AND access = access" for p
    by (auto simp: obj_result_def split: option.splits if_splits)
  then show ?thesis
    using get_handle_obj_spec [OF assms, of process handle access op] by (fastforce split: sum.splits)
qed

theorem get_handle_obj_access_witness:
  "get_handle_obj demo_env 0 4 8 None demo1 = Some (set_error STATUS_ACCESS_DENIED demo1, None)"
proof -
  have r: "room 1 demo1" by (rule room_mono [OF demo1_room]) simp
  have "obj_result demo_env demo1 0 4 8 None = Inl STATUS_ACCESS_DENIED"
    by (simp add: obj_result_def demo1_look(2) demo1_spec(4))
  then show ?thesis using get_handle_obj_access [OF demo1_spec(2) demo_inv(2) r, of 0 4 8 None] by simp
qed

text \<open>
  C20.  A child process that inherits all handles gets exactly the inheritable entries of its parent,
  with the same handle values and rights; when the table is installed the invariant holds, so each
  inherited entry is counted.
\<close>

theorem copy_handle_table_inherits:
  assumes "kinv x s" "table_at s (Proc parent) = Some pt" "room (tcount pt) s" "e_mem env (tcount pt)"
    and "child < length (procs s)" "table_at s (Proc child) = None"
  shows "\<exists>t s'. copy_handle_table env parent None std_handles s = Some (Some t, s') \<and>
                kinv x (set_table (Proc child) (Some t) s') \<and>
                (\<forall>i p a. slot t i = Some (p, a) \<longleftrightarrow>
                         slots s (Proc parent) i = Some (p, a) \<and> a AND RESERVED_INHERIT \<noteq> 0)"
proof -
  have "Proc child \<in> tabs s" using assms(5) by (simp add: tabs_def)
  then obtain t s' where "copy_handle_table env parent None std_handles s = Some (Some t, s')"
      "kinv x (set_table (Proc child) (Some t) s')" "slot t = inherited_slots (slots s (Proc parent))"
    using copy_handle_table_ok [OF assms(1-4) _ assms(6)] by blast
  then show ?thesis by (auto simp: inherited_slots_def split: option.splits if_splits)
qed

lemma demo_tcount: "table_at demo (Proc 0) = Some t \<Longrightarrow> tcount t = 32"
  by (auto simp: table_at_def demo_def alloc_handle_table_def demo_env_def Let_def MIN_HANDLE_ENTRIES_def)

theorem copy_handle_table_inherits_witness:
  "\<exists>t s'. copy_handle_table demo_env 0 None [] demo = Some (Some t, s') \<and> kinv demo_x (set_table (Proc 1) (Some t) s')"
proof -
  obtain t where t: "table_at demo (Proc 0) = Some t" using demo_has_tables(1) by blast
  have "room (tcount t) demo" by (rule room_mono [OF demo_inv(3)]) (simp add: demo_tcount [OF t])
  moreover have "e_mem demo_env (tcount t)" by (simp add: demo_env_def)
  moreover have "1 < length (procs demo)" "table_at demo (Proc 1) = None" by (simp_all add: table_at_def demo_def)
  ultimately show ?thesis using copy_handle_table_inherits [OF demo_inv(1) t, of demo_env 1 "[]"] by blast
qed



text \<open>
  C22.  The system-wide enumeration: the count of the first pass is the number of entries the second
  pass writes, so its assertion on the remaining count never fails and the reply is filled exactly;
  if the reply buffer is too small only the count is returned.
\<close>

theorem get_system_handles_complete:
  assumes "kinv x s"
  shows "req_get_system_handles env pids max_handles s =
           (let n = length (all_infos env pids s)
            in Some (if max_handles < n then (set_error STATUS_BUFFER_TOO_SMALL s, n, None)
                     else if \<not> e_mem env n then (set_error STATUS_NO_MEMORY s, n, None)
                     else (s, n, Some (all_infos env pids s))))"
  by (rule get_system_handles_ok [OF assms])

theorem get_system_handles_complete_witness:
  "req_get_system_handles demo_env of_nat 100 demo = Some (demo, 0, Some [])"
proof -
  have "length (procs demo) = 2" by (simp add: demo_def)
  then have "zip (map of_nat [0..<length (procs demo)]) (procs demo) =
      [(0, alloc_handle_table demo_env 0), (1 :: u32, None)]"
    by (simp add: upt_rec) (simp add: demo_def)
  then have "all_infos demo_env of_nat demo = []"
    by (simp add: all_infos_def table_infos_def alloc_handle_table_def demo_env_def Let_def)
  then show ?thesis
    using get_system_handles_complete [OF demo_inv(1), of demo_env of_nat 100] by (simp add: Let_def demo_env_def)
qed

text \<open>
  C23.  A handle that is made and then closed successfully leaves the handles of the process as they
  were, and closing it once more gives \<open>STATUS_INVALID_HANDLE\<close>.
\<close>

theorem alloc_close_roundtrip:
  assumes "kinv x s" "can_ref s p" "proc_alloc env process access attr p s = Some (s1, Some i)"
    and "proc_close env process i s1 = Some (s2, STATUS_SUCCESS)"
  shows "proc_find process s1 i = Some p \<and> proc_find process s2 = proc_find process s \<and>
         (\<exists>s3. proc_close env process i s2 = Some (s3, STATUS_INVALID_HANDLE))"
proof -
  have f: "proc_find process s1 i = Some p" using ph.alloc_then_find [OF assms(1-3)] by blast
  have k: "kinv x s1" "i < MAX_HANDLE_ENTRIES"
    using ph.alloc_law [OF assms(1,2), of env process access attr] assms(3) by auto
  show ?thesis
    using f ph.alloc_then_close(2) [OF assms] ph.close_twice [OF k assms(4)] by blast
qed

theorem alloc_close_roundtrip_witness:
  "\<exists>s1 s2. proc_alloc demo_env 0 GENERIC_ALL OBJ_INHERIT 5 demo = Some (s1, Some 0) \<and>
     proc_close demo_env 0 0 s1 = Some (s2, STATUS_SUCCESS) \<and> proc_find 0 s2 = proc_find 0 demo"
proof -
  have a: "proc_alloc demo_env 0 GENERIC_ALL OBJ_INHERIT 5 demo = Some (demo1, Some 0)"
    using demo1_spec(1) by (simp add: proc_alloc_def handle_to_index_def)
  have h: "index_to_handle 0 = 4" by (simp add: index_to_handle_def)
  have "closable demo_env 0 4 demo1 5 0x04000007"
    by (simp add: closable_def demo1_spec(4) RESERVED_CLOSE_PROTECT_def RESERVED_SHIFT_def demo_env_def)
  then obtain s2 where c: "proc_close demo_env 0 0 demo1 = Some (s2, STATUS_SUCCESS)"
    using close_handle_local [OF demo1_spec(2), of 4 demo_env 0] demo1_look(1) local_not_global [of 0] h
    by (auto simp: proc_close_def MAX_HANDLE_ENTRIES_def)
  have "can_ref demo 5" using demo_5 by (auto simp: can_ref_def)
  then show ?thesis using a c alloc_close_roundtrip [OF demo_inv(1) _ a c] by blast
qed

end
