(* ===== verification/Atoms.thy ===== *)
theory Atoms
  imports Unicode "HOL-Library.Monad_Syntax"
begin

text \<open>
  Atom tables, \<open>server/atom.c\<close>: definitions.  An entry is known by its index in the array \<open>atoms\<close>,
  which it keeps for its life; \<open>next\<close> and \<open>prev\<close> link the entries of a hash bucket.  Operations that
  follow these links are partial: \<open>None\<close> means that a link leads to no entry, or that the walk does
  not end.  A result \<open>Inl st\<close> stands for the return value 0 with the error \<open>st\<close> set.  The length of an
  entry is that of its string; string lengths are even, see \<open>get_req_unicode_str\<close>.
\<close>

definition HASH_SIZE :: u32 where "HASH_SIZE = 37"
definition MIN_STR_ATOM :: u32 where "MIN_STR_ATOM = 0xc000"
definition MAX_ATOMS :: nat where "MAX_ATOMS = 0x4000"
definition MAX_ATOM_LEN :: nat where "MAX_ATOM_LEN = 255"
definition MAXINTATOM :: u32 where "MAXINTATOM = 0xc000"

record atom_entry =
  a_next :: "nat option"
  a_prev :: "nat option"
  a_count :: int
  a_atom :: u32
  a_hash :: u16
  a_str :: "wchar list"

record atom_table =
  t_count :: nat
  t_atoms :: "nat \<Rightarrow> atom_entry option"
  t_entries :: "u16 \<Rightarrow> nat option"

definition create_atom_table :: atom_table where
  "create_atom_table = \<lparr>t_count = 1, t_atoms = \<lambda>i. None, t_entries = \<lambda>h. None\<rparr>"

definition get_atom_entry :: "atom_table option \<Rightarrow> u32 \<Rightarrow> status + nat \<times> atom_entry" where
  "get_atom_entry table atom =
     (case table of None \<Rightarrow> Inl STATUS_INVALID_HANDLE
      | Some t \<Rightarrow>
          if MIN_STR_ATOM \<le> atom \<and> atom < MIN_STR_ATOM + of_nat (t_count t) then
            (case t_atoms t (unat (atom - MIN_STR_ATOM)) of None \<Rightarrow> Inl STATUS_INVALID_HANDLE
             | Some e \<Rightarrow> Inr (unat (atom - MIN_STR_ATOM), e))
          else Inl STATUS_INVALID_HANDLE)"

text \<open>The search for a free index in \<open>add_atom_entry\<close>.\<close>

function free_index :: "atom_table \<Rightarrow> nat \<Rightarrow> nat" where
  "free_index t i = (if i < t_count t \<and> t_atoms t i \<noteq> None then free_index t (i + 1) else i)"
  by pat_completeness auto
termination by (relation "measure (\<lambda>(t, i). t_count t - i)") auto

declare free_index.simps [simp del]

text \<open>The entry is stored where it is, so the index and the new table are returned.\<close>

definition add_atom_entry :: "atom_table \<Rightarrow> atom_entry \<Rightarrow> (atom_table \<times> nat) option" where
  "add_atom_entry t e =
     (let i = free_index t 1
      in if i = MAX_ATOMS then None
         else (let t = (if i = t_count t then t\<lparr>t_count := t_count t + 1\<rparr> else t);
                   e = e\<lparr>a_atom := of_nat i + MIN_STR_ATOM\<rparr>
               in Some (t\<lparr>t_atoms := (t_atoms t)(i \<mapsto> e)\<rparr>, i)))"

fun int_atom_digits :: "u32 \<Rightarrow> wchar list \<Rightarrow> u32" where
  "int_atom_digits ret [] = ret"
| "int_atom_digits ret (c # cs) =
     (if c < 48 \<or> c > 57 then 0
      else (let ret = ret * 10 + ucast c - 48
            in if ret \<ge> MAXINTATOM then 0 else int_atom_digits ret cs))"

text \<open>The name is not empty.\<close>

definition get_int_atom_value :: "wchar list \<Rightarrow> u32" where
  "get_int_atom_value name = (case name of [] \<Rightarrow> 0 | c # cs \<Rightarrow> if c \<noteq> 35 then 0 else int_atom_digits 0 cs)"

definition same_name :: "casemap \<Rightarrow> wchar list \<Rightarrow> wchar list \<Rightarrow> bool" where
  "same_name casemap s1 s2 \<longleftrightarrow> length s1 = length s2 \<and> memicmp_strW casemap s1 s2 = 0"

partial_function (option) find_atom_loop ::
  "casemap \<Rightarrow> (nat \<Rightarrow> atom_entry option) \<Rightarrow> wchar list \<Rightarrow> nat option \<Rightarrow> nat option option" where
  "find_atom_loop casemap atoms str entry =
     (if entry = None then Some None
      else do {
        e \<leftarrow> atoms (the entry);
        if same_name casemap (a_str e) str then Some entry
        else find_atom_loop casemap atoms str (a_next e)
      })"

definition find_atom_entry :: "casemap \<Rightarrow> atom_table \<Rightarrow> wchar list \<Rightarrow> u16 \<Rightarrow> nat option option" where
  "find_atom_entry casemap t str hash = find_atom_loop casemap (t_atoms t) str (t_entries t hash)"

definition atom_hash :: "casemap \<Rightarrow> wchar list \<Rightarrow> u16" where
  "atom_hash casemap str = ucast (hash_strW casemap str HASH_SIZE)"

definition set_prev :: "nat option \<Rightarrow> nat option \<Rightarrow> atom_table \<Rightarrow> atom_table option" where
  "set_prev i p t =
     (case i of None \<Rightarrow> Some t
      | Some i \<Rightarrow> (case t_atoms t i of None \<Rightarrow> None
                  | Some e \<Rightarrow> Some (t\<lparr>t_atoms := (t_atoms t)(i \<mapsto> e\<lparr>a_prev := p\<rparr>)\<rparr>)))"

definition set_next :: "nat \<Rightarrow> nat option \<Rightarrow> atom_table \<Rightarrow> atom_table option" where
  "set_next i n t =
     (case t_atoms t i of None \<Rightarrow> None
      | Some e \<Rightarrow> Some (t\<lparr>t_atoms := (t_atoms t)(i \<mapsto> e\<lparr>a_next := n\<rparr>)\<rparr>))"

definition check_name :: "wchar list \<Rightarrow> status option" where
  "check_name str =
     (if str = [] then Some STATUS_OBJECT_NAME_INVALID
      else if length str > MAX_ATOM_LEN then Some STATUS_INVALID_PARAMETER
      else None)"

text \<open>
  \<open>mem\<close> is the answer of \<open>mem_alloc\<close>.  The new entry is written before it is linked, as its fields are
  not read in between.
\<close>

definition add_atom ::
  "casemap \<Rightarrow> bool \<Rightarrow> atom_table \<Rightarrow> wchar list \<Rightarrow> (atom_table \<times> (status + u32)) option" where
  "add_atom casemap mem t str =
     (case check_name str of Some st \<Rightarrow> Some (t, Inl st)
      | None \<Rightarrow>
          if get_int_atom_value str \<noteq> 0 then Some (t, Inr (get_int_atom_value str))
          else
            do {
              let hash = atom_hash casemap str;
              entry \<leftarrow> find_atom_entry casemap t str hash;
              (case entry of
                 Some i \<Rightarrow>
                   do {
                     e \<leftarrow> t_atoms t i;
                     Some (t\<lparr>t_atoms := (t_atoms t)(i \<mapsto> e\<lparr>a_count := a_count e + 1\<rparr>)\<rparr>, Inr (a_atom e))
                   }
               | None \<Rightarrow>
                   if \<not> mem then Some (t, Inl STATUS_NO_MEMORY)
                   else
                     (case add_atom_entry t \<lparr>a_next = t_entries t hash, a_prev = None, a_count = 1, a_atom = 0,
                                             a_hash = hash, a_str = str\<rparr> of
                        None \<Rightarrow> Some (t, Inl STATUS_NO_MEMORY)
                      | Some (t, i) \<Rightarrow>
                          do {
                            t \<leftarrow> set_prev (t_entries t hash) (Some i) t;
                            e \<leftarrow> t_atoms t i;
                            Some (t\<lparr>t_entries := (t_entries t)(hash \<mapsto> i)\<rparr>, Inr (a_atom e))
                          }))
            })"

definition delete_atom :: "atom_table option \<Rightarrow> u32 \<Rightarrow> (atom_table option \<times> status) option" where
  "delete_atom table atom =
     (case get_atom_entry table atom of Inl st \<Rightarrow> Some (table, st)
      | Inr (i, e) \<Rightarrow>
          do {
            t \<leftarrow> table;
            if a_count e - 1 \<noteq> 0 then
              Some (Some (t\<lparr>t_atoms := (t_atoms t)(i \<mapsto> e\<lparr>a_count := a_count e - 1\<rparr>)\<rparr>), STATUS_SUCCESS)
            else
              do {
                t \<leftarrow> set_prev (a_next e) (a_prev e) t;
                t \<leftarrow> (case a_prev e of
                        Some p \<Rightarrow> set_next p (a_next e) t
                      | None \<Rightarrow> Some (t\<lparr>t_entries := (t_entries t)(a_hash e := a_next e)\<rparr>));
                Some (Some (t\<lparr>t_atoms := (t_atoms t)(i := None)\<rparr>), STATUS_SUCCESS)
              }
          })"

definition find_atom :: "casemap \<Rightarrow> atom_table \<Rightarrow> wchar list \<Rightarrow> (status + u32) option" where
  "find_atom casemap t str =
     (case check_name str of Some st \<Rightarrow> Some (Inl st)
      | None \<Rightarrow>
          if get_int_atom_value str \<noteq> 0 then Some (Inr (get_int_atom_value str))
          else
            do {
              entry \<leftarrow> find_atom_entry casemap t str (atom_hash casemap str);
              (case entry of None \<Rightarrow> Some (Inl STATUS_OBJECT_NAME_NOT_FOUND)
               | Some i \<Rightarrow> do { e \<leftarrow> t_atoms t i; Some (Inr (a_atom e)) })
            })"

definition grab_atom :: "atom_table option \<Rightarrow> u32 \<Rightarrow> atom_table option \<times> (status + u32)" where
  "grab_atom table atom =
     (if atom \<ge> MIN_STR_ATOM then
        (case get_atom_entry table atom of Inl st \<Rightarrow> (table, Inl st)
         | Inr (i, e) \<Rightarrow>
             (map_option (\<lambda>t. t\<lparr>t_atoms := (t_atoms t)(i \<mapsto> e\<lparr>a_count := a_count e + 1\<rparr>)\<rparr>) table, Inr atom))
      else (table, Inr atom))"

definition release_atom :: "atom_table option \<Rightarrow> u32 \<Rightarrow> (atom_table option \<times> status) option" where
  "release_atom table atom =
     (if atom \<ge> MIN_STR_ATOM then delete_atom table atom else Some (table, STATUS_SUCCESS))"

section \<open>The two tables of the server\<close>

definition add_atom_asciiz :: "casemap \<Rightarrow> bool \<Rightarrow> string \<Rightarrow> atom_table \<Rightarrow> atom_table option" where
  "add_atom_asciiz casemap mem name t = map_option fst (add_atom casemap mem t (map of_char name))"

text \<open>\<open>mem k\<close> is the answer to the \<open>k\<close>-th allocation.\<close>

fun add_names :: "casemap \<Rightarrow> (nat \<Rightarrow> bool) \<Rightarrow> nat \<Rightarrow> string list \<Rightarrow> atom_table \<Rightarrow> atom_table option" where
  "add_names casemap mem k [] t = Some t"
| "add_names casemap mem k (n # ns) t =
     do { t \<leftarrow> add_atom_asciiz casemap (mem k) n t; add_names casemap mem (k + 1) ns t }"

record atom_server =
  s_global_table :: "atom_table option"
  s_user_table :: "atom_table option"

definition global_names :: "string list" where
  "global_names = [''StdExit'', ''StdNewDocument'', ''StdOpenDocument'', ''StdEditDocument'',
     ''StdNewfromTemplate'', ''StdCloseDocument'', ''StdShowItem'', ''StdDoVerbItem'', ''System'',
     ''OLEsystem'', ''StdDocumentName'', ''Protocols'', ''Topics'', ''Formats'', ''Status'',
     ''EditEnvItems'', ''True'', ''False'', ''Change'', ''Save'', ''Close'', ''MSDraw'',
     ''CC32SubclassInfo'']"

definition user_names :: "string list" where
  "user_names = [''USER32'', ''ObjectLink'', ''OwnerLink'', ''Native'', ''Binary'', ''FileName'',
     ''FileNameW'', ''NetworkName'', ''DataObject'', ''Embedded Object'', ''Embed Source'',
     ''Custom Link Source'', ''Link Source'', ''Object Descriptor'', ''Link Source Descriptor'',
     ''OleDraw'', ''PBrush'', ''MSDraw'', ''Ole Private Data'', ''Screen Picture'',
     ''OleClipboardPersistOnFlush'', ''MoreOlePrivateData'', ''Button'', ''Edit'', ''Static'',
     ''ListBox'', ''ScrollBar'', ''ComboBox'']"

definition set_global_atom_table ::
  "casemap \<Rightarrow> (nat \<Rightarrow> bool) \<Rightarrow> atom_table \<Rightarrow> atom_server \<Rightarrow> atom_server option" where
  "set_global_atom_table casemap mem obj s =
     do { t \<leftarrow> add_names casemap mem 0 global_names obj; Some (s\<lparr>s_global_table := Some t\<rparr>) }"

definition set_user_atom_table ::
  "casemap \<Rightarrow> (nat \<Rightarrow> bool) \<Rightarrow> atom_table \<Rightarrow> atom_server \<Rightarrow> atom_server option" where
  "set_user_atom_table casemap mem obj s =
     do { t \<leftarrow> add_names casemap mem 0 user_names obj; Some (s\<lparr>s_user_table := Some t\<rparr>) }"

section \<open>Requests\<close>

definition req_add_atom ::
  "casemap \<Rightarrow> bool \<Rightarrow> wchar list \<Rightarrow> atom_server \<Rightarrow> (atom_server \<times> (status + u32)) option" where
  "req_add_atom casemap mem str s =
     do {
       t \<leftarrow> s_global_table s;
       (t, r) \<leftarrow> add_atom casemap mem t str;
       Some (s\<lparr>s_global_table := Some t\<rparr>, r)
     }"

definition req_delete_atom :: "u32 \<Rightarrow> atom_server \<Rightarrow> (atom_server \<times> status) option" where
  "req_delete_atom atom s =
     do { (t, st) \<leftarrow> delete_atom (s_global_table s) atom; Some (s\<lparr>s_global_table := t\<rparr>, st) }"

definition req_find_atom :: "casemap \<Rightarrow> wchar list \<Rightarrow> atom_server \<Rightarrow> (status + u32) option" where
  "req_find_atom casemap str s = do { t \<leftarrow> s_global_table s; find_atom casemap t str }"

text \<open>The reply data of a name: its bytes, as many as fit into the reply.\<close>

definition wchar_bytes :: "wchar list \<Rightarrow> u8 list" where
  "wchar_bytes str = concat (map (\<lambda>c. [ucast c, ucast (drop_bit 8 c)]) str)"

definition req_get_atom_information ::
  "u32 \<Rightarrow> nat \<Rightarrow> atom_server \<Rightarrow> status + (u8 list \<times> int \<times> nat)" where
  "req_get_atom_information atom reply_max s =
     (case get_atom_entry (s_global_table s) atom of Inl st \<Rightarrow> Inl st
      | Inr (i, e) \<Rightarrow>
          Inr (take (min (2 * length (a_str e)) reply_max) (wchar_bytes (a_str e)), a_count e, 2 * length (a_str e)))"

definition req_add_user_atom ::
  "casemap \<Rightarrow> bool \<Rightarrow> wchar list \<Rightarrow> atom_server \<Rightarrow> (atom_server \<times> (status + u32)) option" where
  "req_add_user_atom casemap mem str s =
     do {
       t \<leftarrow> s_user_table s;
       (t, r) \<leftarrow> add_atom casemap mem t str;
       Some (s\<lparr>s_user_table := Some t\<rparr>, r)
     }"

definition req_get_user_atom_name :: "u32 \<Rightarrow> nat \<Rightarrow> atom_server \<Rightarrow> status + (u8 list \<times> nat)" where
  "req_get_user_atom_name atom reply_max s =
     (case get_atom_entry (s_user_table s) atom of Inl st \<Rightarrow> Inl st
      | Inr (i, e) \<Rightarrow>
          Inr (take (min (2 * length (a_str e)) reply_max) (wchar_bytes (a_str e)), 2 * length (a_str e)))"

end
