(* ===== verification/Atom_Lists.thy ===== *)
theory Atom_Lists
  imports Atoms
begin

text \<open>
  The doubly linked hash chains of an atom table: what it means that a bucket holds a list of
  entries, and how the pointer updates of \<open>add_atom\<close> and \<open>delete_atom\<close> change that list.
\<close>

text \<open>
  \<open>dseg A p s xs q n\<close>: following \<open>a_next\<close> from \<open>s\<close> visits \<open>xs\<close> and arrives at \<open>n\<close>; the entry before \<open>s\<close> is
  \<open>p\<close>, the one before \<open>n\<close> is \<open>q\<close>, and the \<open>a_prev\<close> links agree.
\<close>

fun dseg :: "(nat \<Rightarrow> atom_entry option) \<Rightarrow> nat option \<Rightarrow> nat option \<Rightarrow> nat list \<Rightarrow> nat option \<Rightarrow> nat option \<Rightarrow> bool" where
  "dseg A p s [] q n \<longleftrightarrow> s = n \<and> p = q"
| "dseg A p s (i # xs) q n \<longleftrightarrow>
     s = Some i \<and> (\<exists>e. A i = Some e \<and> a_prev e = p \<and> dseg A (Some i) (a_next e) xs q n)"

definition dll :: "(nat \<Rightarrow> atom_entry option) \<Rightarrow> nat option \<Rightarrow> nat list \<Rightarrow> bool" where
  "dll A s xs \<longleftrightarrow> distinct xs \<and> (\<exists>q. dseg A None s xs q None)"

lemma dseg_append:
  "dseg A p s (xs @ ys) q n \<longleftrightarrow> (\<exists>r m. dseg A p s xs r m \<and> dseg A r m ys q n)"
  by (induction xs arbitrary: p s) auto

lemma dseg_last: "dseg A p s xs q n \<Longrightarrow> q = (if xs = [] then p else Some (last xs))"
  by (induction xs arbitrary: p s) auto

lemma dseg_first: "dseg A p s xs q n \<Longrightarrow> s = (if xs = [] then n else Some (hd xs))"
  by (cases xs) auto

text \<open>The links of an entry, and the rest of it.\<close>

definition links :: "atom_entry option \<Rightarrow> (nat option \<times> nat option) option" where
  "links = map_option (\<lambda>e. (a_next e, a_prev e))"

definition core :: "atom_entry option \<Rightarrow> (int \<times> u32 \<times> u16 \<times> wchar list) option" where
  "core = map_option (\<lambda>e. (a_count e, a_atom e, a_hash e, a_str e))"

lemma dseg_cong:
  assumes "\<And>i. i \<in> set xs \<Longrightarrow> links (B i) = links (A i)"
  shows "dseg B p s xs q n = dseg A p s xs q n"
  using assms
proof (induction xs arbitrary: p s)
  case (Cons i xs)
  have "links (B i) = links (A i)" using Cons.prems by simp
  then show ?case
    using Cons.IH Cons.prems by (cases "A i"; cases "B i") (auto simp: links_def)
qed simp

lemma dll_cong: "(\<And>i. i \<in> set xs \<Longrightarrow> links (B i) = links (A i)) \<Longrightarrow> dll B s xs = dll A s xs"
  using dseg_cong [of xs B A None s _ None] by (simp add: dll_def)

lemma dseg_Some: "dseg A p s xs q n \<Longrightarrow> i \<in> set xs \<Longrightarrow> \<exists>e. A i = Some e"
  by (induction xs arbitrary: p s) auto

lemma dll_Some: "dll A s xs \<Longrightarrow> i \<in> set xs \<Longrightarrow> \<exists>e. A i = Some e"
  using dseg_Some by (auto simp: dll_def)

section \<open>Pointer updates\<close>

lemma dseg_set_prev:
  assumes "dseg A p s xs q None" "distinct xs" "t_atoms t = A"
  shows "\<exists>B. set_prev s p' t = Some (t\<lparr>t_atoms := B\<rparr>) \<and> (\<exists>q'. dseg B p' s xs q' None) \<and>
             (\<forall>i. i \<notin> set (take 1 xs) \<longrightarrow> B i = A i) \<and>
             (\<forall>i. core (B i) = core (A i))"
proof (cases xs)
  case Nil
  then show ?thesis using assms by (intro exI [of _ A]) (cases t, auto simp: set_prev_def)
next
  case (Cons i ys)
  then obtain e where e: "s = Some i" "A i = Some e" "dseg A (Some i) (a_next e) ys q None"
    using assms(1) by auto
  let ?B = "A(i \<mapsto> e\<lparr>a_prev := p'\<rparr>)"
  have "dseg ?B (Some i) (a_next e) ys q None"
    using e(3) assms(2) Cons by (subst dseg_cong [of _ _ A]) auto
  then show ?thesis
    using e Cons assms(3) by (intro exI [of _ ?B]) (auto simp: set_prev_def core_def)
qed

lemma dseg_set_next:
  assumes "dseg A p s xs q n" "distinct xs" "xs \<noteq> []" "t_atoms t = A"
  shows "\<exists>B. set_next (last xs) n' t = Some (t\<lparr>t_atoms := B\<rparr>) \<and> dseg B p s xs q n' \<and>
             (\<forall>i. i \<noteq> last xs \<longrightarrow> B i = A i) \<and>
             (\<forall>i. core (B i) = core (A i))"
proof -
  obtain ys l where xs: "xs = ys @ [l]" using assms(3) by (cases xs rule: rev_exhaust) auto
  then obtain r e where e: "dseg A p s ys r (Some l)" "A l = Some e" "a_prev e = r" "q = Some l" "a_next e = n"
    using assms(1) by (auto simp: dseg_append)
  let ?B = "A(l \<mapsto> e\<lparr>a_next := n'\<rparr>)"
  have "dseg ?B p s ys r (Some l)" using e(1) assms(2) xs by (subst dseg_cong [of _ _ A]) auto
  then have "dseg ?B p s xs q n'" using e xs by (auto simp: dseg_append)
  then show ?thesis using e xs assms(4) by (intro exI [of _ ?B]) (auto simp: set_next_def core_def)
qed


text \<open>A new entry at the head of its bucket, as \<open>add_atom\<close> links it.\<close>

lemma dll_insert:
  assumes "dll A s xs" "i \<notin> set xs" "t_atoms t = A(i \<mapsto> e)" "a_next e = s" "a_prev e = None"
  shows "\<exists>B. set_prev s (Some i) t = Some (t\<lparr>t_atoms := B\<rparr>) \<and> dll B (Some i) (i # xs) \<and>
             (\<forall>j. j \<notin> set xs \<longrightarrow> B j = t_atoms t j) \<and> (\<forall>j. core (B j) = core (t_atoms t j))"
proof -
  obtain q where q: "dseg A None s xs q None" "distinct xs" using assms(1) by (auto simp: dll_def)
  have d: "dseg (t_atoms t) None s xs q None"
    using q(1) assms(2,3) by (subst dseg_cong [of _ _ A]) auto
  obtain B q' where B: "set_prev s (Some i) t = Some (t\<lparr>t_atoms := B\<rparr>)" "dseg B (Some i) s xs q' None"
      "\<forall>j. j \<notin> set (take 1 xs) \<longrightarrow> B j = t_atoms t j" "\<forall>j. core (B j) = core (t_atoms t j)"
    using dseg_set_prev [OF d q(2) refl] by blast
  have in_take: "j \<in> set (take 1 xs) \<Longrightarrow> j \<in> set xs" for j by (rule in_set_takeD)
  have "i \<notin> set (take 1 xs)" using assms(2) in_take by blast
  then have "B i = Some e" using B(3) assms(3) by simp
  then have "dll B (Some i) (i # xs)" using B(2) assms(2,4,5) q(2) by (auto simp: dll_def)
  then show ?thesis using B in_take by blast
qed

text \<open>The unlinking of \<open>delete_atom\<close>.\<close>

definition unlink_atom :: "atom_entry \<Rightarrow> atom_table \<Rightarrow> atom_table option" where
  "unlink_atom e t =
     do {
       t \<leftarrow> set_prev (a_next e) (a_prev e) t;
       (case a_prev e of
          Some p \<Rightarrow> set_next p (a_next e) t
        | None \<Rightarrow> Some (t\<lparr>t_entries := (t_entries t)(a_hash e := a_next e)\<rparr>))
     }"

lemma dll_remove:
  assumes "dll (t_atoms t) (t_entries t (a_hash e)) (xs @ i # ys)" "t_atoms t i = Some e"
  shows "\<exists>t'. unlink_atom e t = Some t' \<and> t_count t' = t_count t \<and>
              dll (t_atoms t') (t_entries t' (a_hash e)) (xs @ ys) \<and>
              (\<forall>h. h \<noteq> a_hash e \<longrightarrow> t_entries t' h = t_entries t h) \<and>
              (\<forall>j. j \<notin> set (xs @ ys) \<longrightarrow> t_atoms t' j = t_atoms t j) \<and>
              (\<forall>j. core (t_atoms t' j) = core (t_atoms t j))"
proof -
  let ?s = "t_entries t (a_hash e)"
  obtain q where d: "dseg (t_atoms t) None ?s xs (a_prev e) (Some i)"
      "dseg (t_atoms t) (Some i) (a_next e) ys q None" and dist: "distinct (xs @ i # ys)"
    using assms by (auto simp: dll_def dseg_append)
  have in_take: "j \<in> set (take 1 ys) \<Longrightarrow> j \<in> set ys" for j by (rule in_set_takeD)
  obtain B q' where B: "set_prev (a_next e) (a_prev e) t = Some (t\<lparr>t_atoms := B\<rparr>)"
      "dseg B (a_prev e) (a_next e) ys q' None"
      "\<forall>j. j \<notin> set (take 1 ys) \<longrightarrow> B j = t_atoms t j" "\<forall>j. core (B j) = core (t_atoms t j)"
    using dseg_set_prev [OF d(2) _ refl, of "a_prev e"] dist by auto
  have frame: "j \<notin> set ys \<Longrightarrow> B j = t_atoms t j" for j using B(3) in_take by blast
  have "B j = t_atoms t j" if "j \<in> set xs" for j using that dist by (intro frame) auto
  then have dx: "dseg B None ?s xs (a_prev e) (Some i)"
    using d(1) by (subst dseg_cong [of _ _ "t_atoms t"]) auto
  show ?thesis
  proof (cases "xs = []")
    case True
    then have p: "a_prev e = None" using dseg_last [OF d(1)] by simp
    let ?t = "t\<lparr>t_atoms := B, t_entries := (t_entries t)(a_hash e := a_next e)\<rparr>"
    have "unlink_atom e t = Some ?t" using B(1) p by (simp add: unlink_atom_def)
    moreover have "dll B (a_next e) ys" using B(2) dist p by (auto simp: dll_def)
    ultimately show ?thesis using True frame B(4) by auto
  next
    case False
    then have p: "a_prev e = Some (last xs)" using dseg_last [OF d(1)] by simp
    obtain C where C: "set_next (last xs) (a_next e) (t\<lparr>t_atoms := B\<rparr>) = Some (t\<lparr>t_atoms := B\<rparr>\<lparr>t_atoms := C\<rparr>)"
        "dseg C None ?s xs (a_prev e) (a_next e)" "\<forall>j. j \<noteq> last xs \<longrightarrow> C j = B j" "\<forall>j. core (C j) = core (B j)"
      using dseg_set_next [OF dx _ False, of "t\<lparr>t_atoms := B\<rparr>" "a_next e"] dist by auto
    have l: "last xs \<in> set xs" using False by simp
    have "C j = B j" if "j \<in> set ys" for j using that dist l C(3) by (metis disjoint_iff distinct_append list.set_intros(2))
    then have "dseg C (a_prev e) (a_next e) ys q' None"
      using B(2) by (subst dseg_cong [of _ _ B]) auto
    then have "dll C ?s (xs @ ys)" using C(2) dist by (auto simp: dll_def dseg_append)
    moreover have "unlink_atom e t = Some (t\<lparr>t_atoms := C\<rparr>)" using B(1) C(1) p by (simp add: unlink_atom_def)
    moreover have "C j = t_atoms t j" if "j \<notin> set (xs @ ys)" for j
      using that frame [of j] C(3) l by (metis Un_iff set_append)
    ultimately show ?thesis using C(4) B(4) by simp
  qed
qed

section \<open>Search\<close>

lemma find_atom_loop_dseg:
  "dseg A p s xs q None \<Longrightarrow>
   find_atom_loop casemap A str s = Some (find (\<lambda>i. \<exists>e. A i = Some e \<and> same_name casemap (a_str e) str) xs)"
  by (induction xs arbitrary: p s) (auto simp: find_atom_loop.simps)

end
