(* ===== verification/Atom_Inv.thy ===== *)
theory Atom_Inv
  imports Atom_Lists Unicode_Props
begin

text \<open>
  Atom tables against their specification.  Abstractly a table maps the numbers of its atoms to a
  name and a reference count; names are unique up to case.  The hash chains are hidden: every
  operation keeps the representation invariant, never follows a dangling link, always ends, and
  refines the abstract operation.
\<close>

section \<open>Abstract tables\<close>

type_synonym atoms = "nat \<Rightarrow> (wchar list \<times> int) option"

abbreviation atom_value :: "nat \<Rightarrow> u32" where
  "atom_value i \<equiv> of_nat i + MIN_STR_ATOM"

definition knows :: "casemap \<Rightarrow> atoms \<Rightarrow> wchar list \<Rightarrow> bool" where
  "knows casemap m str \<longleftrightarrow> (\<exists>i n c. m i = Some (n, c) \<and> same_name casemap n str)"

text \<open>
  Adding a name: a known one gains a reference, a new one takes the lowest free number; there is
  none if memory is short or all numbers are used.
\<close>

inductive spec_add :: "casemap \<Rightarrow> bool \<Rightarrow> atoms \<Rightarrow> wchar list \<Rightarrow> atoms \<Rightarrow> status + u32 \<Rightarrow> bool" where
  known: "m i = Some (n, c) \<Longrightarrow> same_name casemap n str \<Longrightarrow>
     spec_add casemap mem m str (m(i \<mapsto> (n, c + 1))) (Inr (atom_value i))"
| new: "\<not> knows casemap m str \<Longrightarrow> mem \<Longrightarrow> 1 \<le> i \<Longrightarrow> i < MAX_ATOMS \<Longrightarrow> m i = None \<Longrightarrow> (\<forall>j. 1 \<le> j \<and> j < i \<longrightarrow> m j \<noteq> None) \<Longrightarrow>
     spec_add casemap mem m str (m(i \<mapsto> (str, 1))) (Inr (atom_value i))"
| full: "\<not> knows casemap m str \<Longrightarrow> \<not> mem \<or> (\<forall>j. 1 \<le> j \<and> j < MAX_ATOMS \<longrightarrow> m j \<noteq> None) \<Longrightarrow>
     spec_add casemap mem m str m (Inl STATUS_NO_MEMORY)"

definition spec_delete :: "atoms \<Rightarrow> nat \<Rightarrow> atoms" where
  "spec_delete m i =
     (case m i of None \<Rightarrow> m | Some (n, c) \<Rightarrow> m(i := if c = 1 then None else Some (n, c - 1)))"

section \<open>Representation\<close>

definition abs_atoms :: "atom_table \<Rightarrow> atoms" where
  "abs_atoms t i = map_option (\<lambda>e. (a_str e, a_count e)) (t_atoms t i)"

definition name_ok :: "wchar list \<Rightarrow> bool" where
  "name_ok str \<longleftrightarrow> check_name str = None \<and> get_int_atom_value str = 0"

definition entry_ok :: "casemap \<Rightarrow> nat \<Rightarrow> nat \<Rightarrow> atom_entry \<Rightarrow> bool" where
  "entry_ok casemap n i e \<longleftrightarrow>
     1 \<le> i \<and> i < n \<and> a_atom e = atom_value i \<and> 0 < a_count e \<and> a_hash e = atom_hash casemap (a_str e) \<and>
     name_ok (a_str e)"

definition bucket :: "atom_table \<Rightarrow> u16 \<Rightarrow> nat set" where
  "bucket t h = {i. \<exists>e. t_atoms t i = Some e \<and> a_hash e = h}"

definition wf_atoms :: "casemap \<Rightarrow> atom_table \<Rightarrow> bool" where
  "wf_atoms casemap t \<longleftrightarrow>
     1 \<le> t_count t \<and> t_count t \<le> MAX_ATOMS \<and>
     (\<forall>i e. t_atoms t i = Some e \<longrightarrow> entry_ok casemap (t_count t) i e) \<and>
     (\<forall>i j e f. t_atoms t i = Some e \<and> t_atoms t j = Some f \<and> same_name casemap (a_str e) (a_str f) \<longrightarrow> i = j) \<and>
     (\<forall>h. \<exists>xs. dll (t_atoms t) (t_entries t h) xs \<and> set xs = bucket t h)"

lemma wf_atomsD:
  assumes "wf_atoms casemap t"
  shows "1 \<le> t_count t" "t_count t \<le> MAX_ATOMS"
    "t_atoms t i = Some e \<Longrightarrow> entry_ok casemap (t_count t) i e"
    "t_atoms t i = Some e \<Longrightarrow> t_atoms t j = Some f \<Longrightarrow> same_name casemap (a_str e) (a_str f) \<Longrightarrow> i = j"
    "\<exists>xs. dll (t_atoms t) (t_entries t h) xs \<and> set xs = bucket t h"
  using assms unfolding wf_atoms_def by blast+

text \<open>Names that are equal up to case.\<close>

lemma same_name_iff: "same_name casemap s1 s2 \<longleftrightarrow> map (to_lower casemap) s1 = map (to_lower casemap) s2"
proof (cases "length s1 = length s2")
  case True
  then show ?thesis by (simp add: same_name_def memicmp_strW_eq_0)
next
  case False
  then show ?thesis using map_eq_imp_length_eq by (auto simp: same_name_def)
qed

lemma same_name_sym: "same_name casemap s1 s2 \<Longrightarrow> same_name casemap s2 s1"
  by (simp add: same_name_iff)

lemma same_name_trans: "same_name casemap s1 s2 \<Longrightarrow> same_name casemap s2 s3 \<Longrightarrow> same_name casemap s1 s3"
  by (simp add: same_name_iff)

lemma same_name_refl [simp]: "same_name casemap s s"
  by (simp add: same_name_iff)

lemma same_name_hash: "same_name casemap s1 s2 \<Longrightarrow> atom_hash casemap s1 = atom_hash casemap s2"
  using hash_strW_lower [of casemap s1 s2 HASH_SIZE] by (simp add: same_name_iff atom_hash_def)


section \<open>Search\<close>

lemma find_atom_entry_spec:
  assumes w: "wf_atoms casemap t"
  shows "\<exists>r. find_atom_entry casemap t str (atom_hash casemap str) = Some r \<and>
             (case r of None \<Rightarrow> \<not> knows casemap (abs_atoms t) str
              | Some i \<Rightarrow> \<exists>e. t_atoms t i = Some e \<and> same_name casemap (a_str e) str)"
proof -
  let ?h = "atom_hash casemap str"
  let ?P = "\<lambda>i. \<exists>e. t_atoms t i = Some e \<and> same_name casemap (a_str e) str"
  obtain xs q where xs: "dseg (t_atoms t) None (t_entries t ?h) xs q None" "set xs = bucket t ?h"
    using wf_atomsD(5) [OF w, of ?h] by (auto simp: dll_def)
  have f: "find_atom_entry casemap t str ?h = Some (find ?P xs)"
    unfolding find_atom_entry_def by (rule find_atom_loop_dseg [OF xs(1)])
  have "\<not> knows casemap (abs_atoms t) str" if "find ?P xs = None"
  proof
    assume "knows casemap (abs_atoms t) str"
    then obtain i e where e: "t_atoms t i = Some e" "same_name casemap (a_str e) str"
      by (auto simp: knows_def abs_atoms_def)
    then have "a_hash e = ?h"
      using wf_atomsD(3) [OF w e(1)] same_name_hash by (simp add: entry_ok_def)
    then have "i \<in> set xs" using e xs(2) by (auto simp: bucket_def)
    then show False using that e by (auto simp: find_None_iff)
  qed
  then show ?thesis using f by (auto split: option.splits simp: find_Some_iff)
qed

section \<open>Changes\<close>

text \<open>Entries with the same core.\<close>

lemma core_Some:
  assumes "core (B j) = core (A j)" "B j = Some e"
  obtains f where "A j = Some f" "a_count f = a_count e" "a_atom f = a_atom e" "a_hash f = a_hash e" "a_str f = a_str e"
  using assms by (cases "A j") (auto simp: core_def)

lemma bucket_core:
  assumes "\<forall>j. core (B j) = core (A j)"
  shows "bucket (t\<lparr>t_atoms := B\<rparr>) h = bucket (t'\<lparr>t_atoms := A\<rparr>) h"
proof -
  have "i \<in> bucket (t\<lparr>t_atoms := B\<rparr>) h \<longleftrightarrow> i \<in> bucket (t'\<lparr>t_atoms := A\<rparr>) h" for i
    using assms [rule_format, of i] by (cases "A i"; cases "B i") (auto simp: bucket_def core_def)
  then show ?thesis by blast
qed

text \<open>The part of the invariant that does not depend on the links.\<close>

definition wf_core :: "casemap \<Rightarrow> nat \<Rightarrow> (nat \<Rightarrow> atom_entry option) \<Rightarrow> bool" where
  "wf_core casemap n A \<longleftrightarrow>
     1 \<le> n \<and> n \<le> MAX_ATOMS \<and> (\<forall>i e. A i = Some e \<longrightarrow> entry_ok casemap n i e) \<and>
     (\<forall>i j e f. A i = Some e \<and> A j = Some f \<and> same_name casemap (a_str e) (a_str f) \<longrightarrow> i = j)"

definition wf_chains :: "atom_table \<Rightarrow> bool" where
  "wf_chains t \<longleftrightarrow> (\<forall>h. \<exists>xs. dll (t_atoms t) (t_entries t h) xs \<and> set xs = bucket t h)"

lemma wf_atoms_split: "wf_atoms casemap t \<longleftrightarrow> wf_core casemap (t_count t) (t_atoms t) \<and> wf_chains t"
  unfolding wf_atoms_def wf_core_def wf_chains_def by blast

lemma wf_core_cong:
  assumes "wf_core casemap n A" "\<forall>j. core (B j) = core (A j)"
  shows "wf_core casemap n B"
proof -
  have "entry_ok casemap n i e" if b: "B i = Some e" for i e
  proof -
    obtain f where "A i = Some f" "a_count f = a_count e" "a_atom f = a_atom e" "a_hash f = a_hash e" "a_str f = a_str e"
      using core_Some [of B i A e] b assms(2) by metis
    then show ?thesis using assms(1) unfolding wf_core_def entry_ok_def by metis
  qed
  moreover have "i = j" if b: "B i = Some e" "B j = Some f" "same_name casemap (a_str e) (a_str f)" for i j e f
  proof -
    obtain e' f' where "A i = Some e'" "a_str e' = a_str e" "A j = Some f'" "a_str f' = a_str f"
      using core_Some [of B i A e] core_Some [of B j A f] b(1,2) assms(2) by metis
    then show ?thesis using assms(1) b(3) unfolding wf_core_def by metis
  qed
  ultimately show ?thesis using assms(1) unfolding wf_core_def by blast
qed

lemma wf_count:
  assumes w: "wf_atoms casemap t" and i: "t_atoms t i = Some e" and c: "0 < c"
  shows "wf_atoms casemap (t\<lparr>t_atoms := (t_atoms t)(i \<mapsto> e\<lparr>a_count := c\<rparr>)\<rparr>)"
    "abs_atoms (t\<lparr>t_atoms := (t_atoms t)(i \<mapsto> e\<lparr>a_count := c\<rparr>)\<rparr>) = (abs_atoms t)(i \<mapsto> (a_str e, c))"
proof -
  let ?A = "(t_atoms t)(i \<mapsto> e\<lparr>a_count := c\<rparr>)"
  have "wf_core casemap (t_count t) ?A"
    using w i c unfolding wf_atoms_split wf_core_def entry_ok_def by auto
  moreover have "wf_chains (t\<lparr>t_atoms := ?A\<rparr>)"
    unfolding wf_chains_def
  proof
    fix h
    obtain xs where xs: "dll (t_atoms t) (t_entries t h) xs" "set xs = bucket t h" using wf_atomsD(5) [OF w] by blast
    have "dll ?A (t_entries t h) xs" using xs(1) i by (subst dll_cong [of _ _ "t_atoms t"]) (auto simp: links_def)
    moreover have "bucket (t\<lparr>t_atoms := ?A\<rparr>) h = bucket t h" using i by (auto simp: bucket_def)
    ultimately show "\<exists>xs. dll (t_atoms (t\<lparr>t_atoms := ?A\<rparr>)) (t_entries (t\<lparr>t_atoms := ?A\<rparr>) h) xs \<and> set xs = bucket (t\<lparr>t_atoms := ?A\<rparr>) h"
      using xs(2) by auto
  qed
  ultimately show "wf_atoms casemap (t\<lparr>t_atoms := ?A\<rparr>)" by (simp add: wf_atoms_split)
  show "abs_atoms (t\<lparr>t_atoms := ?A\<rparr>) = (abs_atoms t)(i \<mapsto> (a_str e, c))" by (auto simp: abs_atoms_def)
qed

lemma free_index_spec:
  "i \<le> t_count t \<Longrightarrow> i \<le> free_index t i \<and> free_index t i \<le> t_count t \<and>
   (free_index t i < t_count t \<longrightarrow> t_atoms t (free_index t i) = None) \<and>
   (\<forall>j. i \<le> j \<and> j < free_index t i \<longrightarrow> t_atoms t j \<noteq> None)"
proof (induction t i rule: free_index.induct)
  case (1 t i)
  show ?case
  proof (cases "i < t_count t \<and> t_atoms t i \<noteq> None")
    case True
    then have eq: "free_index t i = free_index t (i + 1)" by (subst free_index.simps) auto
    have "\<forall>j. i \<le> j \<and> j < free_index t (i + 1) \<longrightarrow> t_atoms t j \<noteq> None"
      using 1(1) [OF True] True by (metis Suc_eq_plus1 Suc_leI le_neq_implies_less)
    then show ?thesis using 1(1) [OF True] True unfolding eq by auto
  next
    case False
    then have "free_index t i = i" by (subst free_index.simps) auto
    then show ?thesis using False 1(2) by auto
  qed
qed


text \<open>A new entry: stored at a free index, then put at the head of its chain.\<close>

lemma wf_new_core:
  assumes w: "wf_atoms casemap t" and n: "\<not> knows casemap (abs_atoms t) (a_str e)" and i: "t_atoms t i = None"
    and e: "entry_ok casemap m i e" "t_count t \<le> m" "m \<le> MAX_ATOMS"
  shows "wf_core casemap m ((t_atoms t)(i \<mapsto> e))"
proof -
  have "\<not> same_name casemap (a_str f) (a_str e)" if "t_atoms t j = Some f" for j f
    using that n by (auto simp: knows_def abs_atoms_def)
  moreover have "entry_ok casemap m j f" if "t_atoms t j = Some f" for j f
    using wf_atomsD(3) [OF w that] e(2) by (auto simp: entry_ok_def)
  ultimately show ?thesis
    using wf_atomsD(1,4) [OF w] e same_name_sym unfolding wf_core_def by (auto split: if_splits) (metis+)
qed

lemma wf_link_new:
  assumes w: "wf_atoms casemap t" and i: "t_atoms t i = None"
    and t0: "t_atoms t0 = (t_atoms t)(i \<mapsto> e)" "t_entries t0 = t_entries t"
    and e: "a_next e = t_entries t (a_hash e)" "a_prev e = None"
    and c: "wf_core casemap (t_count t0) (t_atoms t0)"
  shows "\<exists>B. set_prev (t_entries t (a_hash e)) (Some i) t0 = Some (t0\<lparr>t_atoms := B\<rparr>) \<and> B i = Some e \<and>
             (\<forall>j. core (B j) = core (t_atoms t0 j)) \<and>
             wf_atoms casemap (t0\<lparr>t_atoms := B, t_entries := (t_entries t)(a_hash e \<mapsto> i)\<rparr>)"
proof -
  let ?h = "a_hash e"
  obtain xs where xs: "dll (t_atoms t) (t_entries t ?h) xs" "set xs = bucket t ?h" using wf_atomsD(5) [OF w] by blast
  have ni: "i \<notin> set xs" using xs(2) i by (auto simp: bucket_def)
  obtain B where B: "set_prev (t_entries t ?h) (Some i) t0 = Some (t0\<lparr>t_atoms := B\<rparr>)" "dll B (Some i) (i # xs)"
      "\<forall>j. j \<notin> set xs \<longrightarrow> B j = t_atoms t0 j" "\<forall>j. core (B j) = core (t_atoms t0 j)"
    using dll_insert [OF xs(1) ni t0(1) e] by blast
  let ?t = "t0\<lparr>t_atoms := B, t_entries := (t_entries t)(?h \<mapsto> i)\<rparr>"
  have bk: "bucket ?t h = bucket t h \<union> (if h = ?h then {i} else {})" for h
  proof -
    have "bucket ?t h = bucket (t\<lparr>t_atoms := t_atoms t0\<rparr>) h"
      using bucket_core [OF B(4), of "t0\<lparr>t_entries := (t_entries t)(?h \<mapsto> i)\<rparr>" h t] by (simp add: bucket_def)
    also have "\<dots> = bucket t h \<union> (if h = ?h then {i} else {})" using i by (auto simp: bucket_def t0(1))
    finally show ?thesis .
  qed
  have "wf_chains ?t"
    unfolding wf_chains_def
  proof
    fix h
    show "\<exists>xs. dll (t_atoms ?t) (t_entries ?t h) xs \<and> set xs = bucket ?t h"
    proof (cases "h = ?h")
      case True
      then show ?thesis using B(2) xs(2) bk by (intro exI [of _ "i # xs"]) auto
    next
      case False
      obtain ys where ys: "dll (t_atoms t) (t_entries t h) ys" "set ys = bucket t h" using wf_atomsD(5) [OF w] by blast
      have "B j = t_atoms t j" if "j \<in> set ys" for j
      proof -
        have "j \<notin> set xs" "j \<noteq> i" using that ys(2) xs(2) False i by (auto simp: bucket_def)
        then show ?thesis using B(3) t0(1) by simp
      qed
      then have "dll B (t_entries t h) ys" using ys(1) by (subst dll_cong [of _ _ "t_atoms t"]) auto
      then show ?thesis using ys(2) bk False by (intro exI [of _ ys]) auto
    qed
  qed
  moreover have "wf_core casemap (t_count t0) B" using wf_core_cong [OF c B(4)] .
  ultimately have "wf_atoms casemap ?t" by (simp add: wf_atoms_split)
  moreover have "B i = Some e" using B(3) ni t0(1) by simp
  ultimately show ?thesis using B(1,4) by blast
qed

lemma abs_core:
  "(\<forall>j. core (B j) = core (A j)) \<Longrightarrow> t_atoms t = B \<Longrightarrow> abs_atoms t = (\<lambda>i. map_option (\<lambda>e. (a_str e, a_count e)) (A i))"
proof
  fix i assume a: "\<forall>j. core (B j) = core (A j)" "t_atoms t = B"
  show "abs_atoms t i = map_option (\<lambda>e. (a_str e, a_count e)) (A i)"
    using a(1) [rule_format, of i] a(2) by (cases "A i"; cases "B i") (auto simp: abs_atoms_def core_def)
qed

lemma atom_value_inj: "i < MAX_ATOMS \<Longrightarrow> atom_value i - MIN_STR_ATOM = of_nat i" "i < MAX_ATOMS \<Longrightarrow> unat (of_nat i :: u32) = i"
  by (simp_all add: MAX_ATOMS_def unat_of_nat take_bit_eq_mod unsigned_of_nat)

lemma add_new:
  assumes w: "wf_atoms casemap t" and n: "\<not> knows casemap (abs_atoms t) str" "name_ok str"
  shows "\<exists>t' r. (case add_atom_entry t \<lparr>a_next = t_entries t (atom_hash casemap str), a_prev = None, a_count = 1,
                       a_atom = 0, a_hash = atom_hash casemap str, a_str = str\<rparr> of
                   None \<Rightarrow> Some (t, Inl STATUS_NO_MEMORY)
                 | Some (t, i) \<Rightarrow>
                     do {
                       t \<leftarrow> set_prev (t_entries t (atom_hash casemap str)) (Some i) t;
                       e \<leftarrow> t_atoms t i;
                       Some (t\<lparr>t_entries := (t_entries t)(atom_hash casemap str \<mapsto> i)\<rparr>, Inr (a_atom e))
                     }) = Some (t', r) \<and>
                 wf_atoms casemap t' \<and> spec_add casemap True (abs_atoms t) str (abs_atoms t') r"
proof -
  define i where "i = free_index t 1"
  note fi = free_index_spec [OF wf_atomsD(1) [OF w], folded i_def]
  have tn: "t_atoms t i = None" using fi wf_atomsD(3) [OF w, of i] by (cases "i < t_count t") (auto simp: entry_ok_def)
  show ?thesis
  proof (cases "i = MAX_ATOMS")
    case True
    have "t_atoms t j \<noteq> None" if "1 \<le> j" "j < MAX_ATOMS" for j using fi that True by auto
    then have "spec_add casemap True (abs_atoms t) str (abs_atoms t) (Inl STATUS_NO_MEMORY)"
      using n(1) by (intro spec_add.full) (auto simp: abs_atoms_def)
    then show ?thesis using True w by (auto simp: add_atom_entry_def i_def)
  next
    case False
    let ?h = "atom_hash casemap str"
    define e where "e = \<lparr>a_next = t_entries t ?h, a_prev = None, a_count = 1, a_atom = atom_value i, a_hash = ?h, a_str = str\<rparr>"
    define t0 where "t0 = (if i = t_count t then t\<lparr>t_count := t_count t + 1\<rparr> else t)\<lparr>t_atoms := (t_atoms t)(i \<mapsto> e)\<rparr>"
    have im: "i < MAX_ATOMS" using fi False wf_atomsD(2) [OF w] by simp
    have "entry_ok casemap (t_count t0) i e" using fi n(2) by (auto simp: entry_ok_def e_def t0_def)
    moreover have "t_count t \<le> t_count t0" "t_count t0 \<le> MAX_ATOMS" using fi im wf_atomsD(2) [OF w] by (auto simp: t0_def)
    ultimately have c: "wf_core casemap (t_count t0) (t_atoms t0)"
      using wf_new_core [OF w _ tn, of e "t_count t0"] n(1) by (simp add: t0_def e_def)
    have t0: "t_atoms t0 = (t_atoms t)(i \<mapsto> e)" "t_entries t0 = t_entries t" by (simp_all add: t0_def)
    obtain B where B: "set_prev (t_entries t ?h) (Some i) t0 = Some (t0\<lparr>t_atoms := B\<rparr>)" "B i = Some e"
        "\<forall>j. core (B j) = core (t_atoms t0 j)" "wf_atoms casemap (t0\<lparr>t_atoms := B, t_entries := (t_entries t)(?h \<mapsto> i)\<rparr>)"
      using wf_link_new [OF w tn t0 _ _ c] by (auto simp: e_def)
    let ?t = "t0\<lparr>t_atoms := B, t_entries := (t_entries t)(?h \<mapsto> i)\<rparr>"
    have "abs_atoms ?t = (abs_atoms t)(i \<mapsto> (str, 1))"
      using abs_core [OF B(3), of ?t] by (auto simp: t0(1) abs_atoms_def e_def)
    moreover have "spec_add casemap True (abs_atoms t) str ((abs_atoms t)(i \<mapsto> (str, 1))) (Inr (atom_value i))"
      using n(1) fi im tn by (intro spec_add.new) (auto simp: abs_atoms_def)
    moreover have "add_atom_entry t \<lparr>a_next = t_entries t ?h, a_prev = None, a_count = 1, a_atom = 0, a_hash = ?h, a_str = str\<rparr> = Some (t0, i)"
      using False unfolding add_atom_entry_def i_def [symmetric] t0_def e_def by (simp add: Let_def)
    ultimately show ?thesis using B t0(2) by (auto simp: e_def)
  qed
qed

lemma add_atom_refines:
  assumes w: "wf_atoms casemap t" and n: "name_ok str"
  shows "\<exists>t' r. add_atom casemap mem t str = Some (t', r) \<and> wf_atoms casemap t' \<and>
                spec_add casemap mem (abs_atoms t) str (abs_atoms t') r"
proof -
  have nm: "check_name str = None" "get_int_atom_value str = 0" using n by (auto simp: name_ok_def)
  obtain f where f: "find_atom_entry casemap t str (atom_hash casemap str) = Some f"
      "case f of None \<Rightarrow> \<not> knows casemap (abs_atoms t) str | Some i \<Rightarrow> \<exists>e. t_atoms t i = Some e \<and> same_name casemap (a_str e) str"
    using find_atom_entry_spec [OF w] by blast
  show ?thesis
  proof (cases f)
    case (Some i)
    then obtain e where e: "t_atoms t i = Some e" "same_name casemap (a_str e) str" using f(2) by auto
    have ok: "entry_ok casemap (t_count t) i e" using wf_atomsD(3) [OF w e(1)] .
    have c: "0 < a_count e + 1" using ok by (simp add: entry_ok_def)
    have "spec_add casemap mem (abs_atoms t) str ((abs_atoms t)(i \<mapsto> (a_str e, a_count e + 1))) (Inr (atom_value i))"
      using e by (intro spec_add.known) (auto simp: abs_atoms_def)
    then show ?thesis
      using nm f(1) Some e(1) wf_count [OF w e(1) c] ok by (simp add: add_atom_def Let_def entry_ok_def)
  next
    case None
    then have nk: "\<not> knows casemap (abs_atoms t) str" using f(2) by simp
    show ?thesis
    proof (cases mem)
      case True
      then show ?thesis using nm f(1) None add_new [OF w nk n] by (simp add: add_atom_def Let_def)
    next
      case False
      then show ?thesis
        using nm f(1) None w nk by (auto simp: add_atom_def Let_def intro: spec_add.full)
    qed
  qed
qed


section \<open>Atom values\<close>

text \<open>The entry number of an atom value.\<close>

definition atom_index :: "u32 \<Rightarrow> nat option" where
  "atom_index atom =
     (if MIN_STR_ATOM \<le> atom \<and> atom < MIN_STR_ATOM + of_nat MAX_ATOMS then Some (unat (atom - MIN_STR_ATOM)) else None)"

lemma atom_index_value [simp]: "i < MAX_ATOMS \<Longrightarrow> atom_index (atom_value i) = Some i"
  by (simp add: atom_index_def atom_value_inj)
     (simp add: MIN_STR_ATOM_def MAX_ATOMS_def word_le_nat_alt word_less_nat_alt unat_word_ariths
       unsigned_of_nat take_bit_eq_mod)

lemma atom_index_Some: "atom_index atom = Some i \<Longrightarrow> atom = atom_value i \<and> i < MAX_ATOMS"
  by (auto simp: atom_index_def MIN_STR_ATOM_def MAX_ATOMS_def word_le_nat_alt word_less_nat_alt unat_sub_if'
      split: if_splits)

lemma get_atom_entry_spec:
  assumes w: "wf_atoms casemap t"
  shows "get_atom_entry (Some t) atom =
           (case atom_index atom of None \<Rightarrow> Inl STATUS_INVALID_HANDLE
            | Some i \<Rightarrow> (case t_atoms t i of None \<Rightarrow> Inl STATUS_INVALID_HANDLE | Some e \<Rightarrow> Inr (i, e)))"
proof -
  have le: "MIN_STR_ATOM + of_nat (t_count t) \<le> MIN_STR_ATOM + of_nat MAX_ATOMS"
    using wf_atomsD(2) [OF w]
    by (simp add: MIN_STR_ATOM_def MAX_ATOMS_def word_le_nat_alt unat_word_ariths unsigned_of_nat take_bit_eq_mod)
  have "t_atoms t i = None" if "atom_index atom = Some i" "\<not> atom < MIN_STR_ATOM + of_nat (t_count t)" for i
  proof (rule ccontr)
    assume "t_atoms t i \<noteq> None"
    then have "i < t_count t" using wf_atomsD(3) [OF w] by (auto simp: entry_ok_def)
    moreover have "atom = atom_value i" "i < MAX_ATOMS" using atom_index_Some [OF that(1)] by auto
    ultimately show False
      using that(2) wf_atomsD(2) [OF w]
      by (simp add: MIN_STR_ATOM_def MAX_ATOMS_def word_less_nat_alt unat_word_ariths unsigned_of_nat take_bit_eq_mod)
  qed
  then show ?thesis
    using le by (fastforce simp: get_atom_entry_def atom_index_def split: option.splits if_splits)
qed

section \<open>Deletion\<close>

lemma wf_unlink:
  assumes w: "wf_atoms casemap t" and e: "t_atoms t i = Some e"
  shows "\<exists>t'. unlink_atom e t = Some t' \<and> wf_atoms casemap (t'\<lparr>t_atoms := (t_atoms t')(i := None)\<rparr>) \<and>
              abs_atoms (t'\<lparr>t_atoms := (t_atoms t')(i := None)\<rparr>) = (abs_atoms t)(i := None)"
proof -
  let ?h = "a_hash e"
  obtain zs where zs: "dll (t_atoms t) (t_entries t ?h) zs" "set zs = bucket t ?h" using wf_atomsD(5) [OF w] by blast
  have "i \<in> set zs" using zs(2) e by (auto simp: bucket_def)
  then obtain xs ys where xy: "zs = xs @ i # ys" by (meson split_list)
  have dist: "distinct zs" using zs(1) by (simp add: dll_def)
  obtain t' where t': "unlink_atom e t = Some t'" "t_count t' = t_count t" "dll (t_atoms t') (t_entries t' ?h) (xs @ ys)"
      "\<forall>h. h \<noteq> ?h \<longrightarrow> t_entries t' h = t_entries t h" "\<forall>j. j \<notin> set (xs @ ys) \<longrightarrow> t_atoms t' j = t_atoms t j"
      "\<forall>j. core (t_atoms t' j) = core (t_atoms t j)"
    using dll_remove [OF zs(1) [unfolded xy] e] by blast
  let ?A = "(t_atoms t')(i := None)" and ?t = "t'\<lparr>t_atoms := (t_atoms t')(i := None)\<rparr>"
  have "wf_core casemap (t_count t) (t_atoms t')"
    using wf_core_cong [OF _ t'(6)] w by (simp add: wf_atoms_split)
  then have "wf_core casemap (t_count t') ?A" using t'(2) unfolding wf_core_def by auto
  moreover have "wf_chains ?t"
    unfolding wf_chains_def
  proof
    fix h
    have bk: "bucket ?t h = bucket t h - {i}"
      using bucket_core [OF t'(6), of t' h t] by (auto simp: bucket_def)
    show "\<exists>xs. dll (t_atoms ?t) (t_entries ?t h) xs \<and> set xs = bucket ?t h"
    proof (cases "h = ?h")
      case True
      have "dll ?A (t_entries t' ?h) (xs @ ys)"
        using t'(3) dist xy by (subst dll_cong [of _ _ "t_atoms t'"]) auto
      then show ?thesis using True bk zs(2) xy dist by (intro exI [of _ "xs @ ys"]) auto
    next
      case False
      obtain us where us: "dll (t_atoms t) (t_entries t h) us" "set us = bucket t h" using wf_atomsD(5) [OF w] by blast
      have "?A j = t_atoms t j" if "j \<in> set us" for j
      proof -
        have "j \<notin> set zs" using that us(2) zs(2) False by (auto simp: bucket_def)
        then show ?thesis using t'(5) xy by simp
      qed
      then have "dll ?A (t_entries t h) us" using us(1) by (subst dll_cong [of _ _ "t_atoms t"]) auto
      moreover have "bucket t h - {i} = bucket t h" using False e by (auto simp: bucket_def)
      ultimately show ?thesis using us(2) bk False t'(4) by (intro exI [of _ us]) simp
    qed
  qed
  ultimately have "wf_atoms casemap ?t" by (simp add: wf_atoms_split)
  moreover have "abs_atoms ?t = (abs_atoms t)(i := None)"
    using abs_core [OF t'(6), of t'] by (auto simp: abs_atoms_def fun_eq_iff)
  ultimately show ?thesis using t'(1) by blast
qed

lemma delete_atom_refines:
  assumes w: "wf_atoms casemap t"
  shows "\<exists>t'. wf_atoms casemap t' \<and>
           (case atom_index atom of
              Some i \<Rightarrow>
                if abs_atoms t i = None then delete_atom (Some t) atom = Some (Some t, STATUS_INVALID_HANDLE)
                else delete_atom (Some t) atom = Some (Some t', STATUS_SUCCESS) \<and> abs_atoms t' = spec_delete (abs_atoms t) i
            | None \<Rightarrow> delete_atom (Some t) atom = Some (Some t, STATUS_INVALID_HANDLE))"
proof (cases "\<exists>i e. atom_index atom = Some i \<and> t_atoms t i = Some e")
  case False
  then have "get_atom_entry (Some t) atom = Inl STATUS_INVALID_HANDLE"
    by (auto simp: get_atom_entry_spec [OF w] split: option.splits)
  then show ?thesis using False w by (auto simp: delete_atom_def abs_atoms_def split: option.splits)
next
  case True
  then obtain i e where e: "atom_index atom = Some i" "t_atoms t i = Some e" by blast
  have g: "get_atom_entry (Some t) atom = Inr (i, e)" using e by (simp add: get_atom_entry_spec [OF w])
  have pos: "0 < a_count e" using wf_atomsD(3) [OF w e(2)] by (simp add: entry_ok_def)
  show ?thesis
  proof (cases "a_count e = 1")
    case True
    obtain t' where t': "unlink_atom e t = Some t'" "wf_atoms casemap (t'\<lparr>t_atoms := (t_atoms t')(i := None)\<rparr>)"
        "abs_atoms (t'\<lparr>t_atoms := (t_atoms t')(i := None)\<rparr>) = (abs_atoms t)(i := None)"
      using wf_unlink [OF w e(2)] by blast
    have "delete_atom (Some t) atom = Some (Some (t'\<lparr>t_atoms := (t_atoms t')(i := None)\<rparr>), STATUS_SUCCESS)"
      using g True t'(1) by (auto simp: delete_atom_def unlink_atom_def bind_eq_Some_conv split: option.splits)
    moreover have "spec_delete (abs_atoms t) i = (abs_atoms t)(i := None)"
      using e True by (simp add: spec_delete_def abs_atoms_def)
    ultimately show ?thesis using e t'(2,3) by (auto simp: abs_atoms_def)
  next
    case False
    have "0 < a_count e - 1" using pos False by simp
    then show ?thesis
      using e g False wf_count [OF w e(2), of "a_count e - 1"]
      by (auto simp: delete_atom_def spec_delete_def abs_atoms_def)
  qed
qed

lemma find_atom_spec:
  assumes w: "wf_atoms casemap t" and n: "name_ok str"
  shows "if knows casemap (abs_atoms t) str
         then \<exists>i n c. abs_atoms t i = Some (n, c) \<and> same_name casemap n str \<and> find_atom casemap t str = Some (Inr (atom_value i))
         else find_atom casemap t str = Some (Inl STATUS_OBJECT_NAME_NOT_FOUND)"
proof -
  have nm: "check_name str = None" "get_int_atom_value str = 0" using n by (auto simp: name_ok_def)
  obtain f where f: "find_atom_entry casemap t str (atom_hash casemap str) = Some f"
      "case f of None \<Rightarrow> \<not> knows casemap (abs_atoms t) str | Some i \<Rightarrow> \<exists>e. t_atoms t i = Some e \<and> same_name casemap (a_str e) str"
    using find_atom_entry_spec [OF w] by blast
  show ?thesis
  proof (cases f)
    case None
    then show ?thesis using f nm by (simp add: find_atom_def)
  next
    case (Some i)
    then obtain e where e: "t_atoms t i = Some e" "same_name casemap (a_str e) str" using f(2) by auto
    have a: "abs_atoms t i = Some (a_str e, a_count e)" using e by (simp add: abs_atoms_def)
    then have "knows casemap (abs_atoms t) str" using e(2) by (auto simp: knows_def)
    moreover have "find_atom casemap t str = Some (Inr (atom_value i))"
      using f(1) Some nm e wf_atomsD(3) [OF w e(1)] by (simp add: find_atom_def entry_ok_def)
    ultimately show ?thesis using a e(2) by auto
  qed
qed

end
