(* ===== verification/Atom_Props.thy ===== *)
theory Atom_Props
  imports Atom_Inv
begin

text \<open>
  Atom tables: the contract that users of a table rely on, and the properties of \<open>server/atom.c\<close>.
\<close>

section \<open>The contract of a table of names\<close>





lemma wf_create [simp]: "wf_atoms casemap create_atom_table"
  by (auto simp: wf_atoms_def create_atom_table_def MAX_ATOMS_def bucket_def dll_def)

section \<open>Integer atoms\<close>

text \<open>The number that a list of decimal digits stands for.\<close>

definition decimal :: "wchar list \<Rightarrow> nat" where
  "decimal cs = foldl (\<lambda>n c. n * 10 + (unat c - 48)) 0 cs"

definition digits :: "wchar list \<Rightarrow> bool" where
  "digits cs \<longleftrightarrow> (\<forall>c\<in>set cs. 48 \<le> c \<and> c \<le> 57)"

lemma foldl_decimal_ge: "n \<le> foldl (\<lambda>n c. n * 10 + (unat c - 48)) n cs"
proof (induction cs arbitrary: n)
  case (Cons c cs)
  show ?case using Cons [of "n * 10 + (unat c - 48)"] by simp
qed simp

lemma int_atom_step:
  fixes c :: wchar
  assumes "unat ret < 0xc000" "48 \<le> c" "c \<le> 57"
  shows "unat (ret * 10 + ucast c - 48 :: u32) = unat ret * 10 + (unat c - 48)"
proof -
  have c: "48 \<le> unat c" "unat c \<le> 57" using assms(2,3) by (simp_all add: word_le_nat_alt)
  have "unat (ret * 10 :: u32) = unat ret * 10" using assms(1) by (simp add: unat_word_ariths)
  moreover have "unat (ucast c :: u32) = unat c" by (simp add: unsigned_ucast_eq take_bit_nat_eq_self less_trans [OF unsigned_less])
  ultimately have "unat (ret * 10 + ucast c :: u32) = unat ret * 10 + unat c"
    using assms(1) c by (simp add: unat_word_ariths(1))
  moreover have "(48 :: u32) \<le> ret * 10 + ucast c" using calculation c by (simp add: word_le_nat_alt)
  ultimately show ?thesis using c by (simp add: unat_sub)
qed

lemma int_atom_digits_spec:
  assumes "unat ret < 0xc000"
  shows "unat (int_atom_digits ret cs) =
           (let n = foldl (\<lambda>n c. n * 10 + (unat c - 48)) (unat ret) cs in if digits cs \<and> n < 0xc000 then n else 0)"
  using assms
proof (induction cs arbitrary: ret)
  case (Cons c cs)
  show ?case
  proof (cases "48 \<le> c \<and> c \<le> 57")
    case True
    let ?r = "ret * 10 + ucast c - 48 :: u32"
    have r: "unat ?r = unat ret * 10 + (unat c - 48)" using int_atom_step [OF Cons.prems] True by simp
    show ?thesis
    proof (cases "unat ?r < 0xc000")
      case small: True
      then have "\<not> ?r \<ge> MAXINTATOM" by (simp add: MAXINTATOM_def word_le_nat_alt)
      then show ?thesis using True Cons.IH [OF small] r by (auto simp: digits_def Let_def not_less)
    next
      case big: False
      then have "?r \<ge> MAXINTATOM" by (simp add: MAXINTATOM_def word_le_nat_alt)
      moreover have "\<not> foldl (\<lambda>n c. n * 10 + (unat c - 48)) (unat ?r) cs < 0xc000"
        using foldl_decimal_ge [of "unat ?r" cs] big by linarith
      ultimately show ?thesis using True r by (auto simp: Let_def not_less)
    qed
  next
    case False
    then show ?thesis by (auto simp: digits_def Let_def not_le)
  qed
qed (simp add: digits_def)

section \<open>Properties\<close>



text \<open>
  C25.  \<open>delete_atom\<close> always returns and keeps the table well formed: a value that is no atom of the
  table gives \<open>STATUS_INVALID_HANDLE\<close> and no change, otherwise one reference is dropped and the atom
  disappears with its last one; no other atom changes.
\<close>

theorem delete_atom_refinement:
  assumes "wf_atoms casemap t"
  shows "\<exists>t'. wf_atoms casemap t' \<and>
           (case atom_index atom of
              Some i \<Rightarrow>
                if abs_atoms t i = None then delete_atom (Some t) atom = Some (Some t, STATUS_INVALID_HANDLE)
                else delete_atom (Some t) atom = Some (Some t', STATUS_SUCCESS) \<and> abs_atoms t' = spec_delete (abs_atoms t) i
            | None \<Rightarrow> delete_atom (Some t) atom = Some (Some t, STATUS_INVALID_HANDLE))"
  by (rule delete_atom_refines [OF assms])

theorem delete_atom_refinement_witness:
  "delete_atom (Some create_atom_table) 5 = Some (Some create_atom_table, STATUS_INVALID_HANDLE)"
  using delete_atom_refinement [OF wf_create, of "\<lambda>n. 0" 5]
  by (simp add: atom_index_def MIN_STR_ATOM_def)



text \<open>
  C27.  \<open>get_int_atom_value\<close> computes the decimal number after a \<open>#\<close> when it is below
  \<open>MAXINTATOM\<close>, and 0 for everything else; its 32-bit arithmetic never wraps.  So integer atoms
  never collide with string atoms, which start at the same value.
\<close>

theorem int_atom_value_decimal:
  "unat (get_int_atom_value (c # cs)) = (if c = 35 \<and> digits cs \<and> decimal cs < 0xc000 then decimal cs else 0) \<and>
   get_int_atom_value (c # cs) < MIN_STR_ATOM"
proof -
  have v: "unat (get_int_atom_value (c # cs)) = (if c = 35 \<and> digits cs \<and> decimal cs < 0xc000 then decimal cs else 0)"
    using int_atom_digits_spec [of 0 cs] by (simp add: get_int_atom_value_def decimal_def Let_def)
  then have "unat (get_int_atom_value (c # cs)) < 0xc000" by simp
  then show ?thesis using v by (simp add: MIN_STR_ATOM_def word_less_nat_alt)
qed

end
