(* ===== verification/Users.thy ===== *)
theory Users
  imports Wine_Prelude "HOL-Library.Monad_Syntax"
begin

text \<open>
  User handles, \<open>server/user.c\<close>: the table of user objects that the server shares with its clients.
  \<open>user_entries\<close> is the array in shared memory, \<open>server_objects\<close> the parallel array of server
  pointers, 0 for \<open>NULL\<close>; an entry pointer is an index.  The \<open>offset\<close> of a free entry links the free
  list, which ends with -1.  \<open>None\<close> means an access outside the arrays.
\<close>

section \<open>State\<close>

definition FIRST_USER_HANDLE :: u32 where "FIRST_USER_HANDLE = 0x0020"
definition LAST_USER_HANDLE :: u32 where "LAST_USER_HANDLE = 0xffef"
definition MAX_USER_HANDLES :: nat where
  "MAX_USER_HANDLES = unat (drop_bit 1 (LAST_USER_HANDLE - FIRST_USER_HANDLE + 1))"

abbreviation NTUSER_OBJ_WINDOW :: u16 where "NTUSER_OBJ_WINDOW \<equiv> 0x01"
abbreviation NTUSER_OBJ_MENU :: u16 where "NTUSER_OBJ_MENU \<equiv> 0x02"
abbreviation NTUSER_OBJ_ICON :: u16 where "NTUSER_OBJ_ICON \<equiv> 0x03"
abbreviation NTUSER_OBJ_WINPOS :: u16 where "NTUSER_OBJ_WINPOS \<equiv> 0x04"
abbreviation NTUSER_OBJ_ACCEL :: u16 where "NTUSER_OBJ_ACCEL \<equiv> 0x08"
abbreviation NTUSER_OBJ_HOOK :: u16 where "NTUSER_OBJ_HOOK \<equiv> 0x0f"
abbreviation NTUSER_OBJ_IMC :: u16 where "NTUSER_OBJ_IMC \<equiv> 0x11"

record user_entry =
  ue_offset :: u64
  ue_tid :: u32
  ue_pid :: u32
  ue_id :: u64
  ue_type :: u16
  ue_generation :: u16

record user_state =
  user_entries :: "user_entry list"
  server_objects :: "nat list"
  freelist :: u64
  nb_handles :: nat

text \<open>The arrays at the start of the server: zero-initialised memory.\<close>

definition user_init :: user_state where
  "user_init =
     \<lparr>user_entries = replicate MAX_USER_HANDLES
        \<lparr>ue_offset = 0, ue_tid = 0, ue_pid = 0, ue_id = 0, ue_type = 0, ue_generation = 0\<rparr>,
      server_objects = replicate MAX_USER_HANDLES 0, freelist = - 1, nb_handles = 0\<rparr>"

abbreviation entry_at :: "user_state \<Rightarrow> nat \<Rightarrow> user_entry" where
  "entry_at u i \<equiv> user_entries u ! i"

section \<open>Entries\<close>

definition get_server_object :: "nat \<Rightarrow> user_state \<Rightarrow> nat" where
  "get_server_object i u = server_objects u ! i"

definition set_server_object :: "nat \<Rightarrow> nat \<Rightarrow> user_state \<Rightarrow> user_state \<times> nat" where
  "set_server_object i p u = (u\<lparr>server_objects := (server_objects u)[i := p]\<rparr>, server_objects u ! i)"

definition handle_index :: "u32 \<Rightarrow> nat" where
  "handle_index handle = unat (drop_bit 1 ((handle AND 0xffff) - FIRST_USER_HANDLE))"

definition handle_to_entry :: "u32 \<Rightarrow> user_state \<Rightarrow> nat option" where
  "handle_to_entry handle u =
     (let generation = ucast (drop_bit 16 handle) :: u16; index = handle_index handle
      in if index \<ge> nb_handles u then None
         else
           (let entry = entry_at u index
            in if ue_type entry = 0 then None
               else if generation = 0 \<or> generation = 0xffff then Some index
               else if generation = ue_generation entry then Some index
               else None))"

definition entry_to_handle :: "nat \<Rightarrow> user_state \<Rightarrow> u32" where
  "entry_to_handle i u =
     push_bit 1 (of_nat i) + FIRST_USER_HANDLE + push_bit 16 (ucast (ue_generation (entry_at u i)))"

text \<open>\<open>tid\<close> and \<open>pid\<close> are the ids of the current thread and process.\<close>

definition alloc_user_entry ::
  "u32 \<Rightarrow> u32 \<Rightarrow> u64 \<times> u64 \<Rightarrow> u16 \<Rightarrow> user_state \<Rightarrow> (user_state \<times> nat) option" where
  "alloc_user_entry tid pid locator type u =
     do {
       (u, i, generation) \<leftarrow>
         (if freelist u \<noteq> - 1 then
            (let i = unat (freelist u)
             in if i < length (user_entries u)
                then Some (u\<lparr>freelist := ue_offset (entry_at u i)\<rparr>, i, ue_generation (entry_at u i) + 1)
                else None)
          else Some (u\<lparr>nb_handles := nb_handles u + 1\<rparr>, nb_handles u, 1));
       let generation = (if generation = 0 \<or> generation = 0xffff then 1 else generation);
       if i < length (user_entries u)
       then Some (u\<lparr>user_entries := (user_entries u)
                     [i := \<lparr>ue_offset = fst locator, ue_tid = tid, ue_pid = pid, ue_id = snd locator,
                           ue_type = type, ue_generation = generation\<rparr>]\<rparr>, i)
       else None
     }"

definition free_user_entry :: "nat \<Rightarrow> user_state \<Rightarrow> user_state" where
  "free_user_entry i u =
     u\<lparr>user_entries := (user_entries u)[i := (entry_at u i)\<lparr>ue_type := 0, ue_offset := freelist u\<rparr>],
       freelist := of_nat i\<rparr>"

section \<open>Handles\<close>

text \<open>\<open>shared\<close> is the locator of the shared object, if there is one.\<close>

definition alloc_user_handle ::
  "u32 \<Rightarrow> u32 \<Rightarrow> nat \<Rightarrow> (u64 \<times> u64) option \<Rightarrow> u16 \<Rightarrow> user_state \<Rightarrow> (user_state \<times> u32) option" where
  "alloc_user_handle tid pid p shared type u =
     do {
       (u, i) \<leftarrow> alloc_user_entry tid pid (case shared of None \<Rightarrow> (0, 0) | Some l \<Rightarrow> l) type u;
       let u = fst (set_server_object i p u);
       Some (u, entry_to_handle i u)
     }"

definition get_user_object :: "u32 \<Rightarrow> u16 \<Rightarrow> user_state \<Rightarrow> nat" where
  "get_user_object handle type u =
     (case handle_to_entry handle u of None \<Rightarrow> 0
      | Some i \<Rightarrow> if ue_type (entry_at u i) \<noteq> type then 0 else get_server_object i u)"

definition get_user_full_handle :: "u32 \<Rightarrow> user_state \<Rightarrow> u32" where
  "get_user_full_handle handle u =
     (if drop_bit 16 handle \<noteq> 0 then handle
      else case handle_to_entry handle u of None \<Rightarrow> handle | Some i \<Rightarrow> entry_to_handle i u)"

definition get_user_object_handle :: "u32 \<Rightarrow> u16 \<Rightarrow> user_state \<Rightarrow> u32 \<times> nat" where
  "get_user_object_handle handle type u =
     (case handle_to_entry handle u of None \<Rightarrow> (handle, 0)
      | Some i \<Rightarrow> if ue_type (entry_at u i) \<noteq> type then (handle, 0)
                 else (entry_to_handle i u, get_server_object i u))"

definition free_user_handle :: "u32 \<Rightarrow> user_state \<Rightarrow> user_state \<times> (status + nat)" where
  "free_user_handle handle u =
     (case handle_to_entry handle u of None \<Rightarrow> (u, Inl STATUS_INVALID_HANDLE)
      | Some i \<Rightarrow> (let (u, ret) = set_server_object i 0 u in (free_user_entry i u, Inr ret)))"

text \<open>The loop of \<open>next_user_handle\<close> from entry \<open>i\<close>.\<close>

function next_entry :: "u16 \<Rightarrow> user_state \<Rightarrow> nat \<Rightarrow> nat option" where
  "next_entry type u i =
     (if i < nb_handles u then
        (if type = 0 \<or> ue_type (entry_at u i) = type then Some i else next_entry type u (i + 1))
      else None)"
  by pat_completeness auto
termination by (relation "measure (\<lambda>(type, u, i). nb_handles u - i)") auto

declare next_entry.simps [simp del]

text \<open>\<open>next_user_handle\<close>: the new value of the handle and the object, \<open>None\<close> at the end.\<close>

definition next_user_handle :: "u32 \<Rightarrow> u16 \<Rightarrow> user_state \<Rightarrow> (u32 \<times> nat) option" where
  "next_user_handle handle type u =
     (let found = (\<lambda>i. map_option (\<lambda>i. (entry_to_handle i u, get_server_object i u)) (next_entry type u i))
      in if handle = 0 then found 0
         else if handle_index handle \<ge> nb_handles u then None
         else found (handle_index handle + 1))"

definition client_type :: "u16 \<Rightarrow> bool" where
  "client_type t \<longleftrightarrow> t = NTUSER_OBJ_MENU \<or> t = NTUSER_OBJ_ICON \<or> t = NTUSER_OBJ_WINPOS \<or> t = NTUSER_OBJ_ACCEL \<or> t = NTUSER_OBJ_IMC"

definition free_process_user_handles :: "u32 \<Rightarrow> user_state \<Rightarrow> user_state" where
  "free_process_user_handles pid u =
     fold (\<lambda>i u. if client_type (ue_type (entry_at u i)) \<and> ue_pid (entry_at u i) = pid then free_user_entry i u else u)
       [0..<nb_handles u] u"

section \<open>Requests\<close>

text \<open>The object pointer \<open>(void *)-1\<close> of a client-side handle is never used; any non-zero value stands for it.\<close>

definition client_object :: nat where "client_object = 2 ^ 64 - 1"

definition req_alloc_user_handle :: "u32 \<Rightarrow> u32 \<Rightarrow> u16 \<Rightarrow> user_state \<Rightarrow> (user_state \<times> u32) option" where
  "req_alloc_user_handle tid pid type u = alloc_user_handle tid pid client_object None type u"

definition req_free_user_handle :: "u32 \<Rightarrow> u16 \<Rightarrow> user_state \<Rightarrow> user_state \<times> status" where
  "req_free_user_handle handle type u =
     (case handle_to_entry handle u of None \<Rightarrow> (u, STATUS_INVALID_HANDLE)
      | Some i \<Rightarrow> if ue_type (entry_at u i) = type then (free_user_entry i u, STATUS_SUCCESS)
                 else (u, STATUS_INVALID_HANDLE))"

end
