(* ===== verification/User_Inv.thy ===== *)
theory User_Inv
  imports Users
begin

text \<open>
  The invariant of the user handle table: the free list is a chain without repetition through free
  entries, and every entry in use has had a proper generation.  All operations keep it.
\<close>

section \<open>Handle values\<close>

lemma unat_low16: "unat ((w :: u32) AND 0xffff) = unat w mod 65536"
proof -
  have "w AND 0xffff = take_bit 16 w" by (simp add: take_bit_eq_mask mask_eq_exp_minus_1)
  then show ?thesis unfolding \<open>w AND 0xffff = take_bit 16 w\<close> unsigned_take_bit_eq by (simp add: take_bit_eq_mod)
qed

lemma unat_u16: "unat (g :: u16) < 65536"
  using unsigned_less [where ?'a = nat and w = g] by simp

lemma max_user_handles: "MAX_USER_HANDLES = 0x7fe8"
  by (simp add: MAX_USER_HANDLES_def LAST_USER_HANDLE_def FIRST_USER_HANDLE_def)

lemma unat_handle_parts:
  assumes "i < MAX_USER_HANDLES"
  shows "unat (push_bit 1 (of_nat i) + FIRST_USER_HANDLE + push_bit 16 (ucast (g :: u16)) :: u32)
           = 2 * i + 32 + 65536 * unat g"
proof -
  have i: "i < 0x7fe8" using assms by (simp add: max_user_handles)
  have "push_bit 1 (of_nat i) + FIRST_USER_HANDLE + push_bit 16 (ucast g) = (of_nat (2 * i + 32 + 65536 * unat g) :: u32)"
    by (simp add: push_bit_eq_mult FIRST_USER_HANDLE_def unsigned_ucast_eq)
  moreover have "2 * i + 32 + 65536 * unat g < 2 ^ 32" using i unat_u16 [of g] by simp
  ultimately show ?thesis by (simp only: unat_of_nat) simp
qed

lemma handle_index_entry:
  assumes "i < MAX_USER_HANDLES"
  shows "handle_index (entry_to_handle i u) = i"
proof -
  let ?h = "entry_to_handle i u" and ?g = "ue_generation (entry_at u i)"
  have i: "2 * i + 32 < 65536" using assms by (simp add: max_user_handles)
  have "unat ?h = 2 * i + 32 + 65536 * unat ?g"
    unfolding entry_to_handle_def by (rule unat_handle_parts [OF assms])
  then have "unat (?h AND 0xffff) = 2 * i + 32"
    using i by (simp add: unat_low16)
  then have "unat ((?h AND 0xffff) - FIRST_USER_HANDLE) = 2 * i"
    by (simp add: unat_sub word_le_nat_alt FIRST_USER_HANDLE_def)
  then show ?thesis by (simp only: handle_index_def unat_drop_bit_eq) (simp add: drop_bit_eq_div)
qed


lemma handle_generation:
  assumes "i < MAX_USER_HANDLES"
  shows "ucast (drop_bit 16 (entry_to_handle i u)) = ue_generation (entry_at u i)"
proof -
  let ?h = "entry_to_handle i u" and ?g = "ue_generation (entry_at u i)"
  have i: "2 * i + 32 < 65536" using assms by (simp add: max_user_handles)
  have "unat ?h = 2 * i + 32 + 65536 * unat ?g"
    unfolding entry_to_handle_def by (rule unat_handle_parts [OF assms])
  then have "unat (drop_bit 16 ?h) = unat ?g"
    using i by (simp only: unat_drop_bit_eq) (simp add: drop_bit_eq_div)
  then have "unat (ucast (drop_bit 16 ?h) :: u16) = unat ?g"
    using unat_u16 [of ?g] by (simp only: unsigned_ucast_eq) (simp add: take_bit_nat_eq_self)
  then show ?thesis by (simp only: word_unat_eq_iff)
qed

section \<open>The invariant\<close>

fun free_chain :: "user_state \<Rightarrow> u64 \<Rightarrow> nat list \<Rightarrow> bool" where
  "free_chain u f [] \<longleftrightarrow> f = - 1"
| "free_chain u f (i # xs) \<longleftrightarrow>
     f = of_nat i \<and> i < nb_handles u \<and> ue_type (entry_at u i) = 0 \<and> free_chain u (ue_offset (entry_at u i)) xs"

definition wf_users :: "user_state \<Rightarrow> bool" where
  "wf_users u \<longleftrightarrow>
     length (user_entries u) = MAX_USER_HANDLES \<and> length (server_objects u) = MAX_USER_HANDLES \<and>
     nb_handles u \<le> MAX_USER_HANDLES \<and>
     (\<forall>i<nb_handles u. ue_generation (entry_at u i) \<noteq> 0 \<and> ue_generation (entry_at u i) \<noteq> 0xffff) \<and>
     (\<exists>xs. distinct xs \<and> free_chain u (freelist u) xs)"

text \<open>There is an entry to allocate.\<close>

definition user_room :: "user_state \<Rightarrow> bool" where
  "user_room u \<longleftrightarrow> freelist u \<noteq> - 1 \<or> nb_handles u < MAX_USER_HANDLES"

lemma wf_user_init [simp]: "wf_users user_init"
  by (auto simp: wf_users_def user_init_def intro!: exI [of _ "[]"])

lemma free_chain_cong:
  assumes "free_chain u f xs" "nb_handles u \<le> nb_handles u'" "\<And>i. i \<in> set xs \<Longrightarrow> entry_at u' i = entry_at u i"
  shows "free_chain u' f xs"
  using assms by (induction xs arbitrary: f) auto

lemma free_chain_types:
  assumes "free_chain u f xs" "i \<in> set xs"
  shows "i < nb_handles u \<and> ue_type (entry_at u i) = 0"
  using assms by (induction xs arbitrary: f) auto

lemma small_index: "i < MAX_USER_HANDLES \<Longrightarrow> unat (of_nat i :: u64) = i \<and> (of_nat i :: u64) \<noteq> - 1"
proof -
  assume "i < MAX_USER_HANDLES"
  then have u: "unat (of_nat i :: u64) = i" by (simp add: unat_of_nat max_user_handles)
  moreover have "unat (- 1 :: u64) = 18446744073709551615" by (simp add: unsigned_minus_1_eq_mask mask_eq_exp_minus_1)
  ultimately show ?thesis using \<open>i < MAX_USER_HANDLES\<close> unfolding max_user_handles by force
qed

section \<open>Allocation\<close>

text \<open>The generation of an entry when it is allocated again.\<close>

definition next_generation :: "u16 \<Rightarrow> u16" where
  "next_generation g = (if g + 1 = 0 \<or> g + 1 = 0xffff then 1 else g + 1)"

lemma next_generation:
  assumes "g \<noteq> 0" "g \<noteq> 0xffff"
  shows "next_generation g \<noteq> 0" "next_generation g \<noteq> 0xffff" "next_generation g \<noteq> g"
  using assms by (auto simp: next_generation_def)

text \<open>What allocation does: it takes the head of the free list, or the next unused entry.\<close>

definition alloc_place :: "user_state \<Rightarrow> nat \<times> u16 \<times> u64 \<times> nat" where
  "alloc_place u =
     (if freelist u \<noteq> - 1
      then (unat (freelist u), next_generation (ue_generation (entry_at u (unat (freelist u)))),
            ue_offset (entry_at u (unat (freelist u))), nb_handles u)
      else (nb_handles u, 1, - 1, nb_handles u + 1))"

definition alloc_result :: "u32 \<Rightarrow> u32 \<Rightarrow> u64 \<times> u64 \<Rightarrow> u16 \<Rightarrow> user_state \<Rightarrow> user_state \<times> nat" where
  "alloc_result tid pid l type u =
     (let (i, g, f, n) = alloc_place u
      in (u\<lparr>user_entries := (user_entries u)[i := \<lparr>ue_offset = fst l, ue_tid = tid, ue_pid = pid, ue_id = snd l,
                                                 ue_type = type, ue_generation = g\<rparr>],
            freelist := f, nb_handles := n\<rparr>, i))"

lemma wf_freelist:
  assumes "wf_users u" "freelist u \<noteq> - 1"
  obtains xs where "distinct xs" "free_chain u (freelist u) (unat (freelist u) # xs)"
    "distinct (unat (freelist u) # xs)" "unat (freelist u) < nb_handles u"
proof -
  obtain xs where xs: "distinct xs" "free_chain u (freelist u) xs" using assms by (auto simp: wf_users_def)
  then obtain i ys where ys: "xs = i # ys" using assms(2) by (cases xs) auto
  then have i: "freelist u = of_nat i" "i < nb_handles u" using xs by auto
  then have "unat (freelist u) = i" using small_index [of i] assms(1) by (simp add: wf_users_def)
  then show thesis using that [of ys] xs ys i by simp
qed

lemma alloc_user_entry_eq:
  assumes "wf_users u"
  shows "alloc_user_entry tid pid l type u = (if user_room u then Some (alloc_result tid pid l type u) else None)"
proof (cases "freelist u = - 1")
  case True
  then show ?thesis using assms
    by (auto simp: alloc_user_entry_def alloc_result_def alloc_place_def user_room_def wf_users_def Let_def)
next
  case False
  obtain xs where "unat (freelist u) < nb_handles u" using wf_freelist [OF assms False] by blast
  then have "unat (freelist u) < length (user_entries u)" using assms by (simp add: wf_users_def)
  then show ?thesis using False
    by (auto simp: alloc_user_entry_def alloc_result_def alloc_place_def user_room_def Let_def next_generation_def)
qed

lemma alloc_result_spec:
  assumes "wf_users u" "user_room u" "alloc_result tid pid l type u = (u', i)"
  shows "wf_users u'" "i < nb_handles u'" "nb_handles u \<le> nb_handles u'" "i < MAX_USER_HANDLES"
    "ue_type (entry_at u' i) = type" "ue_pid (entry_at u' i) = pid"
    "i < nb_handles u \<longrightarrow> ue_type (entry_at u i) = 0 \<and> ue_generation (entry_at u' i) \<noteq> ue_generation (entry_at u i)"
    "\<And>j. j \<noteq> i \<Longrightarrow> entry_at u' j = entry_at u j" "server_objects u' = server_objects u"
    "\<And>j. j < nb_handles u' \<Longrightarrow> j = i \<or> j < nb_handles u"
proof -
  obtain g f n where p: "alloc_place u = (i, g, f, n)"
    using assms(3) by (cases "alloc_place u") (auto simp: alloc_result_def)
  have u': "u' = u\<lparr>user_entries := (user_entries u)[i := \<lparr>ue_offset = fst l, ue_tid = tid, ue_pid = pid, ue_id = snd l,
                                                 ue_type = type, ue_generation = g\<rparr>], freelist := f, nb_handles := n\<rparr>"
    using assms(3) p by (simp add: alloc_result_def)
  have len: "length (user_entries u) = MAX_USER_HANDLES" using assms(1) by (simp add: wf_users_def)
  have c: "i < n \<and> n \<le> MAX_USER_HANDLES \<and> nb_handles u \<le> n \<and> g \<noteq> 0 \<and> g \<noteq> 0xffff \<and> (\<forall>j<n. j = i \<or> j < nb_handles u) \<and>
           (i < nb_handles u \<longrightarrow> ue_type (entry_at u i) = 0 \<and> g \<noteq> ue_generation (entry_at u i)) \<and>
           (\<exists>xs. distinct xs \<and> i \<notin> set xs \<and> free_chain u f xs)"
  proof (cases "freelist u = - 1")
    case True
    then show ?thesis using p assms(2) by (auto simp: alloc_place_def user_room_def intro!: exI [of _ "[]"])
  next
    case False
    then obtain xs where "free_chain u (freelist u) (unat (freelist u) # xs)"
      "distinct (unat (freelist u) # xs)" "unat (freelist u) < nb_handles u"
      using wf_freelist [OF assms(1) False] by blast
    then show ?thesis using p False assms(1) next_generation [of "ue_generation (entry_at u i)"]
      by (auto simp: alloc_place_def wf_users_def)
  qed
  then obtain xs where xs: "distinct xs" "i \<notin> set xs" "free_chain u f xs" by blast
  have "free_chain u' f xs" using xs c by (intro free_chain_cong [OF xs(3)]) (simp_all add: u', metis nth_list_update_neq)
  then show "wf_users u'" using assms(1) c xs(1) unfolding wf_users_def u' by (auto simp: nth_list_update)
  show "i < nb_handles u'" "nb_handles u \<le> nb_handles u'" "i < MAX_USER_HANDLES" "server_objects u' = server_objects u"
    "ue_type (entry_at u' i) = type" "ue_pid (entry_at u' i) = pid"
    "i < nb_handles u \<longrightarrow> ue_type (entry_at u i) = 0 \<and> ue_generation (entry_at u' i) \<noteq> ue_generation (entry_at u i)"
    using c len by (auto simp: u')
  show "j = i \<or> j < nb_handles u" if "j < nb_handles u'" for j using c that by (auto simp: u')
  show "entry_at u' j = entry_at u j" if "j \<noteq> i" for j using that by (auto simp: u' nth_list_update_neq)
qed


section \<open>Freeing\<close>

lemma free_user_entry_wf:
  assumes "wf_users u" "i < nb_handles u" "ue_type (entry_at u i) \<noteq> 0"
  shows "wf_users (free_user_entry i u)"
proof -
  obtain xs where xs: "distinct xs" "free_chain u (freelist u) xs" using assms(1) by (auto simp: wf_users_def)
  have ni: "i \<notin> set xs" using free_chain_types [OF xs(2)] assms(3) by blast
  let ?u = "free_user_entry i u"
  have len: "i < length (user_entries u)" using assms(1,2) by (simp add: wf_users_def)
  have "free_chain ?u (freelist u) xs"
    using ni by (intro free_chain_cong [OF xs(2)]) (simp_all add: free_user_entry_def, metis nth_list_update_neq)
  then have "free_chain ?u (freelist ?u) (i # xs)" using assms(2) len by (simp add: free_user_entry_def)
  moreover have "distinct (i # xs)" using ni xs(1) by simp
  ultimately have "\<exists>xs. distinct xs \<and> free_chain ?u (freelist ?u) xs" by blast
  then show ?thesis using assms(1) len unfolding wf_users_def by (auto simp: free_user_entry_def nth_list_update)
qed

lemma free_user_entry_at [simp]:
  "j \<noteq> i \<Longrightarrow> entry_at (free_user_entry i u) j = entry_at u j"
  "i < length (user_entries u) \<Longrightarrow> entry_at (free_user_entry i u) i = (entry_at u i)\<lparr>ue_type := 0, ue_offset := freelist u\<rparr>"
  "nb_handles (free_user_entry i u) = nb_handles u" "server_objects (free_user_entry i u) = server_objects u"
  "length (user_entries (free_user_entry i u)) = length (user_entries u)"
  by (simp_all add: free_user_entry_def)

lemma free_chain_server_objects [simp]: "free_chain (u\<lparr>server_objects := xs\<rparr>) f ys = free_chain u f ys"
  by (induction ys arbitrary: f) auto

lemma wf_set_server_object: "wf_users u \<Longrightarrow> wf_users (fst (set_server_object i p u))"
  by (simp add: wf_users_def set_server_object_def)

section \<open>What a handle denotes\<close>

text \<open>The entries in use, each with its generation, type, process and object.\<close>

definition used :: "user_state \<Rightarrow> nat \<Rightarrow> (u16 \<times> u16 \<times> u32 \<times> nat) option" where
  "used u i =
     (if i < nb_handles u \<and> ue_type (entry_at u i) \<noteq> 0
      then Some (ue_generation (entry_at u i), ue_type (entry_at u i), ue_pid (entry_at u i), server_objects u ! i)
      else None)"

text \<open>The entry that a handle value names.\<close>

definition names_entry :: "u32 \<Rightarrow> u16 \<Rightarrow> bool" where
  "names_entry h g \<longleftrightarrow> ucast (drop_bit 16 h) \<in> {0, 0xffff, g}"

lemma handle_to_entry_used:
  "handle_to_entry h u =
     (case used u (handle_index h) of None \<Rightarrow> None
      | Some (g, t, pid, p) \<Rightarrow> if names_entry h g then Some (handle_index h) else None)"
  by (auto simp: handle_to_entry_def used_def names_entry_def Let_def)

lemma get_user_object_used:
  "get_user_object h type u =
     (case used u (handle_index h) of None \<Rightarrow> 0
      | Some (g, t, pid, p) \<Rightarrow> if names_entry h g \<and> t = type then p else 0)"
  by (auto simp: get_user_object_def handle_to_entry_used get_server_object_def used_def split: option.splits if_splits)

lemma entry_handle_names:
  assumes "i < MAX_USER_HANDLES"
  shows "names_entry (entry_to_handle i u) g \<longleftrightarrow> ue_generation (entry_at u i) \<in> {0, 0xffff, g}"
  by (simp only: names_entry_def handle_generation [OF assms])

lemma used_free_entry:
  assumes "i < length (user_entries u)"
  shows "used (free_user_entry i u) = (used u)(i := None)"
  using assms by (auto simp: used_def fun_eq_iff)

lemma used_generation:
  assumes "wf_users u" "used u i = Some (g, t, pid, p)"
  shows "i < MAX_USER_HANDLES" "g \<noteq> 0" "g \<noteq> 0xffff" "t \<noteq> 0" "g = ue_generation (entry_at u i)"
  using assms by (auto simp: used_def wf_users_def split: if_splits)

text \<open>\<open>alloc_user_handle\<close>: a free entry comes into use under the handle, the others stay.\<close>

lemma alloc_user_handle_spec:
  assumes "wf_users u" "user_room u"
  obtains u' i where "alloc_user_handle tid pid p shared type u = Some (u', entry_to_handle i u')" "wf_users u'"
    "i < MAX_USER_HANDLES" "used u i = None"
    "used u' = (if type = 0 then used u else (used u)(i \<mapsto> (ue_generation (entry_at u' i), type, pid, p)))"
    "i < nb_handles u \<longrightarrow> ue_generation (entry_at u' i) \<noteq> ue_generation (entry_at u i)"
    "ue_generation (entry_at u' i) \<noteq> 0" "ue_generation (entry_at u' i) \<noteq> 0xffff"
proof -
  define l where "l = (case shared of None \<Rightarrow> (0, 0) | Some l \<Rightarrow> l)"
  obtain v i where v: "alloc_result tid pid l type u = (v, i)" by fastforce
  note spec = alloc_result_spec [OF assms v]
  define u' where "u' = fst (set_server_object i p v)"
  have e: "entry_at u' = entry_at v" "nb_handles u' = nb_handles v" "server_objects u' = (server_objects u)[i := p]"
    using spec(9) by (simp_all add: u'_def set_server_object_def)
  have li: "i < length (server_objects u)" using assms(1) spec(4) by (simp add: wf_users_def)
  have "alloc_user_handle tid pid p shared type u = Some (u', entry_to_handle i u')"
    using alloc_user_entry_eq [OF assms(1)] assms(2) v by (simp add: alloc_user_handle_def l_def [symmetric] u'_def Let_def)
  moreover have wf: "wf_users u'" unfolding u'_def by (rule wf_set_server_object [OF spec(1)])
  moreover have "used u i = None" using spec(7) by (auto simp: used_def)
  moreover have "used u' j = (if type = 0 then used u else (used u)(i \<mapsto> (ue_generation (entry_at u' i), type, pid, p))) j" for j
  proof (cases "j = i")
    case True
    then show ?thesis using spec(2,5,6,7) li \<open>used u i = None\<close> by (auto simp: used_def e)
  next
    case False
    then have "j < nb_handles v \<longleftrightarrow> j < nb_handles u" using spec(3,10) by force
    then show ?thesis using False spec(8) [OF False] by (auto simp: used_def e)
  qed
  moreover have "ue_generation (entry_at u' i) \<noteq> 0 \<and> ue_generation (entry_at u' i) \<noteq> 0xffff"
    using wf spec(2) by (auto simp: wf_users_def e)
  ultimately show thesis using that [of u' i] spec(4,7) e(1) by auto
qed

lemma alloc_user_handle_full:
  assumes "wf_users u" "\<not> user_room u"
  shows "alloc_user_handle tid pid p shared type u = None"
  using alloc_user_entry_eq [OF assms(1)] assms(2) by (simp add: alloc_user_handle_def)

text \<open>\<open>free_user_handle\<close> and the request.\<close>

lemma free_user_handle_spec:
  assumes "wf_users u"
  shows "case handle_to_entry h u of
           None \<Rightarrow> free_user_handle h u = (u, Inl STATUS_INVALID_HANDLE)
         | Some i \<Rightarrow> \<exists>u'. free_user_handle h u = (u', Inr (server_objects u ! i)) \<and> wf_users u' \<and> used u' = (used u)(i := None) \<and>
             i < nb_handles u \<and> (\<forall>j. ue_generation (entry_at u' j) = ue_generation (entry_at u j)) \<and> nb_handles u' = nb_handles u"
proof (cases "handle_to_entry h u")
  case (Some i)
  then have i: "i < nb_handles u" "ue_type (entry_at u i) \<noteq> 0"
    by (auto simp: handle_to_entry_def Let_def split: if_splits)
  define v where "v = fst (set_server_object i 0 u)"
  have v: "wf_users v" "entry_at v = entry_at u" "nb_handles v = nb_handles u" "server_objects v = (server_objects u)[i := 0]"
    using wf_set_server_object [OF assms] by (simp_all add: v_def set_server_object_def)
  have l: "i < length (user_entries v)" using v(1,3) i(1) by (simp add: wf_users_def)
  have "free_user_handle h u = (free_user_entry i v, Inr (server_objects u ! i))"
    using Some by (simp add: free_user_handle_def v_def set_server_object_def)
  moreover have "used (free_user_entry i v) = (used u)(i := None)"
    using used_free_entry [OF l] v by (auto simp: used_def fun_eq_iff)
  moreover have "ue_generation (entry_at (free_user_entry i v) j) = ue_generation (entry_at u j)" for j
    using l v(2) by (cases "j = i") auto
  moreover have "wf_users (free_user_entry i v)" using i v by (intro free_user_entry_wf) auto
  ultimately show ?thesis using Some i v(3) by auto
qed (simp add: free_user_handle_def)

lemma req_free_user_handle_spec:
  assumes "wf_users u"
  shows "wf_users (fst (req_free_user_handle h type u))"
  using assms free_user_entry_wf [OF assms]
  by (auto simp: req_free_user_handle_def handle_to_entry_def Let_def split: option.splits if_splits)

text \<open>The end of a process, up to entry \<open>n\<close>.\<close>

abbreviation client_owned :: "u32 \<Rightarrow> (u16 \<times> u16 \<times> u32 \<times> nat) option \<Rightarrow> bool" where
  "client_owned pid e \<equiv> (case e of None \<Rightarrow> False | Some (g, t, pid', p) \<Rightarrow> client_type t \<and> pid' = pid)"

lemma client_type_0 [simp]: "\<not> client_type 0"
  by (simp add: client_type_def)

lemma free_process_upto:
  assumes "wf_users u" "n \<le> nb_handles u"
  shows "let u' = fold (\<lambda>i u. if client_type (ue_type (entry_at u i)) \<and> ue_pid (entry_at u i) = pid
                            then free_user_entry i u else u) [0..<n] u
         in wf_users u' \<and> nb_handles u' = nb_handles u \<and>
            used u' = (\<lambda>i. if i < n \<and> client_owned pid (used u i) then None else used u i)"
  using assms(2)
proof (induction n)
  case (Suc n)
  define v where "v = fold (\<lambda>i u. if client_type (ue_type (entry_at u i)) \<and> ue_pid (entry_at u i) = pid
                            then free_user_entry i u else u) [0..<n] u"
  have v: "wf_users v" "nb_handles v = nb_handles u"
    "used v = (\<lambda>i. if i < n \<and> client_owned pid (used u i) then None else used u i)"
    using Suc by (simp_all add: v_def [symmetric])
  have n: "n < nb_handles v" "n < length (user_entries v)" using v(1,2) Suc.prems by (auto simp: wf_users_def)
  have same: "used v n = used u n" by (simp add: v(3))
  show ?case
  proof (cases "client_type (ue_type (entry_at v n)) \<and> ue_pid (entry_at v n) = pid")
    case True
    then have t: "ue_type (entry_at v n) \<noteq> 0" by (auto simp: client_type_def)
    then have "client_owned pid (used u n)" unfolding same [symmetric] using True n(1) by (simp add: used_def)
    then have "used (free_user_entry n v) = (\<lambda>i. if i < Suc n \<and> client_owned pid (used u i) then None else used u i)"
      unfolding used_free_entry [OF n(2)] v(3) by (auto simp: fun_eq_iff less_Suc_eq)
    then show ?thesis using True free_user_entry_wf [OF v(1) n(1) t] v(2) by (simp add: v_def [symmetric])
  next
    case False
    then have "\<not> client_owned pid (used u n)" unfolding same [symmetric] by (auto simp: used_def split: if_splits)
    then have "used v = (\<lambda>i. if i < Suc n \<and> client_owned pid (used u i) then None else used u i)"
      unfolding v(3) by (auto simp: fun_eq_iff less_Suc_eq)
    then show ?thesis using False v(1,2) by (simp add: v_def [symmetric] if_not_P)
  qed
qed (use assms in simp)

text \<open>The loop of \<open>next_user_handle\<close> finds the first entry of the type.\<close>

lemma next_entry_spec:
  "next_entry type u i =
     (if \<exists>j. i \<le> j \<and> j < nb_handles u \<and> (type = 0 \<or> ue_type (entry_at u j) = type)
      then Some (LEAST j. i \<le> j \<and> j < nb_handles u \<and> (type = 0 \<or> ue_type (entry_at u j) = type)) else None)"
proof (induction type u i rule: next_entry.induct)
  case (1 type u i)
  let ?P = "\<lambda>i j. i \<le> j \<and> j < nb_handles u \<and> (type = 0 \<or> ue_type (entry_at u j) = type)"
  show ?case
  proof (cases "?P i i")
    case True
    then have "(LEAST j. ?P i j) = i" by (intro Least_equality) auto
    then show ?thesis using True by (subst next_entry.simps) auto
  next
    case False
    then have "?P (i + 1) = ?P i" by (auto simp: fun_eq_iff Suc_le_eq order_le_less)
    then have "next_entry type u (i + 1) = (if \<exists>j. ?P i j then Some (LEAST j. ?P i j) else None)" if "i < nb_handles u"
      using 1 that False by auto
    then show ?thesis using False by (subst next_entry.simps) auto
  qed
qed

end
