(* ===== verification/User_Props.thy ===== *)
theory User_Props
  imports User_Inv
begin

text \<open>
  The contract of a table of handles, as a locale, its interpretation on the user handles, and the
  properties of \<open>server/user.c\<close>.
\<close>

section \<open>Contract\<close>

text \<open>
  A table gives out handles for values, resolves them and takes them back.  \<open>full\<close> are the handle
  values in the form in which they are given out.
\<close>

locale handle_space =
  fixes wf :: "'s \<Rightarrow> bool" and room :: "'s \<Rightarrow> bool" and full :: "'h \<Rightarrow> bool" and ok :: "'v \<Rightarrow> bool"
    and look :: "'h \<Rightarrow> 's \<Rightarrow> 'v option" and alloc :: "'v \<Rightarrow> 's \<Rightarrow> ('s \<times> 'h) option" and free :: "'h \<Rightarrow> 's \<Rightarrow> 's"
  assumes alloc_law: "wf u \<Longrightarrow> room u \<Longrightarrow> ok v \<Longrightarrow>
      \<exists>u' h. alloc v u = Some (u', h) \<and> wf u' \<and> full h \<and> look h u' = Some v \<and> look h u = None \<and>
             (\<forall>h'. full h' \<and> h' \<noteq> h \<longrightarrow> look h' u' = look h' u)"
    and free_law: "wf u \<Longrightarrow> full h \<Longrightarrow> look h u = Some v \<Longrightarrow>
      wf (free h u) \<and> room (free h u) \<and> look h (free h u) = None \<and> (\<forall>h'. full h' \<and> h' \<noteq> h \<longrightarrow> look h' (free h u) = look h' u)"
    and fresh_law: "wf u \<Longrightarrow> full h \<Longrightarrow> look h u = Some v \<Longrightarrow> alloc w (free h u) = Some (u', h') \<Longrightarrow> h' \<noteq> h"
begin

lemma alloc_SomeD:
  assumes "wf u" "room u" "ok v" "alloc v u = Some (u', h)"
  shows "wf u'" "full h" "look h u' = Some v" "look h u = None" "\<And>h'. full h' \<Longrightarrow> h' \<noteq> h \<Longrightarrow> look h' u' = look h' u"
  using alloc_law [OF assms(1-3)] assms(4) by auto

text \<open>Taking a new handle back restores what every handle denotes.\<close>

lemma alloc_then_free:
  assumes "wf u" "room u" "ok v" "alloc v u = Some (u', h)" "full h'"
  shows "look h' (free h u') = look h' u"
  using alloc_SomeD [OF assms(1-4)] free_law [of u' h v] assms(5) by metis

text \<open>A handle that was taken back stays invalid when its place is given out again.\<close>

lemma stale:
  assumes "wf u" "full h" "look h u = Some v" "ok w" "alloc w (free h u) = Some (u', h')"
  shows "h' \<noteq> h \<and> look h u' = None"
proof -
  have f: "wf (free h u)" "room (free h u)" "look h (free h u) = None" using free_law [OF assms(1-3)] by auto
  have "h' \<noteq> h" by (rule fresh_law [OF assms(1-3,5)])
  then show ?thesis using alloc_SomeD(5) [OF f(1,2) assms(4,5) assms(2)] f(3) by metis
qed

end

section \<open>User handles\<close>

text \<open>The form of a handle that is given out: even, with a proper generation.\<close>

definition full_handle :: "u32 \<Rightarrow> bool" where
  "full_handle h \<longleftrightarrow> even (unat h) \<and> ucast (drop_bit 16 h) \<noteq> (0 :: u16) \<and> ucast (drop_bit 16 h) \<noteq> (0xffff :: u16)"

definition look_user :: "u32 \<Rightarrow> user_state \<Rightarrow> (u16 \<times> nat) option" where
  "look_user h u = map_option (\<lambda>i. (ue_type (entry_at u i), get_server_object i u)) (handle_to_entry h u)"

lemma get_user_object_look:
  "get_user_object h type u = (case look_user h u of None \<Rightarrow> 0 | Some (t, p) \<Rightarrow> if t = type then p else 0)"
  by (auto simp: get_user_object_def look_user_def split: option.splits)

lemma look_user_used:
  "look_user h u =
     (case used u (handle_index h) of None \<Rightarrow> None
      | Some (g, t, pid, p) \<Rightarrow> if names_entry h g then Some (t, p) else None)"
  by (auto simp: look_user_def handle_to_entry_used used_def get_server_object_def split: option.splits if_splits)

lemma full_handle_names: "full_handle h \<Longrightarrow> names_entry h g \<longleftrightarrow> ucast (drop_bit 16 h) = g"
  by (auto simp: full_handle_def names_entry_def)

lemma unat_full_handle:
  assumes "full_handle h" "handle_index h < MAX_USER_HANDLES"
  shows "unat h = 2 * handle_index h + 32 + 65536 * unat (ucast (drop_bit 16 h) :: u16)"
proof -
  let ?l = "h AND 0xffff"
  have l: "unat ?l = unat h mod 65536" by (rule unat_low16)
  have "32 \<le> unat ?l"
  proof (rule ccontr)
    assume "\<not> 32 \<le> unat ?l"
    then have "unat (?l - FIRST_USER_HANDLE) = 2 ^ 32 + unat ?l - 32"
      by (simp add: unat_sub_if' FIRST_USER_HANDLE_def word_le_nat_alt)
    then have "handle_index h = (2 ^ 32 + unat ?l - 32) div 2"
      by (simp only: handle_index_def unat_drop_bit_eq) (simp add: drop_bit_eq_div)
    then show False using assms(2) by (simp add: max_user_handles)
  qed
  then have "unat (?l - FIRST_USER_HANDLE) = unat ?l - 32" by (simp add: unat_sub word_le_nat_alt FIRST_USER_HANDLE_def)
  then have i: "handle_index h = (unat h mod 65536 - 32) div 2"
    using l by (simp only: handle_index_def unat_drop_bit_eq) (simp add: drop_bit_eq_div)
  have g: "unat (ucast (drop_bit 16 h) :: u16) = unat h div 65536"
  proof -
    have "unat h < 2 ^ 32" using unsigned_less [where ?'a = nat and w = h] by simp
    then have "unat h div 65536 < 65536" by (simp add: less_mult_imp_div_less)
    then show ?thesis by (simp only: unsigned_ucast_eq unat_drop_bit_eq) (simp add: drop_bit_eq_div take_bit_nat_eq_self)
  qed
  have "even (unat h)" using assms(1) by (simp add: full_handle_def)
  then have "even (unat h mod 65536 - 32)" by (simp add: dvd_mod)
  then have "2 * handle_index h = unat h mod 65536 - 32" using i by simp
  then show ?thesis using g \<open>32 \<le> unat ?l\<close> l mod_mult_div_eq [of "unat h" 65536] by linarith
qed


lemma full_handle_inj:
  assumes "full_handle h" "full_handle h'" "handle_index h < MAX_USER_HANDLES" "handle_index h' = handle_index h"
    "ucast (drop_bit 16 h) = (ucast (drop_bit 16 h') :: u16)"
  shows "h = h'"
  using unat_full_handle [OF assms(1,3)] unat_full_handle [OF assms(2)] assms(3-5) by (simp add: word_unat_eq_iff)

lemma full_entry_handle:
  assumes "i < MAX_USER_HANDLES" "ue_generation (entry_at u i) \<noteq> 0" "ue_generation (entry_at u i) \<noteq> 0xffff"
  shows "full_handle (entry_to_handle i u)"
  using assms unat_handle_parts [OF assms(1), of "ue_generation (entry_at u i)"]
  by (simp add: full_handle_def handle_generation) (simp add: entry_to_handle_def)

lemma alloc_user_law:
  assumes "wf_users u" "user_room u" "type \<noteq> 0"
  shows "\<exists>u' h. alloc_user_handle tid pid p shared type u = Some (u', h) \<and> wf_users u' \<and> full_handle h \<and>
           look_user h u' = Some (type, p) \<and> look_user h u = None \<and>
           (\<forall>h'. full_handle h' \<and> h' \<noteq> h \<longrightarrow> look_user h' u' = look_user h' u)"
proof -
  obtain u' i where a: "alloc_user_handle tid pid p shared type u = Some (u', entry_to_handle i u')" "wf_users u'"
      "i < MAX_USER_HANDLES" "used u i = None"
      "used u' = (used u)(i \<mapsto> (ue_generation (entry_at u' i), type, pid, p))"
      "ue_generation (entry_at u' i) \<noteq> 0" "ue_generation (entry_at u' i) \<noteq> 0xffff"
    using alloc_user_handle_spec [OF assms(1,2), of tid pid p shared type] assms(3) by (metis (no_types, lifting))
  define h where "h = entry_to_handle i u'"
  have h: "full_handle h" "handle_index h = i" "ucast (drop_bit 16 h) = ue_generation (entry_at u' i)"
    using full_entry_handle [OF a(3,6,7)] a(3) by (simp_all add: h_def handle_index_entry handle_generation)
  have "look_user h' u' = look_user h' u" if h': "full_handle h'" "h' \<noteq> h" for h'
  proof (cases "handle_index h' = i")
    case True
    then have "ucast (drop_bit 16 h') \<noteq> ue_generation (entry_at u' i)"
      using full_handle_inj [of h' h] h' h a(3) by metis
    then show ?thesis using True a(4) full_handle_names [OF h'(1)] by (simp add: look_user_used a(5))
  qed (simp add: look_user_used a(5))
  moreover have "look_user h u' = Some (type, p)" "look_user h u = None"
    using h a(4) full_handle_names [OF h(1)] by (simp_all add: look_user_used a(5))
  ultimately show ?thesis using a(1,2) h(1) unfolding h_def [symmetric] by blast
qed

lemma look_user_Some:
  assumes "wf_users u" "full_handle h" "look_user h u = Some (t, p)"
  obtains g pid where "used u (handle_index h) = Some (g, t, pid, p)" "ucast (drop_bit 16 h) = g"
    "handle_to_entry h u = Some (handle_index h)" "handle_index h < MAX_USER_HANDLES" "handle_index h < nb_handles u"
    "g = ue_generation (entry_at u (handle_index h))"
proof -
  obtain g pid where u: "used u (handle_index h) = Some (g, t, pid, p)" "names_entry h g"
    using assms(3) by (auto simp: look_user_used split: option.splits if_splits)
  then show thesis
    using that [OF u(1)] used_generation [OF assms(1) u(1)] full_handle_names [OF assms(2), of g]
    by (auto simp: handle_to_entry_used used_def split: if_splits)
qed

lemma free_user_room: "wf_users u \<Longrightarrow> handle_to_entry h u = Some i \<Longrightarrow> user_room (fst (free_user_handle h u))"
  using small_index [of i]
  by (auto simp: free_user_handle_def set_server_object_def user_room_def free_user_entry_def wf_users_def
      handle_to_entry_def Let_def split: if_splits)

lemma free_user_law:
  assumes "wf_users u" "full_handle h" "look_user h u = Some v"
  shows "wf_users (fst (free_user_handle h u)) \<and> user_room (fst (free_user_handle h u)) \<and>
         look_user h (fst (free_user_handle h u)) = None \<and>
         (\<forall>h'. full_handle h' \<and> h' \<noteq> h \<longrightarrow> look_user h' (fst (free_user_handle h u)) = look_user h' u)"
proof -
  obtain t p where "v = (t, p)" by fastforce
  then obtain g pid where g: "used u (handle_index h) = Some (g, t, pid, p)" "ucast (drop_bit 16 h) = g"
      "handle_to_entry h u = Some (handle_index h)" "handle_index h < MAX_USER_HANDLES"
    using look_user_Some [OF assms(1,2)] assms(3) by metis
  obtain u' where u': "fst (free_user_handle h u) = u'" "wf_users u'" "used u' = (used u)(handle_index h := None)"
    using free_user_handle_spec [OF assms(1), of h] g(3) by auto
  have "look_user h' u' = look_user h' u" if "full_handle h'" "h' \<noteq> h" for h'
    using full_handle_inj [OF assms(2) that(1) g(4)] that full_handle_names [OF that(1), of g] g(1,2)
    by (cases "handle_index h' = handle_index h") (auto simp: look_user_used u'(3))
  then show ?thesis using u' free_user_room [OF assms(1) g(3)] by (simp add: look_user_used)
qed

lemma fresh_user_law:
  assumes "wf_users u" "full_handle h" "look_user h u = Some v"
    "alloc_user_handle tid pid p shared type (fst (free_user_handle h u)) = Some (u', h')"
  shows "h' \<noteq> h"
proof
  assume eq: "h' = h"
  obtain t q where "v = (t, q)" by fastforce
  then obtain g pid' where g: "used u (handle_index h) = Some (g, t, pid', q)" "ucast (drop_bit 16 h) = g"
      "handle_to_entry h u = Some (handle_index h)" "handle_index h < nb_handles u"
      "g = ue_generation (entry_at u (handle_index h))"
    using look_user_Some [OF assms(1,2)] assms(3) by metis
  define f where "f = fst (free_user_handle h u)"
  have f: "wf_users f" "ue_generation (entry_at f j) = ue_generation (entry_at u j)" "nb_handles f = nb_handles u" for j
    using free_user_handle_spec [OF assms(1), of h] g(3) unfolding f_def by auto
  have room: "user_room f" unfolding f_def by (rule free_user_room [OF assms(1) g(3)])
  obtain i where i: "h = entry_to_handle i u'" "i < MAX_USER_HANDLES"
      "i < nb_handles f \<longrightarrow> ue_generation (entry_at u' i) \<noteq> ue_generation (entry_at f i)"
    using alloc_user_handle_spec [OF f(1) room, of tid pid p shared type] assms(4) eq unfolding f_def [symmetric]
    by (metis option.inject prod.inject)
  have "handle_index h = i" "ucast (drop_bit 16 h) = ue_generation (entry_at u' i)"
    using i(1,2) by (simp_all add: handle_index_entry handle_generation)
  then show False using i(3) f g by simp
qed

interpretation uh: handle_space wf_users user_room full_handle "\<lambda>v. fst v \<noteq> 0" look_user
  "\<lambda>v. alloc_user_handle tid pid (snd v) shared (fst v)" "\<lambda>h u. fst (free_user_handle h u)" for tid pid shared
proof (unfold_locales, goal_cases)
  case (1 u v)
  then show ?case using alloc_user_law [of u "fst v" tid pid "snd v" shared] by simp
next
  case (2 u h v)
  then show ?case by (rule free_user_law)
next
  case (3 u h v w u' h')
  then show ?case by (rule fresh_user_law)
qed


section \<open>Reachable tables\<close>

text \<open>
  The tables that the server can reach from its start: objects of the server are allocated and freed
  by \<open>alloc_user_handle\<close> and \<open>free_user_handle\<close>, the others by the requests, and processes end.
\<close>

inductive users_reachable :: "user_state \<Rightarrow> bool" where
  init: "users_reachable user_init"
| alloc: "users_reachable u \<Longrightarrow> alloc_user_handle tid pid p shared type u = Some (u', h) \<Longrightarrow> users_reachable u'"
| free: "users_reachable u \<Longrightarrow> users_reachable (fst (free_user_handle h u))"
| req_free: "users_reachable u \<Longrightarrow> users_reachable (fst (req_free_user_handle h type u))"
| exit: "users_reachable u \<Longrightarrow> users_reachable (free_process_user_handles pid u)"

lemma reachable_wf: "users_reachable u \<Longrightarrow> wf_users u"
proof (induction rule: users_reachable.induct)
  case (alloc u tid pid p shared type u' h)
  then show ?case
    using alloc_user_handle_spec [OF alloc.IH, of tid pid p shared type] alloc_user_handle_full [OF alloc.IH]
    by (metis option.distinct(1) option.inject prod.inject)
next
  case (free u h)
  then show ?case using free_user_handle_spec [OF free.IH, of h] by (auto split: option.splits)
next
  case (exit u pid)
  then show ?case using free_process_upto [OF exit.IH order_refl, of pid] by (simp add: free_process_user_handles_def Let_def)
qed (simp_all add: req_free_user_handle_spec)

text \<open>The requests of a client that only allocates.\<close>

fun alloc_many :: "u32 \<Rightarrow> u32 \<Rightarrow> u16 \<Rightarrow> nat \<Rightarrow> user_state option" where
  "alloc_many tid pid type 0 = Some user_init"
| "alloc_many tid pid type (Suc n) =
     do { u \<leftarrow> alloc_many tid pid type n; (u, h) \<leftarrow> req_alloc_user_handle tid pid type u; Some u }"

lemma alloc_fresh_entry:
  assumes "wf_users u" "freelist u = - 1" "nb_handles u < MAX_USER_HANDLES"
  shows "\<exists>u' h. req_alloc_user_handle tid pid type u = Some (u', h) \<and> wf_users u' \<and> freelist u' = - 1 \<and> nb_handles u' = Suc (nb_handles u)"
proof -
  have room: "user_room u" using assms by (simp add: user_room_def)
  obtain v i where v: "alloc_result tid pid (0, 0) type u = (v, i)" by fastforce
  have "wf_users (fst (set_server_object i client_object v))"
    by (rule wf_set_server_object [OF alloc_result_spec(1) [OF assms(1) room v]])
  moreover have "freelist v = - 1" "nb_handles v = Suc (nb_handles u)"
    using v assms(2) by (auto simp: alloc_result_def alloc_place_def)
  ultimately show ?thesis using alloc_user_entry_eq [OF assms(1)] room v
    by (simp add: req_alloc_user_handle_def alloc_user_handle_def set_server_object_def Let_def)
qed

lemma alloc_many_spec:
  "n \<le> MAX_USER_HANDLES \<Longrightarrow> \<exists>u. alloc_many tid pid type n = Some u \<and> wf_users u \<and> freelist u = - 1 \<and> nb_handles u = n"
proof (induction n)
  case 0
  then show ?case using wf_user_init by (simp add: user_init_def)
next
  case (Suc n)
  then obtain u where u: "alloc_many tid pid type n = Some u" "wf_users u" "freelist u = - 1" "nb_handles u = n" by auto
  then show ?case using alloc_fresh_entry [OF u(2,3), of tid pid type] Suc.prems by auto
qed

section \<open>Properties\<close>

text \<open>
  C28.  A new user handle resolves to its object, also when truncated to 16 bits, and disturbs no
  other; freeing it returns the object and makes it invalid, and it stays invalid when its entry is
  allocated again.
\<close>

theorem user_handle_roundtrip:
  assumes "wf_users u" "user_room u" "type \<noteq> 0"
  shows "\<exists>u' h. alloc_user_handle tid pid p shared type u = Some (u', h) \<and> wf_users u' \<and>
           get_user_object h type u' = p \<and> get_user_full_handle (h AND 0xffff) u' = h \<and>
           (\<forall>h' t. full_handle h' \<and> h' \<noteq> h \<longrightarrow> get_user_object h' t u' = get_user_object h' t u) \<and>
           snd (free_user_handle h u') = Inr p \<and> (\<forall>t. get_user_object h t (fst (free_user_handle h u')) = 0) \<and>
           (\<forall>tid pid q shared t u'' h'. t \<noteq> 0 \<and>
              alloc_user_handle tid pid q shared t (fst (free_user_handle h u')) = Some (u'', h') \<longrightarrow>
              h' \<noteq> h \<and> get_user_object h type u'' = 0)"
proof -
  obtain u' h where a: "alloc_user_handle tid pid p shared type u = Some (u', h)" "wf_users u'" "full_handle h"
      "look_user h u' = Some (type, p)" "\<forall>h'. full_handle h' \<and> h' \<noteq> h \<longrightarrow> look_user h' u' = look_user h' u"
    using alloc_user_law [OF assms] by blast
  obtain g pid' where e: "handle_to_entry h u' = Some (handle_index h)" "ucast (drop_bit 16 h) = g"
      "used u' (handle_index h) = Some (g, type, pid', p)" "handle_index h < MAX_USER_HANDLES"
      "g = ue_generation (entry_at u' (handle_index h))"
    using look_user_Some [OF a(2-4)] by metis
  have "h = entry_to_handle (handle_index h) u'"
    using full_handle_inj [OF a(3) full_entry_handle [OF e(4)]] used_generation [OF a(2) e(3)] e(2,5)
    by (simp add: handle_index_entry [OF e(4)] handle_generation [OF e(4)] e(4))
  moreover have "drop_bit 16 (h AND 0xffff) = 0"
    by (simp only: word_unat_eq_iff unat_drop_bit_eq unat_low16) (simp add: drop_bit_eq_div)
  moreover have "handle_index (h AND 0xffff) = handle_index h" by (simp add: handle_index_def and.assoc)
  ultimately have "get_user_full_handle (h AND 0xffff) u' = h"
    using e(3) by (simp add: get_user_full_handle_def handle_to_entry_used names_entry_def)
  moreover have "snd (free_user_handle h u') = Inr p"
    using e(1,3) by (auto simp: free_user_handle_def set_server_object_def used_def split: if_splits)
  moreover have "look_user h (fst (free_user_handle h u')) = None" using free_user_law [OF a(2-4)] by blast
  moreover have "\<forall>tid pid q shared t u'' h'. t \<noteq> 0 \<and>
      alloc_user_handle tid pid q shared t (fst (free_user_handle h u')) = Some (u'', h') \<longrightarrow>
      h' \<noteq> h \<and> get_user_object h type u'' = 0"
  proof (intro allI impI)
    fix tid pid q shared t u'' h'
    assume n: "t \<noteq> 0 \<and> alloc_user_handle tid pid q shared t (fst (free_user_handle h u')) = Some (u'', h')"
    then have "h' \<noteq> h \<and> look_user h u'' = None"
      using uh.stale [OF a(2-4), of "(t, q)" tid pid shared u'' h'] by simp
    then show "h' \<noteq> h \<and> get_user_object h type u'' = 0" by (simp add: get_user_object_look)
  qed
  ultimately show ?thesis using a by (intro exI [of _ u'] exI [of _ h] conjI) (simp_all add: get_user_object_look)
qed

theorem user_handle_roundtrip_witness:
  "\<exists>u' h. alloc_user_handle 1 2 77 None NTUSER_OBJ_WINDOW user_init = Some (u', h) \<and>
     get_user_object h NTUSER_OBJ_WINDOW u' = 77 \<and> snd (free_user_handle h u') = Inr 77"
proof -
  have "user_room user_init" by (simp add: user_room_def user_init_def max_user_handles)
  then show ?thesis using user_handle_roundtrip [OF wf_user_init _, of NTUSER_OBJ_WINDOW 1 2 77 None] by fastforce
qed

text \<open>
  C29.  Every reachable table is well formed: the free list runs without repetition through free
  entries, so no entry is given out twice, and generations stay in range; different entries in use
  have different handles, each of which resolves to its own entry.
\<close>

theorem user_table_invariant:
  assumes "users_reachable u"
  shows "wf_users u \<and>
         (\<forall>i j. used u i \<noteq> None \<and> used u j \<noteq> None \<and> entry_to_handle i u = entry_to_handle j u \<longrightarrow> i = j) \<and>
         (\<forall>i. used u i \<noteq> None \<longrightarrow> handle_to_entry (entry_to_handle i u) u = Some i)"
proof -
  have wf: "wf_users u" by (rule reachable_wf [OF assms])
  have "handle_to_entry (entry_to_handle i u) u = Some i" if i: "used u i \<noteq> None" for i
  proof -
    obtain g t pid p where e: "used u i = Some (g, t, pid, p)" using i by (cases "used u i") auto
    note g = used_generation [OF wf e]
    then show ?thesis using e by (simp add: handle_to_entry_used handle_index_entry entry_handle_names)
  qed
  then show ?thesis using wf by (metis option.inject)
qed

theorem user_table_invariant_witness: "users_reachable user_init \<and> wf_users user_init"
  using user_table_invariant [OF users_reachable.init] users_reachable.init by blast

text \<open>
  C30.  A client can make the server write outside the table: \<open>MAX_USER_HANDLES\<close> requests succeed,
  and the next one, which no check stops, uses the entry after the last one of the arrays.
\<close>

theorem user_table_overflow:
  "(\<exists>u. alloc_many tid pid type MAX_USER_HANDLES = Some u \<and> users_reachable u \<and>
        length (user_entries u) = MAX_USER_HANDLES \<and> req_alloc_user_handle tid pid type u = None)"
proof -
  have r: "alloc_many tid pid type n = Some u \<Longrightarrow> users_reachable u" for n u
    by (induction n arbitrary: u)
      (auto simp: users_reachable.init req_alloc_user_handle_def bind_eq_Some_conv dest: users_reachable.alloc split: prod.splits)
  obtain u where u: "alloc_many tid pid type MAX_USER_HANDLES = Some u" "wf_users u" "freelist u = - 1"
      "nb_handles u = MAX_USER_HANDLES"
    using alloc_many_spec [OF order_refl, of tid pid type] by blast
  then have "req_alloc_user_handle tid pid type u = None"
    by (simp add: req_alloc_user_handle_def alloc_user_handle_full user_room_def)
  then show ?thesis using u r by (auto simp: wf_users_def)
qed

text \<open>
  C31.  \<open>next_user_handle\<close>, started with 0 or with the handle of an entry, always ends and gives the
  next entry of the type: the first one in the order of the table, with its handle and object, and
  the end of the enumeration only when there is none.
\<close>

theorem next_user_handle_enumerates:
  assumes "wf_users u" "type \<noteq> 0" "handle = 0 \<and> start = 0 \<or> (\<exists>i<nb_handles u. handle = entry_to_handle i u \<and> start = i + 1)"
  shows "case next_user_handle handle type u of
           None \<Rightarrow> (\<forall>j g t pid p. start \<le> j \<and> used u j = Some (g, t, pid, p) \<longrightarrow> t \<noteq> type)
         | Some (h, p) \<Rightarrow> (\<exists>j\<ge>start. \<exists>g pid. h = entry_to_handle j u \<and> used u j = Some (g, type, pid, p) \<and>
                            (\<forall>k g t pid p. start \<le> k \<and> k < j \<and> used u k = Some (g, t, pid, p) \<longrightarrow> t \<noteq> type))"
proof -
  let ?P = "\<lambda>j. start \<le> j \<and> j < nb_handles u \<and> ue_type (entry_at u j) = type"
  have h0: "entry_to_handle i u \<noteq> 0" "handle_index (entry_to_handle i u) = i" if "i < nb_handles u" for i
  proof -
    have i: "i < MAX_USER_HANDLES" using that assms(1) by (simp add: wf_users_def)
    then show "handle_index (entry_to_handle i u) = i" by (rule handle_index_entry)
    have "unat (entry_to_handle i u) \<noteq> 0" unfolding entry_to_handle_def unat_handle_parts [OF i] by simp
    then show "entry_to_handle i u \<noteq> 0" by auto
  qed
  have n: "next_user_handle handle type u =
           map_option (\<lambda>i. (entry_to_handle i u, get_server_object i u)) (next_entry type u start)"
    using assms(3) h0 by (auto simp: next_user_handle_def Let_def)
  show ?thesis
  proof (cases "\<exists>j. ?P j")
    case True
    define m where "m = (LEAST j. ?P j)"
    have m: "?P m" unfolding m_def using True by (rule LeastI_ex)
    have min: "\<not> ?P k" if "k < m" for k using not_less_Least that unfolding m_def by blast
    have "next_user_handle handle type u = Some (entry_to_handle m u, server_objects u ! m)"
      using True assms(2) unfolding m_def by (simp add: n next_entry_spec get_server_object_def)
    moreover have "used u m = Some (ue_generation (entry_at u m), type, ue_pid (entry_at u m), server_objects u ! m)"
      using m assms(2) by (simp add: used_def)
    moreover have "t \<noteq> type" if "start \<le> k" "k < m" "used u k = Some (g, t, pid, p)" for k g t pid p
      using min [OF that(2)] that(1,3) by (auto simp: used_def split: if_splits)
    ultimately show ?thesis using m by (simp only: option.case prod.case) blast
  next
    case False
    then have "next_user_handle handle type u = None" using assms(2) by (simp add: n next_entry_spec)
    then show ?thesis using False by (auto simp: used_def)
  qed
qed

theorem next_user_handle_enumerates_witness:
  "\<exists>u h. alloc_user_handle 1 2 77 None NTUSER_OBJ_WINDOW user_init = Some (u, h) \<and>
     next_user_handle 0 NTUSER_OBJ_WINDOW u = Some (h, 77)"
proof -
  have room: "user_room user_init" by (simp add: user_room_def user_init_def max_user_handles)
  obtain u i where u: "alloc_user_handle 1 2 77 None NTUSER_OBJ_WINDOW user_init = Some (u, entry_to_handle i u)" "wf_users u"
      "used u = (used user_init)(i \<mapsto> (ue_generation (entry_at u i), NTUSER_OBJ_WINDOW, 2, 77))"
    by (rule alloc_user_handle_spec [OF wf_user_init room, of 1 2 77 None NTUSER_OBJ_WINDOW]) (simp add: that)
  have "used user_init = Map.empty" by (simp add: used_def user_init_def fun_eq_iff)
  then have "next_user_handle 0 NTUSER_OBJ_WINDOW u = Some (entry_to_handle i u, 77)"
    using next_user_handle_enumerates [OF u(2), of NTUSER_OBJ_WINDOW 0 0] u(3)
    by (auto split: option.splits if_splits)
  then show ?thesis using u(1) by blast
qed

text \<open>
  C32.  At the end of a process exactly its client-side handles become free: menus, icons, window
  positions, accelerator tables and input contexts; all other handles stay as they are.
\<close>

theorem free_process_user_handles_exact:
  assumes "wf_users u"
  shows "wf_users (free_process_user_handles pid u) \<and>
         used (free_process_user_handles pid u) = (\<lambda>i. if client_owned pid (used u i) then None else used u i)"
proof -
  have "i < nb_handles u" if "client_owned pid (used u i)" for i
    using that by (auto simp: used_def split: option.splits if_splits)
  then have "(\<lambda>i. if i < nb_handles u \<and> client_owned pid (used u i) then None else used u i)
             = (\<lambda>i. if client_owned pid (used u i) then None else used u i)"
    by auto
  then show ?thesis using free_process_upto [OF assms order_refl, of pid]
    by (simp add: free_process_user_handles_def Let_def)
qed

theorem free_process_user_handles_exact_witness:
  "\<exists>u h. alloc_user_handle 1 2 77 None NTUSER_OBJ_MENU user_init = Some (u, h) \<and>
     used (free_process_user_handles 2 u) = Map.empty \<and> used (free_process_user_handles 3 u) = used u"
proof -
  have room: "user_room user_init" by (simp add: user_room_def user_init_def max_user_handles)
  obtain u i where u: "alloc_user_handle 1 2 77 None NTUSER_OBJ_MENU user_init = Some (u, entry_to_handle i u)" "wf_users u"
      "used u = (used user_init)(i \<mapsto> (ue_generation (entry_at u i), NTUSER_OBJ_MENU, 2, 77))"
    by (rule alloc_user_handle_spec [OF wf_user_init room, of 1 2 77 None NTUSER_OBJ_MENU]) (simp add: that)
  have "used user_init = Map.empty" by (simp add: used_def user_init_def fun_eq_iff)
  then show ?thesis using free_process_user_handles_exact [OF u(2)] u(1,3) by (auto simp: client_type_def fun_eq_iff)
qed

end
