(* ===== verification/File_Locks.thy ===== *)
theory File_Locks
  imports Wine_Prelude "HOL-Library.Monad_Syntax"
begin

text \<open>
  File locks and the deferred closing of files, \<open>server/fd.c\<close>: definitions.  File descriptors,
  inodes, locks and processes are numbers.  The lists of locks of an inode, a descriptor and a process
  are lists of lock pointers.  The calls to the host go to the log \<open>host\<close>, latest first, and the host
  answers from the whole log: the parameter \<open>fcntl\<close> of \<open>fenv\<close>.  \<open>None\<close> means that an assertion fails,
  that a dangling or null pointer is followed or that a buffer overflows.
\<close>

section \<open>State\<close>

datatype lock_type = F_RDLCK | F_WRLCK | F_UNLCK

datatype errno = EACCES | EIO | ENOLCK | ENOTSUP | EAGAIN | EBADF | EOVERFLOW | EINVAL | Other_errno nat

datatype host_call =
    Setlk int lock_type u64 u64
  | Getlk int lock_type u64 u64
  | Close nat int
  | Close_fd int
  | Unlink nat string

text \<open>
  \<open>Close\<close> and \<open>Unlink\<close> name the inode they act for; \<open>Close_fd\<close> closes a descriptor that has none.
  \<open>fcntl\<close> answers an error or \<open>None\<close>; \<open>same_file\<close> is the test of \<open>unlink_closed_fd\<close> that the name still is the inode's;
  \<open>errno_status\<close> is what \<open>file_set_error\<close> sets; \<open>lock_handle\<close> is the answer of \<open>alloc_handle\<close> for a lock,
  its error or a handle.
\<close>

record fenv =
  fcntl :: "host_call list \<Rightarrow> errno option"
  same_file :: "host_call list \<Rightarrow> nat \<Rightarrow> string \<Rightarrow> bool"
  errno_status :: "errno \<Rightarrow> status"
  malloc_holes :: bool
  sync_ok :: bool
  lock_handle :: "nat \<Rightarrow> status + u32"

record closed_fd =
  cf_unix_fd :: int
  cf_disp_flags :: u32
  cf_unix_name :: string

record fd_rec =
  fd_inode :: "nat option"
  fd_unix_fd :: int
  fd_fs_locks :: bool
  fd_locks :: "nat list"
  fd_closed :: closed_fd

record inode_rec =
  in_refs :: nat
  in_open :: "nat list"
  in_locks :: "nat list"
  in_closed :: "closed_fd list"

record file_lock =
  fl_fd :: nat
  fl_shared :: bool
  fl_start :: u64
  fl_end :: u64
  fl_process :: "nat option"
  fl_signaled :: bool
  fl_refs :: nat

record fdstate =
  fds :: "nat \<Rightarrow> fd_rec"
  inodes :: "nat \<Rightarrow> inode_rec"
  flocks :: "nat \<Rightarrow> file_lock option"
  proc_locks :: "nat \<Rightarrow> nat list"
  max_unix_offset :: u64
  host :: "host_call list"

definition OFF_T_MAX :: u64 where "OFF_T_MAX = NOT (push_bit 63 1)"
definition FILE_POS_T_MAX :: u64 where "FILE_POS_T_MAX = NOT 0"
definition INT_MAX64 :: u64 where "INT_MAX64 = 0x7fffffff"

abbreviation FILE_DISPOSITION_DELETE :: u32 where "FILE_DISPOSITION_DELETE \<equiv> 1"
abbreviation FILE_DISPOSITION_POSIX_SEMANTICS :: u32 where "FILE_DISPOSITION_POSIX_SEMANTICS \<equiv> 2"

definition upd_fd :: "nat \<Rightarrow> (fd_rec \<Rightarrow> fd_rec) \<Rightarrow> fdstate \<Rightarrow> fdstate" where
  "upd_fd f g s = s\<lparr>fds := (fds s)(f := g (fds s f))\<rparr>"

definition upd_inode :: "nat \<Rightarrow> (inode_rec \<Rightarrow> inode_rec) \<Rightarrow> fdstate \<Rightarrow> fdstate" where
  "upd_inode i g s = s\<lparr>inodes := (inodes s)(i := g (inodes s i))\<rparr>"

definition call_host :: "host_call \<Rightarrow> fdstate \<Rightarrow> fdstate" where
  "call_host c s = s\<lparr>host := c # host s\<rparr>"

section \<open>Closed descriptors\<close>

definition close_unix :: "nat \<Rightarrow> int \<Rightarrow> fdstate \<Rightarrow> fdstate" where
  "close_unix i unix_fd s = (if unix_fd \<noteq> -1 then call_host (Close i unix_fd) s else s)"

definition unlink_closed_fd :: "fenv \<Rightarrow> nat \<Rightarrow> closed_fd \<Rightarrow> fdstate \<Rightarrow> fdstate" where
  "unlink_closed_fd env i c s =
     (if same_file env (host s) i (cf_unix_name c) then call_host (Unlink i (cf_unix_name c)) s else s)"

text \<open>\<open>inode_close_pending\<close>: the loop over the closed list \<open>cs\<close> with the entries that stay.\<close>

fun close_pending_loop :: "bool \<Rightarrow> nat \<Rightarrow> closed_fd list \<Rightarrow> fdstate \<Rightarrow> fdstate \<times> closed_fd list" where
  "close_pending_loop keep_unlinks i [] s = (s, [])"
| "close_pending_loop keep_unlinks i (c # cs) s =
     (let s = close_unix i (cf_unix_fd c) s;
          c = c\<lparr>cf_unix_fd := -1\<rparr>;
          (s, cs) = close_pending_loop keep_unlinks i cs s
      in if \<not> keep_unlinks \<or> cf_disp_flags c AND FILE_DISPOSITION_DELETE = 0 then (s, cs) else (s, c # cs))"

definition inode_close_pending :: "nat \<Rightarrow> bool \<Rightarrow> fdstate \<Rightarrow> fdstate" where
  "inode_close_pending i keep_unlinks s =
     (let (s', cs) = close_pending_loop keep_unlinks i (in_closed (inodes s i)) s
      in upd_inode i (in_closed_update (\<lambda>_. cs)) s')"

fun destroy_closed :: "fenv \<Rightarrow> nat \<Rightarrow> closed_fd list \<Rightarrow> fdstate \<Rightarrow> fdstate" where
  "destroy_closed env i [] s = s"
| "destroy_closed env i (c # cs) s =
     (let s = close_unix i (cf_unix_fd c) s;
          s = (if cf_disp_flags c AND FILE_DISPOSITION_DELETE \<noteq> 0 then unlink_closed_fd env i c s else s)
      in destroy_closed env i cs s)"

definition inode_destroy :: "fenv \<Rightarrow> nat \<Rightarrow> fdstate \<Rightarrow> fdstate option" where
  "inode_destroy env i s =
     (let n = inodes s i
      in if in_open n \<noteq> [] \<or> in_locks n \<noteq> [] then None
         else Some (upd_inode i (in_closed_update (\<lambda>_. [])) (destroy_closed env i (in_closed n) s)))"

text \<open>\<open>release_object\<close> on an inode.\<close>

definition release_inode :: "fenv \<Rightarrow> nat \<Rightarrow> fdstate \<Rightarrow> fdstate option" where
  "release_inode env i s =
     (if in_refs (inodes s i) = 0 then None
      else
        (let s = upd_inode i (in_refs_update (\<lambda>r. r - 1)) s
         in if in_refs (inodes s i) = 0 then inode_destroy env i s else Some s))"

definition inode_has_pending_close :: "nat \<Rightarrow> string \<Rightarrow> fdstate \<Rightarrow> bool" where
  "inode_has_pending_close i path s \<longleftrightarrow> (\<exists>c\<in>set (in_closed (inodes s i)). cf_unix_name c = path)"

definition inode_add_closed_fd :: "fenv \<Rightarrow> nat \<Rightarrow> closed_fd \<Rightarrow> fdstate \<Rightarrow> fdstate" where
  "inode_add_closed_fd env i c s =
     (if in_locks (inodes s i) \<noteq> [] then upd_inode i (in_closed_update (\<lambda>cs. c # cs)) s
      else if cf_disp_flags c AND FILE_DISPOSITION_DELETE \<noteq> 0 \<and> cf_disp_flags c AND FILE_DISPOSITION_POSIX_SEMANTICS \<noteq> 0
        then unlink_closed_fd env i c (close_unix i (cf_unix_fd c) s)
      else if cf_disp_flags c AND FILE_DISPOSITION_DELETE \<noteq> 0 \<and> \<not> inode_has_pending_close i (cf_unix_name c) s
        then upd_inode i (in_closed_update (\<lambda>cs. c\<lparr>cf_unix_fd := -1\<rparr> # cs)) (close_unix i (cf_unix_fd c) s)
      else close_unix i (cf_unix_fd c) s)"

section \<open>Unix locks\<close>

text \<open>
  \<open>set_unix_lock\<close>: the error that is set, \<open>None\<close> for success.  A write lock is retried as a read lock
  at most once, and the largest offset is lowered at most once.
\<close>

function set_unix_lock :: "fenv \<Rightarrow> nat \<Rightarrow> u64 \<Rightarrow> u64 \<Rightarrow> lock_type \<Rightarrow> fdstate \<Rightarrow> fdstate \<times> status option" where
  "set_unix_lock env f start end type s =
     (if \<not> fd_fs_locks (fds s f) then (s, None)
      else if start = end then (s, None)
      else if start > max_unix_offset s then (s, None)
      else
        (let unix_fd = fd_unix_fd (fds s f);
             len = (if end = 0 \<or> end > max_unix_offset s then 0 else end - start);
             s = call_host (Setlk unix_fd type start len) s;
             ignore = (\<lambda>s. (upd_fd f (fd_fs_locks_update (\<lambda>_. False)) s, None))
         in case fcntl env (host s) of
              None \<Rightarrow> (s, None)
            | Some e \<Rightarrow>
                if e = EACCES then
                  (let s = call_host (Getlk unix_fd type start len) s
                   in if fcntl env (host s) = None then (s, Some STATUS_FILE_LOCK_CONFLICT) else ignore s)
                else if e \<in> {EIO, ENOLCK, ENOTSUP} then ignore s
                else if e = EAGAIN then (s, Some STATUS_FILE_LOCK_CONFLICT)
                else if e = EBADF then
                  (if type = F_WRLCK then set_unix_lock env f start end F_RDLCK s else (s, Some STATUS_ACCESS_DENIED))
                else if e \<in> {EOVERFLOW, EINVAL} \<and> max_unix_offset s > INT_MAX64 then
                  set_unix_lock env f start end type (s\<lparr>max_unix_offset := INT_MAX64\<rparr>)
                else (s, Some (errno_status env e))))"
  by pat_completeness auto
termination
  by (relation "measure (\<lambda>(env, f, start, end, type, s). of_bool (type = F_WRLCK) + of_bool (max_unix_offset s > INT_MAX64))")
    (auto simp: call_host_def)

declare set_unix_lock.simps [simp del]

definition lock_overlaps :: "file_lock \<Rightarrow> u64 \<Rightarrow> u64 \<Rightarrow> bool" where
  "lock_overlaps lock start end \<longleftrightarrow>
     \<not> (fl_end lock \<noteq> 0 \<and> start \<ge> fl_end lock) \<and> \<not> (end \<noteq> 0 \<and> fl_start lock \<ge> end)"

text \<open>The locks of a list of pointers.\<close>

fun lock_list :: "fdstate \<Rightarrow> nat list \<Rightarrow> file_lock list option" where
  "lock_list s [] = Some []"
| "lock_list s (l # ls) = do { k \<leftarrow> flocks s l; ks \<leftarrow> lock_list s ls; Some (k # ks) }"

text \<open>
  The loop of \<open>remove_unix_locks\<close> over the holes for one lock.  The list of holes is sorted; \<open>n\<close> is the
  number of elements of the buffer that are left, the position of \<open>next\<close>.
\<close>

type_synonym hole = "u64 \<times> u64"

fun cut_holes :: "u64 \<Rightarrow> u64 \<Rightarrow> hole list \<Rightarrow> nat \<Rightarrow> (hole list \<times> nat) option" where
  "cut_holes ls le [] n = Some ([], n)"
| "cut_holes ls le ((hs, he) # holes) n =
     (if he \<le> ls then do { (holes, n) \<leftarrow> cut_holes ls le holes n; Some ((hs, he) # holes, n) }
      else if le \<noteq> 0 \<and> hs \<ge> le then Some ((hs, he) # holes, n)
      else if hs \<ge> ls then
        (if le \<noteq> 0 \<and> le < he then Some ((le, he) # holes, n) else cut_holes ls le holes n)
      else if le = 0 \<or> he \<le> le then
        (if hs < ls then do { (holes, n) \<leftarrow> cut_holes ls le holes n; Some ((hs, ls) # holes, n) } else None)
      else if n = 0 \<or> \<not> le < he \<or> \<not> ls < le then None
      else Some ((hs, ls) # (le, he) # holes, n - 1))"

fun cut_all :: "u64 \<Rightarrow> u64 \<Rightarrow> file_lock list \<Rightarrow> hole list \<Rightarrow> nat \<Rightarrow> hole list option" where
  "cut_all start end [] holes n = Some holes"
| "cut_all start end (k # ks) holes n =
     (if fl_start k = fl_end k \<or> \<not> lock_overlaps k start end then cut_all start end ks holes n
      else do {
        (holes, n) \<leftarrow> cut_holes (fl_start k) (fl_end k) holes n;
        cut_all start end ks holes n
      })"

fun unlock_holes :: "fenv \<Rightarrow> nat \<Rightarrow> hole list \<Rightarrow> fdstate \<Rightarrow> fdstate" where
  "unlock_holes env f [] s = s"
| "unlock_holes env f ((hs, he) # holes) s = unlock_holes env f holes (fst (set_unix_lock env f hs he F_UNLCK s))"

definition remove_unix_locks :: "fenv \<Rightarrow> nat \<Rightarrow> u64 \<Rightarrow> u64 \<Rightarrow> fdstate \<Rightarrow> fdstate option" where
  "remove_unix_locks env f start end s =
     (case fd_inode (fds s f) of None \<Rightarrow> Some s
      | Some i \<Rightarrow>
          if \<not> fd_fs_locks (fds s f) then Some s
          else if start = end \<or> start > max_unix_offset s then Some s
          else do {
            let end = (if end = 0 \<or> end > max_unix_offset s then max_unix_offset s + 1 else end);
            ks \<leftarrow> lock_list s (in_locks (inodes s i));
            let count = length (filter (\<lambda>k. fl_start k \<noteq> fl_end k \<and> lock_overlaps k start end) ks);
            if count = 0 then Some (fst (set_unix_lock env f start end F_UNLCK s))
            else if \<not> malloc_holes env then Some s
            else do {
              holes \<leftarrow> cut_all start end ks [(start, end)] count;
              Some (unlock_holes env f holes s)
            }
          })"


section \<open>Locks\<close>

text \<open>\<open>p\<close> is the pointer for a new lock object, \<open>None\<close> when memory is short; the result is the error, or
  \<open>None\<close> and the lock is in its three lists.\<close>

definition add_lock ::
  "fenv \<Rightarrow> nat option \<Rightarrow> nat \<Rightarrow> nat \<Rightarrow> bool \<Rightarrow> u64 \<Rightarrow> u64 \<Rightarrow> fdstate \<Rightarrow> (fdstate \<times> status option) option" where
  "add_lock env p process f shared start end s =
     (case p of None \<Rightarrow> Some (s, Some STATUS_NO_MEMORY)
      | Some l \<Rightarrow>
          if \<not> sync_ok env then Some (s, Some STATUS_NO_MEMORY)
          else
            (case set_unix_lock env f start end (if shared then F_RDLCK else F_WRLCK) s of
               (s, Some st) \<Rightarrow> Some (s, Some st)
             | (s, None) \<Rightarrow>
                 (case fd_inode (fds s f) of None \<Rightarrow> None
                  | Some i \<Rightarrow>
                      (let s = s\<lparr>flocks := (flocks s)(l \<mapsto> \<lparr>fl_fd = f, fl_shared = shared, fl_start = start, fl_end = end,
                                                      fl_process = Some process, fl_signaled = False, fl_refs = 1\<rparr>)\<rparr>;
                           s = upd_fd f (fd_locks_update (\<lambda>ls. ls @ [l])) s;
                           s = upd_inode i (in_locks_update (\<lambda>ls. ls @ [l])) s;
                           s = s\<lparr>proc_locks := (proc_locks s)(process := proc_locks s process @ [l])\<rparr>
                       in Some (s, None)))))"

text \<open>\<open>release_object\<close> on a lock.\<close>

definition release_lock :: "nat \<Rightarrow> fdstate \<Rightarrow> fdstate option" where
  "release_lock l s =
     (case flocks s l of None \<Rightarrow> None
      | Some k \<Rightarrow>
          if fl_refs k = 0 then None
          else if fl_refs k = 1 then Some (s\<lparr>flocks := (flocks s)(l := None)\<rparr>)
          else Some (s\<lparr>flocks := (flocks s)(l \<mapsto> k\<lparr>fl_refs := fl_refs k - 1\<rparr>)\<rparr>))"

definition remove_lock :: "fenv \<Rightarrow> nat \<Rightarrow> bool \<Rightarrow> fdstate \<Rightarrow> fdstate option" where
  "remove_lock env l remove_unix s =
     do {
       k \<leftarrow> flocks s l;
       i \<leftarrow> fd_inode (fds s (fl_fd k));
       p \<leftarrow> fl_process k;
       let s = upd_fd (fl_fd k) (fd_locks_update (remove1 l)) s;
       let s = upd_inode i (in_locks_update (remove1 l)) s;
       let s = s\<lparr>proc_locks := (proc_locks s)(p := remove1 l (proc_locks s p))\<rparr>;
       s \<leftarrow> (if remove_unix then remove_unix_locks env (fl_fd k) (fl_start k) (fl_end k) s else Some s);
       let s = (if in_locks (inodes s i) = [] then inode_close_pending i True s else s);
       let s = s\<lparr>flocks := (flocks s)(l \<mapsto> k\<lparr>fl_process := None, fl_signaled := True\<rparr>)\<rparr>;
       release_lock l s
     }"

partial_function (option) remove_process_locks :: "fenv \<Rightarrow> nat \<Rightarrow> fdstate \<Rightarrow> fdstate option" where
  "remove_process_locks env p s =
     (if proc_locks s p = [] then Some s
      else do {
        s \<leftarrow> remove_lock env (hd (proc_locks s p)) True s;
        remove_process_locks env p s
      })"

text \<open>The loop of \<open>remove_fd_locks\<close> with the variables \<open>start\<close> and \<open>end\<close>.\<close>

partial_function (option) remove_fd_loop :: "fenv \<Rightarrow> nat \<Rightarrow> u64 \<Rightarrow> u64 \<Rightarrow> fdstate \<Rightarrow> (fdstate \<times> u64 \<times> u64) option" where
  "remove_fd_loop env f start end s =
     (if fd_locks (fds s f) = [] then Some (s, start, end)
      else do {
        k \<leftarrow> flocks s (hd (fd_locks (fds s f)));
        s \<leftarrow> remove_lock env (hd (fd_locks (fds s f))) False s;
        remove_fd_loop env f (if fl_start k < start then fl_start k else start)
          (if fl_end k = 0 \<or> fl_end k > end then fl_end k - 1 else end) s
      })"

definition remove_fd_locks :: "fenv \<Rightarrow> nat \<Rightarrow> fdstate \<Rightarrow> fdstate option" where
  "remove_fd_locks env f s =
     do {
       (s, start, end) \<leftarrow> remove_fd_loop env f FILE_POS_T_MAX 0 s;
       if start < end then remove_unix_locks env f start (end + 1) s else Some s
     }"

text \<open>The first lock of the list that conflicts with the new one.\<close>

fun find_conflict :: "fdstate \<Rightarrow> nat \<Rightarrow> u64 \<Rightarrow> u64 \<Rightarrow> bool \<Rightarrow> nat list \<Rightarrow> nat option option" where
  "find_conflict s f start end shared [] = Some None"
| "find_conflict s f start end shared (l # ls) =
     do {
       k \<leftarrow> flocks s l;
       if \<not> lock_overlaps k start end then find_conflict s f start end shared ls
       else if shared \<and> (fl_shared k \<or> fl_fd k = f) then find_conflict s f start end shared ls
       else Some (Some l)
     }"

text \<open>\<open>lock_fd\<close>: the handle to wait on, or 0, and the error.\<close>

definition lock_fd ::
  "fenv \<Rightarrow> nat option \<Rightarrow> nat \<Rightarrow> nat \<Rightarrow> u64 \<Rightarrow> u64 \<Rightarrow> bool \<Rightarrow> bool \<Rightarrow> fdstate \<Rightarrow> (fdstate \<times> u32 \<times> status) option" where
  "lock_fd env p process f start count shared wait s =
     (let end = start + count
      in case fd_inode (fds s f) of None \<Rightarrow> Some (s, 0, STATUS_INVALID_DEVICE_REQUEST)
         | Some i \<Rightarrow>
             if end \<noteq> 0 \<and> end < start then Some (s, 0, STATUS_INVALID_PARAMETER)
             else do {
               c \<leftarrow> find_conflict s f start end shared (in_locks (inodes s i));
               (case c of
                  Some l \<Rightarrow>
                    if \<not> wait then Some (s, 0, STATUS_FILE_LOCK_CONFLICT)
                    else
                      (case lock_handle env l of
                         Inl st \<Rightarrow> Some (s, 0, st)
                       | Inr h \<Rightarrow>
                           do { k \<leftarrow> flocks s l;
                                Some (s\<lparr>flocks := (flocks s)(l \<mapsto> k\<lparr>fl_refs := fl_refs k + 1\<rparr>)\<rparr>, h, STATUS_PENDING) })
                | None \<Rightarrow>
                    do {
                      (s, r) \<leftarrow> add_lock env p process f shared start end s;
                      Some (s, 0, case r of None \<Rightarrow> STATUS_SUCCESS
                                  | Some st \<Rightarrow> if st = STATUS_FILE_LOCK_CONFLICT \<and> wait then STATUS_PENDING else st)
                    })
             })"

fun find_exact :: "fdstate \<Rightarrow> u64 \<Rightarrow> u64 \<Rightarrow> nat list \<Rightarrow> nat option option" where
  "find_exact s start end [] = Some None"
| "find_exact s start end (l # ls) =
     do {
       k \<leftarrow> flocks s l;
       if fl_start k = start \<and> fl_end k = end then Some (Some l) else find_exact s start end ls
     }"

definition unlock_fd :: "fenv \<Rightarrow> nat \<Rightarrow> u64 \<Rightarrow> u64 \<Rightarrow> fdstate \<Rightarrow> (fdstate \<times> status) option" where
  "unlock_fd env f start count s =
     do {
       r \<leftarrow> find_exact s start (start + count) (fd_locks (fds s f));
       (case r of None \<Rightarrow> Some (s, STATUS_RANGE_NOT_LOCKED)
        | Some l \<Rightarrow> do { s \<leftarrow> remove_lock env l True s; Some (s, STATUS_SUCCESS) })
     }"

text \<open>
  The part of \<open>fd_destroy\<close> on locks and the inode: the locks go, the descriptor leaves the list of
  open ones, and its Unix descriptor is closed now or later.
\<close>

definition fd_destroy :: "fenv \<Rightarrow> nat \<Rightarrow> fdstate \<Rightarrow> fdstate option" where
  "fd_destroy env f s =
     do {
       s \<leftarrow> remove_fd_locks env f s;
       (case fd_inode (fds s f) of
          Some i \<Rightarrow>
            (let s = upd_inode i (in_open_update (remove1 f)) s;
                 s = inode_add_closed_fd env i (fd_closed (fds s f)) s
             in release_inode env i s)
        | None \<Rightarrow>
            Some (if fd_unix_fd (fds s f) \<noteq> -1 then call_host (Close_fd (fd_unix_fd (fds s f))) s else s))
     }"

end
