(* ===== verification/File_Lock_Inv.thy ===== *)
theory File_Lock_Inv
  imports File_Locks
begin

text \<open>
  The holes of \<open>remove_unix_locks\<close>, the invariant of the lock lists, and its preservation.
\<close>

section \<open>What the calls to the host change\<close>

text \<open>The part of the state that a Unix lock call does not touch.\<close>

definition lock_view where
  "lock_view s = (flocks s, proc_locks s, inodes s,
     \<lambda>f. (fd_inode (fds s f), fd_locks (fds s f), fd_closed (fds s f), fd_unix_fd (fds s f)))"

lemma lock_view_eqD:
  assumes "lock_view s = lock_view s'"
  shows "flocks s = flocks s'" "proc_locks s = proc_locks s'" "inodes s = inodes s'"
    "fd_inode (fds s f) = fd_inode (fds s' f)" "fd_locks (fds s f) = fd_locks (fds s' f)"
    "fd_closed (fds s f) = fd_closed (fds s' f)" "fd_unix_fd (fds s f) = fd_unix_fd (fds s' f)"
  using assms by (simp_all add: lock_view_def fun_eq_iff)

definition closes :: "nat \<Rightarrow> fdstate \<Rightarrow> host_call list" where
  "closes i s = filter (\<lambda>c. \<exists>u. c = Close i u) (host s)"

lemma call_host_view [simp]: "lock_view (call_host c s) = lock_view s" "max_unix_offset (call_host c s) = max_unix_offset s"
  by (simp_all add: lock_view_def call_host_def)

lemma closes_lock_call [simp]:
  "closes i (call_host (Setlk u t a b) s) = closes i s" "closes i (call_host (Getlk u t a b) s) = closes i s"
  by (simp_all add: closes_def call_host_def)

lemma fs_locks_view [simp]:
  "lock_view (upd_fd f (fd_fs_locks_update g) s) = lock_view s" "closes i (upd_fd f (fd_fs_locks_update g) s) = closes i s"
  "max_unix_offset (upd_fd f (fd_fs_locks_update g) s) = max_unix_offset s"
  by (simp_all add: lock_view_def upd_fd_def closes_def fun_eq_iff)

lemma max_offset_view [simp]:
  "lock_view (s\<lparr>max_unix_offset := m\<rparr>) = lock_view s" "closes i (s\<lparr>max_unix_offset := m\<rparr>) = closes i s"
  by (simp_all add: lock_view_def closes_def)

definition max_ok :: "fdstate \<Rightarrow> bool" where
  "max_ok s \<longleftrightarrow> max_unix_offset s < FILE_POS_T_MAX"

definition frame :: "nat \<Rightarrow> fdstate \<Rightarrow> fdstate \<Rightarrow> bool" where
  "frame i s s' \<longleftrightarrow> lock_view s' = lock_view s \<and> closes i s' = closes i s \<and> (max_ok s \<longrightarrow> max_ok s')"

lemma frame_refl [simp]: "frame i s s"
  by (simp add: frame_def)

lemma frame_trans: "frame i s s' \<Longrightarrow> frame i s' s'' \<Longrightarrow> frame i s s''"
  by (simp add: frame_def)

lemma frame_call [simp]:
  "frame i (call_host (Setlk u t a b) s) s' = frame i s s'" "frame i (call_host (Getlk u t a b) s) s' = frame i s s'"
  "frame i s (call_host (Setlk u t a b) s') = frame i s s'" "frame i s (call_host (Getlk u t a b) s') = frame i s s'"
  "frame i s (upd_fd f (fd_fs_locks_update g) s') = frame i s s'"
  by (simp_all add: frame_def max_ok_def)

lemma frame_max: "frame i (s\<lparr>max_unix_offset := INT_MAX64\<rparr>) s' \<Longrightarrow> frame i s s'"
  by (simp add: frame_def max_ok_def INT_MAX64_def FILE_POS_T_MAX_def)

lemma set_unix_lock_frame: "frame i s (fst (set_unix_lock env f start end type s))"
proof (induction env f start "end" type s rule: set_unix_lock.induct)
  case (1 env f start "end" type s)
  let ?r = "set_unix_lock env f start end type s"
  define g where "g \<longleftrightarrow> \<not> fd_fs_locks (fds s f) \<or> start = end \<or> start > max_unix_offset s"
  define s' where "s' = call_host (Setlk (fd_unix_fd (fds s f)) type start (if end = 0 \<or> end > max_unix_offset s then 0 else end - start)) s"
  show ?case
  proof (cases g)
    case True
    then have "?r = (s, None)" by (subst set_unix_lock.simps) (auto simp: g_def)
    then show ?thesis by simp
  next
    case False
    then have ng: "fd_fs_locks (fds s f)" "start \<noteq> end" "\<not> start > max_unix_offset s" by (auto simp: g_def)
    note IH = 1(1) [OF _ _ _ refl refl refl refl, OF _ ng(2,3), folded s'_def]
      1(2) [OF _ _ _ refl refl refl refl, OF _ ng(2,3), folded s'_def]
    have s': "frame i s s'" by (simp add: s'_def)
    show ?thesis
    proof (cases "(\<exists>e. fcntl env (host s') = Some e \<and> (e = EBADF \<and> type = F_WRLCK \<or> e \<in> {EOVERFLOW, EINVAL} \<and> max_unix_offset s' > INT_MAX64))")
      case True
      then consider "fcntl env (host s') = Some EBADF" "type = F_WRLCK"
        | e where "fcntl env (host s') = Some e" "e \<in> {EOVERFLOW, EINVAL}" "max_unix_offset s' > INT_MAX64" by blast
      then show ?thesis
      proof cases
        case 1
        then have "?r = set_unix_lock env f start end F_RDLCK s'"
          using ng by (subst set_unix_lock.simps) (simp add: Let_def s'_def)
        then show ?thesis using IH(1) [of EBADF] 1 ng frame_trans [OF s'] by simp
      next
        case 2
        then have "?r = set_unix_lock env f start end type (s'\<lparr>max_unix_offset := INT_MAX64\<rparr>)"
          using ng by (subst set_unix_lock.simps) (auto simp: Let_def s'_def)
        then show ?thesis using IH(2) [of e] 2 ng frame_trans [OF s'] frame_max by fastforce
      qed
    next
      case noretry: False
      show ?thesis
      proof (cases "fcntl env (host s')")
        case None
        then have "?r = (s', None)" using ng by (subst set_unix_lock.simps) (simp add: Let_def s'_def)
        then show ?thesis using s' by simp
      next
        case (Some e)
        show ?thesis
          using ng noretry Some s'
          by (cases e; subst set_unix_lock.simps; simp add: Let_def s'_def [symmetric])
      qed
    qed
  qed
qed

lemma unlock_holes_frame: "frame i s (unlock_holes env f holes s)"
proof (induction holes arbitrary: s)
  case (Cons h holes)
  then show ?case by (cases h) (auto intro: frame_trans [OF set_unix_lock_frame])
qed simp

section \<open>Holes\<close>

definition range_bytes :: "u64 \<Rightarrow> u64 \<Rightarrow> u64 set" where
  "range_bytes start end = (if start = end then {} else {b. start \<le> b \<and> (end = 0 \<or> b < end)})"

abbreviation lock_bytes :: "file_lock \<Rightarrow> u64 set" where
  "lock_bytes k \<equiv> range_bytes (fl_start k) (fl_end k)"

definition hole_bytes :: "hole list \<Rightarrow> u64 set" where
  "hole_bytes holes = {b. \<exists>(hs, he)\<in>set holes. hs \<le> b \<and> b < he}"

lemma hole_bytes_simps [simp]:
  "hole_bytes [] = {}" "hole_bytes ((hs, he) # holes) = {hs..<he} \<union> hole_bytes holes"
  by (auto simp: hole_bytes_def)

text \<open>Holes above \<open>m\<close>, sorted, none of them empty.\<close>

fun holes_ok :: "u64 \<Rightarrow> hole list \<Rightarrow> bool" where
  "holes_ok m [] \<longleftrightarrow> True"
| "holes_ok m ((hs, he) # holes) \<longleftrightarrow> m \<le> hs \<and> hs < he \<and> holes_ok he holes"

lemma holes_ok_mono: "holes_ok m holes \<Longrightarrow> m' \<le> m \<Longrightarrow> holes_ok m' holes"
  by (cases "(m, holes)" rule: holes_ok.cases) auto

lemma holes_ok_bytes: "holes_ok m holes \<Longrightarrow> b \<in> hole_bytes holes \<Longrightarrow> m \<le> b"
  by (induction m holes rule: holes_ok.induct) fastforce+

lemma holes_ok_mem: "holes_ok m holes \<Longrightarrow> (hs, he) \<in> set holes \<Longrightarrow> hs < he"
  by (induction m holes rule: holes_ok.induct) auto

lemma max_ok_succ: "max_ok s \<Longrightarrow> b < max_unix_offset s + 1 \<longleftrightarrow> b \<le> max_unix_offset s"
  by (simp add: max_ok_def FILE_POS_T_MAX_def word_less_nat_alt word_le_nat_alt unsigned_minus_1_eq_mask
      mask_eq_exp_minus_1 unat_word_ariths(1) less_Suc_eq_le)

lemma cut_holes_spec:
  assumes "holes_ok m holes" "le = 0 \<or> ls < le" "0 < n"
  shows "\<exists>holes' n'. cut_holes ls le holes n = Some (holes', n') \<and> n - 1 \<le> n' \<and> holes_ok m holes' \<and>
           hole_bytes holes' = hole_bytes holes - {b. ls \<le> b \<and> (le = 0 \<or> b < le)}"
  using assms
proof (induction ls le holes n arbitrary: m rule: cut_holes.induct)
  case (2 ls le hs he holes n)
  let ?X = "{b. ls \<le> b \<and> (le = 0 \<or> b < le)}"
  have ok: "m \<le> hs" "hs < he" "holes_ok he holes" using "2.prems"(1) by auto
  have above: "he \<le> b" if "b \<in> hole_bytes holes" for b using holes_ok_bytes [OF ok(3) that] .
  consider (before) "he \<le> ls" | (after) "\<not> he \<le> ls" "le \<noteq> 0 \<and> hs \<ge> le"
    | (head) "\<not> he \<le> ls" "\<not> (le \<noteq> 0 \<and> hs \<ge> le)" "hs \<ge> ls" "le \<noteq> 0 \<and> le < he"
    | (covered) "\<not> he \<le> ls" "\<not> (le \<noteq> 0 \<and> hs \<ge> le)" "hs \<ge> ls" "\<not> (le \<noteq> 0 \<and> le < he)"
    | (tail) "\<not> he \<le> ls" "\<not> (le \<noteq> 0 \<and> hs \<ge> le)" "\<not> hs \<ge> ls" "le = 0 \<or> he \<le> le"
    | (middle) "\<not> he \<le> ls" "\<not> (le \<noteq> 0 \<and> hs \<ge> le)" "\<not> hs \<ge> ls" "\<not> (le = 0 \<or> he \<le> le)"
    by (cases "he \<le> ls"; cases "le \<noteq> 0 \<and> hs \<ge> le"; cases "hs \<ge> ls"; cases "le = 0 \<or> he \<le> le") auto
  then show ?case
  proof cases
    case before
    obtain holes' n' where "cut_holes ls le holes n = Some (holes', n')" "n - 1 \<le> n'" "holes_ok he holes'"
        "hole_bytes holes' = hole_bytes holes - ?X"
      using "2.IH"(1) [OF before ok(3) "2.prems"(2,3)] by blast
    moreover have "{hs..<he} \<inter> ?X = {}" using before by auto
    ultimately show ?thesis using before ok by (simp add: Un_Diff Diff_triv)
  next
    case after
    have "hole_bytes holes - ?X = hole_bytes holes" using above after ok(2) by fastforce
    moreover have "{hs..<he} - ?X = {hs..<he}" using after by auto
    ultimately show ?thesis using after ok by (simp add: Un_Diff)
  next
    case head
    have "hole_bytes holes - ?X = hole_bytes holes" using above head(4) by fastforce
    moreover have "{hs..<he} - ?X = {le..<he}" using head by auto
    ultimately show ?thesis using head ok by (simp add: Un_Diff)
  next
    case covered
    obtain holes' n' where c: "cut_holes ls le holes n = Some (holes', n')" "n - 1 \<le> n'" "holes_ok he holes'"
        "hole_bytes holes' = hole_bytes holes - ?X"
      using "2.IH"(2) [OF covered(1,2,3,4) ok(3) "2.prems"(2,3)] by blast
    moreover have "{hs..<he} - ?X = {}" using covered by auto
    then have "hole_bytes holes' = hole_bytes ((hs, he) # holes) - ?X" 
      by (simp only: c(4) hole_bytes_simps Un_Diff Un_empty_left)
    moreover have "holes_ok m holes'" using holes_ok_mono [OF c(3)] ok(1,2) by simp
    moreover have "cut_holes ls le ((hs, he) # holes) n = cut_holes ls le holes n" using covered by auto
    ultimately show ?thesis by auto
  next
    case tail
    have "hs < ls" using tail(3) by simp
    obtain holes' n' where c: "cut_holes ls le holes n = Some (holes', n')" "n - 1 \<le> n'" "holes_ok he holes'"
        "hole_bytes holes' = hole_bytes holes - ?X"
      using "2.IH"(3) [OF tail(1,2,3,4) \<open>hs < ls\<close> ok(3) "2.prems"(2,3)] by blast
    have "{hs..<he} - ?X = {hs..<ls}" using tail by auto
    then have "hole_bytes ((hs, ls) # holes') = hole_bytes ((hs, he) # holes) - ?X"
      by (simp only: c(4) hole_bytes_simps Un_Diff)
    moreover have "holes_ok m ((hs, ls) # holes')" using holes_ok_mono [OF c(3), of ls] tail(1) ok(1) \<open>hs < ls\<close> by simp
    moreover have "cut_holes ls le ((hs, he) # holes) n = Some ((hs, ls) # holes', n')" using tail c(1) \<open>hs < ls\<close> by auto
    ultimately show ?thesis using c(2) by blast
  next
    case middle
    have "hole_bytes holes - ?X = hole_bytes holes" using above middle(4) by fastforce
    moreover have "{hs..<he} - ?X = {hs..<ls} \<union> {le..<he}" using middle by auto
    ultimately have "hole_bytes ((hs, ls) # (le, he) # holes) = hole_bytes ((hs, he) # holes) - ?X"
      by (simp only: hole_bytes_simps Un_Diff Un_assoc)
    moreover have lt: "hs < ls" "ls < le" "le < he" using middle "2.prems"(2) by auto
    then have "holes_ok m ((hs, ls) # (le, he) # holes)" using ok by simp
    moreover have "cut_holes ls le ((hs, he) # holes) n = Some ((hs, ls) # (le, he) # holes, n - 1)"
      using middle lt "2.prems"(3) by auto
    ultimately show ?thesis by blast
  qed
qed simp

text \<open>The locks that \<open>remove_unix_locks\<close> counts.\<close>

abbreviation relevant :: "u64 \<Rightarrow> u64 \<Rightarrow> file_lock \<Rightarrow> bool" where
  "relevant start end k \<equiv> fl_start k \<noteq> fl_end k \<and> lock_overlaps k start end"

definition range_ok :: "file_lock \<Rightarrow> bool" where
  "range_ok k \<longleftrightarrow> fl_end k = 0 \<or> fl_start k \<le> fl_end k"

lemma cut_all_spec:
  assumes "holes_ok m holes" "\<forall>k\<in>set ks. range_ok k" "length (filter (relevant start end) ks) \<le> n"
    "hole_bytes holes \<subseteq> {start..<end}"
  shows "\<exists>holes'. cut_all start end ks holes n = Some holes' \<and> holes_ok m holes' \<and>
           hole_bytes holes' = hole_bytes holes - (\<Union>k\<in>set ks. lock_bytes k)"
  using assms
proof (induction start "end" ks holes n arbitrary: m rule: cut_all.induct)
  case (2 start "end" k ks holes n)
  show ?case
  proof (cases "relevant start end k")
    case True
    then have "fl_end k = 0 \<or> fl_start k < fl_end k" "0 < n"
      using "2.prems"(2,3) by (auto simp: range_ok_def order_le_less)
    then obtain holes' n' where c: "cut_holes (fl_start k) (fl_end k) holes n = Some (holes', n')" "n - 1 \<le> n'"
        "holes_ok m holes'" "hole_bytes holes' = hole_bytes holes - lock_bytes k"
      using cut_holes_spec [OF "2.prems"(1), of "fl_end k" "fl_start k" n] True by (auto simp: range_bytes_def)
    have "\<exists>hs. cut_all start end ks holes' n' = Some hs \<and> holes_ok m hs \<and>
           hole_bytes hs = hole_bytes holes' - (\<Union>k\<in>set ks. lock_bytes k)"
      using True c "2.prems" by (intro "2.IH"(2)) auto
    then show ?thesis using True c by auto
  next
    case False
    have "lock_bytes k \<inter> {start..<end} = {}"
      using False by (auto simp: lock_overlaps_def range_bytes_def split: if_splits)
    then have d: "hole_bytes holes \<inter> lock_bytes k = {}" using "2.prems"(4) by blast
    have "\<exists>hs. cut_all start end ks holes n = Some hs \<and> holes_ok m hs \<and>
           hole_bytes hs = hole_bytes holes - (\<Union>k\<in>set ks. lock_bytes k)"
      using False "2.prems" by (intro "2.IH"(1)) auto
    then show ?thesis using False d by auto
  qed
qed simp


section \<open>The invariant\<close>

text \<open>A lock that is held; a lock that was removed stays allocated while handles refer to it.\<close>

definition held :: "fdstate \<Rightarrow> nat \<Rightarrow> file_lock \<Rightarrow> bool" where
  "held s l k \<longleftrightarrow> flocks s l = Some k \<and> fl_process k \<noteq> None"

abbreviation lock_inode :: "fdstate \<Rightarrow> file_lock \<Rightarrow> nat option" where
  "lock_inode s k \<equiv> fd_inode (fds s (fl_fd k))"

text \<open>Two locks on a file may be held together.\<close>

definition compatible :: "file_lock \<Rightarrow> file_lock \<Rightarrow> bool" where
  "compatible k k' \<longleftrightarrow>
     lock_overlaps k (fl_start k') (fl_end k') \<longrightarrow>
     fl_shared k \<and> fl_shared k' \<or> fl_fd k = fl_fd k' \<and> (fl_shared k \<or> fl_shared k')"

definition wf_lists :: "fdstate \<Rightarrow> bool" where
  "wf_lists s \<longleftrightarrow>
     (\<forall>i. distinct (in_locks (inodes s i)) \<and> set (in_locks (inodes s i)) = {l. \<exists>k. held s l k \<and> lock_inode s k = Some i}) \<and>
     (\<forall>f. distinct (fd_locks (fds s f)) \<and> set (fd_locks (fds s f)) = {l. \<exists>k. held s l k \<and> fl_fd k = f}) \<and>
     (\<forall>p. distinct (proc_locks s p) \<and> set (proc_locks s p) = {l. \<exists>k. held s l k \<and> fl_process k = Some p})"

definition wf_held :: "fdstate \<Rightarrow> bool" where
  "wf_held s \<longleftrightarrow>
     (\<forall>l k. held s l k \<longrightarrow> 0 < fl_refs k \<and> range_ok k \<and>
            (\<exists>i. lock_inode s k = Some i \<and> fl_fd k \<in> set (in_open (inodes s i)))) \<and>
     (\<forall>l k l' k'. held s l k \<and> held s l' k' \<and> l \<noteq> l' \<and> lock_inode s k = lock_inode s k' \<longrightarrow> compatible k k')"

definition wf_open :: "fdstate \<Rightarrow> bool" where
  "wf_open s \<longleftrightarrow>
     (\<forall>i. distinct (in_open (inodes s i)) \<and> in_refs (inodes s i) = length (in_open (inodes s i)) \<and>
          (\<forall>f\<in>set (in_open (inodes s i)). fd_inode (fds s f) = Some i))"

definition wf_flocks :: "fdstate \<Rightarrow> bool" where
  "wf_flocks s \<longleftrightarrow> wf_lists s \<and> wf_held s \<and> wf_open s \<and> max_ok s"

lemma held_unique: "held s l k \<Longrightarrow> held s l k' \<Longrightarrow> k = k'"
  by (simp add: held_def)

lemma held_view: "lock_view s = lock_view s' \<Longrightarrow> held s = held s'"
  using lock_view_eqD(1) [of s s'] by (simp add: held_def fun_eq_iff)

lemma wf_flocks_frame:
  assumes "frame i s s'" "wf_flocks s"
  shows "wf_flocks s'"
proof -
  have v: "lock_view s' = lock_view s" "max_ok s \<longrightarrow> max_ok s'" using assms(1) by (auto simp: frame_def)
  note eqs = lock_view_eqD [OF v(1)] held_view [OF v(1)]
  have "wf_lists s'" using assms(2) unfolding wf_flocks_def wf_lists_def by (simp only: eqs) simp
  moreover have "wf_held s'" using assms(2) unfolding wf_flocks_def wf_held_def eqs by blast
  moreover have "wf_open s'" using assms(2) unfolding wf_flocks_def wf_open_def by (simp only: eqs) simp
  ultimately show ?thesis using assms(2) v(2) by (simp add: wf_flocks_def)
qed

lemma lock_list_Some:
  "(\<forall>l\<in>set ls. \<exists>k. flocks s l = Some k) \<Longrightarrow> lock_list s ls = Some (map (\<lambda>l. the (flocks s l)) ls)"
  by (induction ls) auto

text \<open>The bytes of the held locks of an inode.\<close>

definition locked_bytes :: "nat \<Rightarrow> fdstate \<Rightarrow> u64 set" where
  "locked_bytes i s = (\<Union>l\<in>set (in_locks (inodes s i)). lock_bytes (the (flocks s l)))"

text \<open>The holes that \<open>remove_unix_locks\<close> unlocks, for the range cut off at the largest offset.\<close>

definition cut_end :: "fdstate \<Rightarrow> u64 \<Rightarrow> u64" where
  "cut_end s end = (if end = 0 \<or> end > max_unix_offset s then max_unix_offset s + 1 else end)"

text \<open>What is needed of the lists when Unix locks are removed.\<close>

definition inode_locks_ok :: "nat \<Rightarrow> fdstate \<Rightarrow> bool" where
  "inode_locks_ok i s \<longleftrightarrow> max_ok s \<and> (\<forall>l\<in>set (in_locks (inodes s i)). \<exists>k. flocks s l = Some k \<and> range_ok k)"

lemma remove_unix_locks_holes:
  assumes "inode_locks_ok i s" "fd_inode (fds s f) = Some i" "fd_fs_locks (fds s f)" "start \<noteq> end"
    "start \<le> max_unix_offset s" "end = 0 \<or> start \<le> end" "malloc_holes env"
  shows "\<exists>holes. remove_unix_locks env f start end s = Some (unlock_holes env f holes s) \<and> holes_ok 0 holes \<and>
           hole_bytes holes = {start..<cut_end s end} - locked_bytes i s"
proof -
  define e where "e = cut_end s end"
  define ks where "ks = map (\<lambda>l. the (flocks s l)) (in_locks (inodes s i))"
  define c where "c = length (filter (relevant start e) ks)"
  have "max_unix_offset s < max_unix_offset s + 1" using assms(1) by (simp add: inode_locks_ok_def max_ok_succ)
  then have se: "start < e" using assms(4-6) by (auto simp: e_def cut_end_def)
  have ks: "lock_list s (in_locks (inodes s i)) = Some ks" "\<forall>k\<in>set ks. range_ok k"
    using assms(1) by (auto simp: ks_def inode_locks_ok_def intro!: lock_list_Some)
  have lb: "(\<Union>k\<in>set ks. lock_bytes k) = locked_bytes i s" by (simp add: ks_def locked_bytes_def)
  have r: "remove_unix_locks env f start end s =
      (if c = 0 then Some (fst (set_unix_lock env f start e F_UNLCK s))
       else do { holes \<leftarrow> cut_all start e ks [(start, e)] c; Some (unlock_holes env f holes s) })"
  proof -
    have "\<not> start > max_unix_offset s" using assms(5) by simp
    then show ?thesis using assms(2-4,7) ks(1) unfolding remove_unix_locks_def c_def e_def cut_end_def Let_def
      by (simp only: option.case if_False if_True not_True_eq_False not_False_eq_True disj_not1 Option.bind.simps simp_thms)
  qed
  obtain holes where h: "cut_all start e ks [(start, e)] c = Some holes" "holes_ok 0 holes"
      "hole_bytes holes = {start..<e} - locked_bytes i s"
    using cut_all_spec [of 0 "[(start, e)]" ks start e c] se ks(2) lb by (auto simp: c_def)
  show ?thesis
  proof (cases "c = 0")
    case True
    then have f: "\<forall>k\<in>set ks. \<not> relevant start e k" by (simp add: c_def filter_empty_conv)
    have "cut_all start e ks hs n = Some hs" for hs n using f by (induction ks) auto
    then have "holes = [(start, e)]" using h(1) by simp
    then show ?thesis using r True h e_def by (intro exI [of _ holes]) simp
  next
    case False
    then show ?thesis using r h e_def by auto
  qed
qed

lemma remove_unix_locks_frame:
  assumes "inode_locks_ok i s" "fd_inode (fds s f) = Some i" "end = 0 \<or> start \<le> end"
  shows "\<exists>s'. remove_unix_locks env f start end s = Some s' \<and> (\<forall>j. frame j s s')"
proof (cases "fd_fs_locks (fds s f) \<and> start \<noteq> end \<and> start \<le> max_unix_offset s")
  case guard: True
  show ?thesis
  proof (cases "malloc_holes env")
    case True
    then show ?thesis using remove_unix_locks_holes [OF assms(1,2) _ _ _ assms(3)] guard unlock_holes_frame by blast
  next
    case False
    have "lock_list s (in_locks (inodes s i)) \<noteq> None"
      using assms(1) lock_list_Some [of "in_locks (inodes s i)" s] by (auto simp: inode_locks_ok_def)
    then show ?thesis using False assms(2) guard set_unix_lock_frame
      by (auto simp: remove_unix_locks_def Let_def not_less)
  qed
next
  case False
  then show ?thesis using assms(2) by (auto simp: remove_unix_locks_def)
qed


section \<open>Closing\<close>

lemma close_unix_frame [simp]:
  "lock_view (close_unix i u s) = lock_view s" "max_ok (close_unix i u s) = max_ok s"
  "j \<noteq> i \<Longrightarrow> closes j (close_unix i u s) = closes j s"
  by (simp_all add: close_unix_def max_ok_def) (simp add: closes_def call_host_def)

lemma unlink_closed_frame [simp]:
  "lock_view (unlink_closed_fd env i c s) = lock_view s" "max_ok (unlink_closed_fd env i c s) = max_ok s"
  "closes j (unlink_closed_fd env i c s) = closes j s"
  by (simp_all add: unlink_closed_fd_def max_ok_def) (simp add: closes_def call_host_def)

lemma close_pending_loop_frame:
  "lock_view (fst (close_pending_loop b i cs s)) = lock_view s \<and> max_ok (fst (close_pending_loop b i cs s)) = max_ok s \<and>
   (j \<noteq> i \<longrightarrow> closes j (fst (close_pending_loop b i cs s)) = closes j s)"
proof (induction cs arbitrary: s)
  case (Cons c cs)
  have "lock_view (fst (close_pending_loop b i cs (close_unix i (cf_unix_fd c) s))) = lock_view s \<and>
        max_ok (fst (close_pending_loop b i cs (close_unix i (cf_unix_fd c) s))) = max_ok s \<and>
        (j \<noteq> i \<longrightarrow> closes j (fst (close_pending_loop b i cs (close_unix i (cf_unix_fd c) s))) = closes j s)"
    using Cons.IH [of "close_unix i (cf_unix_fd c) s"] by simp
  then show ?case by (simp only: close_pending_loop.simps Let_def prod.case_eq_if) (auto split: if_split)
qed simp

lemma destroy_closed_frame:
  "lock_view (destroy_closed env i cs s) = lock_view s \<and> max_ok (destroy_closed env i cs s) = max_ok s \<and>
   (j \<noteq> i \<longrightarrow> closes j (destroy_closed env i cs s) = closes j s)"
  by (induction cs arbitrary: s) (simp_all add: Let_def)

text \<open>The state apart from the closed descriptors.\<close>

definition lists_view where
  "lists_view s = (flocks s, proc_locks s, \<lambda>i. (in_refs (inodes s i), in_open (inodes s i), in_locks (inodes s i)),
     \<lambda>f. (fd_inode (fds s f), fd_locks (fds s f)))"

lemma lists_view_eqD:
  assumes "lists_view s = lists_view s'"
  shows "flocks s = flocks s'" "proc_locks s = proc_locks s'" "in_refs (inodes s i) = in_refs (inodes s' i)"
    "in_open (inodes s i) = in_open (inodes s' i)" "in_locks (inodes s i) = in_locks (inodes s' i)"
    "fd_inode (fds s f) = fd_inode (fds s' f)" "fd_locks (fds s f) = fd_locks (fds s' f)" "held s = held s'"
  using assms by (simp_all add: lists_view_def held_def fun_eq_iff)

lemma lists_view: "lock_view s = lock_view s' \<Longrightarrow> lists_view s = lists_view s'"
  by (simp add: lists_view_def lock_view_eqD [of s s'])

lemma lists_view_closed [simp]:
  "lists_view (upd_inode i (in_closed_update g) s) = lists_view s" "max_ok (upd_inode i (in_closed_update g) s) = max_ok s"
  "closes j (upd_inode i (in_closed_update g) s) = closes j s"
  by (simp_all add: lists_view_def upd_inode_def fun_eq_iff max_ok_def closes_def)

lemma wf_flocks_view:
  assumes "lists_view s' = lists_view s" "max_ok s \<longrightarrow> max_ok s'"
  shows "wf_flocks s \<Longrightarrow> wf_flocks s'"
proof -
  assume wf: "wf_flocks s"
  note eqs = lists_view_eqD [OF assms(1)]
  have "wf_lists s'" using wf unfolding wf_flocks_def wf_lists_def by (simp only: eqs) simp
  moreover have "wf_held s'" using wf unfolding wf_flocks_def wf_held_def eqs by blast
  moreover have "wf_open s'" using wf unfolding wf_flocks_def wf_open_def by (simp only: eqs) simp
  ultimately show ?thesis using wf assms(2) by (simp add: wf_flocks_def)
qed

lemma lists_view_close [simp]:
  "lists_view (close_unix i u s) = lists_view s" "lists_view (unlink_closed_fd env i c s) = lists_view s"
  "lists_view (fst (close_pending_loop b i cs s)) = lists_view s" "lists_view (destroy_closed env i cs s) = lists_view s"
  using close_pending_loop_frame destroy_closed_frame by (auto intro: lists_view)

lemma inode_close_pending_frame:
  "lists_view (inode_close_pending i b s) = lists_view s" "max_ok (inode_close_pending i b s) = max_ok s"
  "j \<noteq> i \<Longrightarrow> closes j (inode_close_pending i b s) = closes j s"
  using close_pending_loop_frame [of b i "in_closed (inodes s i)" s j]
  by (simp_all add: inode_close_pending_def prod.case_eq_if)

lemma inode_add_closed_frame:
  "lists_view (inode_add_closed_fd env i c s) = lists_view s" "max_ok (inode_add_closed_fd env i c s) = max_ok s"
  "j \<noteq> i \<or> in_locks (inodes s i) \<noteq> [] \<Longrightarrow> closes j (inode_add_closed_fd env i c s) = closes j s"
  by (auto simp: inode_add_closed_fd_def)

end
