(* ===== verification/File_Lock_Ops.thy ===== *)
theory File_Lock_Ops
  imports File_Lock_Inv
begin

text \<open>
  The operations on file locks keep the invariant, always return, and close descriptors of an inode
  only when it has no locks left.
\<close>

section \<open>Removing a lock\<close>

text \<open>The state \<open>s'\<close> is \<open>s\<close> without the held lock \<open>l\<close>.\<close>

definition dropped :: "nat \<Rightarrow> fdstate \<Rightarrow> fdstate \<Rightarrow> bool" where
  "dropped l s s' \<longleftrightarrow>
     (\<forall>l' k. held s' l' k \<longleftrightarrow> held s l' k \<and> l' \<noteq> l) \<and>
     (\<forall>i. in_locks (inodes s' i) = remove1 l (in_locks (inodes s i)) \<and> in_open (inodes s' i) = in_open (inodes s i) \<and>
          in_refs (inodes s' i) = in_refs (inodes s i)) \<and>
     (\<forall>f. fd_locks (fds s' f) = remove1 l (fd_locks (fds s f)) \<and> fd_inode (fds s' f) = fd_inode (fds s f)) \<and>
     (\<forall>p. proc_locks s' p = remove1 l (proc_locks s p)) \<and> max_ok s'"

lemma wf_dropped:
  assumes "wf_flocks s" "dropped l s s'"
  shows "wf_flocks s'"
proof -
  have d: "\<And>l' k. held s' l' k \<longleftrightarrow> held s l' k \<and> l' \<noteq> l"
    "\<And>i. in_locks (inodes s' i) = remove1 l (in_locks (inodes s i))" "\<And>i. in_open (inodes s' i) = in_open (inodes s i)"
    "\<And>i. in_refs (inodes s' i) = in_refs (inodes s i)"
    "\<And>f. fd_locks (fds s' f) = remove1 l (fd_locks (fds s f))" "\<And>f. fd_inode (fds s' f) = fd_inode (fds s f)"
    "\<And>p. proc_locks s' p = remove1 l (proc_locks s p)" "max_ok s'"
    using assms(2) by (auto simp: dropped_def)
  have "wf_lists s'"
    using assms(1) unfolding wf_flocks_def wf_lists_def d by (auto simp: set_remove1_eq)
  moreover have "wf_held s'" using assms(1) unfolding wf_flocks_def wf_held_def d by blast
  moreover have "wf_open s'" using assms(1) unfolding wf_flocks_def wf_open_def d by blast
  ultimately show ?thesis using d(8) by (simp add: wf_flocks_def)
qed

lemma wf_heldD:
  assumes "wf_flocks s" "held s l k"
  obtains i p where "fd_inode (fds s (fl_fd k)) = Some i" "fl_process k = Some p" "0 < fl_refs k" "range_ok k"
    "l \<in> set (in_locks (inodes s i))" "l \<in> set (fd_locks (fds s (fl_fd k)))" "l \<in> set (proc_locks s p)"
    "\<And>j. j \<noteq> i \<Longrightarrow> l \<notin> set (in_locks (inodes s j))" "\<And>f. f \<noteq> fl_fd k \<Longrightarrow> l \<notin> set (fd_locks (fds s f))"
    "\<And>q. q \<noteq> p \<Longrightarrow> l \<notin> set (proc_locks s q)"
proof -
  obtain i where i: "lock_inode s k = Some i" "0 < fl_refs k" "range_ok k"
    using assms unfolding wf_flocks_def wf_held_def by blast
  obtain p where p: "fl_process k = Some p" using assms(2) by (auto simp: held_def)
  have sets: "set (in_locks (inodes s j)) = {l. \<exists>k. held s l k \<and> lock_inode s k = Some j}"
    "set (fd_locks (fds s f)) = {l. \<exists>k. held s l k \<and> fl_fd k = f}"
    "set (proc_locks s q) = {l. \<exists>k. held s l k \<and> fl_process k = Some q}" for j f q
    using assms(1) by (auto simp: wf_flocks_def wf_lists_def)
  show thesis
    by (rule that [OF i(1) p i(2,3)]) (use assms(2) i(1) p in \<open>auto simp: sets dest: held_unique [OF assms(2)]\<close>)
qed

lemma held_lists:
  assumes "wf_flocks s" "held s l k"
  shows "l \<in> set (in_locks (inodes s i)) \<longleftrightarrow> lock_inode s k = Some i"
    "l \<in> set (fd_locks (fds s f)) \<longleftrightarrow> fl_fd k = f" "l \<in> set (proc_locks s p) \<longleftrightarrow> fl_process k = Some p"
proof -
  have u: "held s l k' \<longleftrightarrow> k' = k" for k' using assms(2) by (auto simp: held_def)
  have sets: "set (in_locks (inodes s i)) = {l. \<exists>k. held s l k \<and> lock_inode s k = Some i}"
    "set (fd_locks (fds s f)) = {l. \<exists>k. held s l k \<and> fl_fd k = f}"
    "set (proc_locks s p) = {l. \<exists>k. held s l k \<and> fl_process k = Some p}"
    using assms(1) by (auto simp: wf_flocks_def wf_lists_def)
  show "l \<in> set (in_locks (inodes s i)) \<longleftrightarrow> lock_inode s k = Some i"
    "l \<in> set (fd_locks (fds s f)) \<longleftrightarrow> fl_fd k = f" "l \<in> set (proc_locks s p) \<longleftrightarrow> fl_process k = Some p"
    by (simp_all add: sets u)
qed

lemma wf_inode_locks_ok: "wf_flocks s \<Longrightarrow> inode_locks_ok i s"
  unfolding wf_flocks_def wf_lists_def wf_held_def inode_locks_ok_def by (fastforce simp: held_def)

text \<open>\<open>remove_lock\<close>.\<close>

definition unlink_lock :: "nat \<Rightarrow> file_lock \<Rightarrow> nat \<Rightarrow> nat \<Rightarrow> fdstate \<Rightarrow> fdstate" where
  "unlink_lock l k i p s =
     (let s = upd_inode i (in_locks_update (remove1 l)) (upd_fd (fl_fd k) (fd_locks_update (remove1 l)) s)
      in s\<lparr>proc_locks := (proc_locks s)(p := remove1 l (proc_locks s p))\<rparr>)"

lemma unlink_lock_simps:
  "flocks (unlink_lock l k i p s) = flocks s" "max_ok (unlink_lock l k i p s) = max_ok s"
  "closes j (unlink_lock l k i p s) = closes j s" "fd_inode (fds (unlink_lock l k i p s) f) = fd_inode (fds s f)"
  "in_open (inodes (unlink_lock l k i p s) j) = in_open (inodes s j)"
  "in_refs (inodes (unlink_lock l k i p s) j) = in_refs (inodes s j)"
  "in_locks (inodes (unlink_lock l k i p s) j) = (if j = i then remove1 l (in_locks (inodes s j)) else in_locks (inodes s j))"
  "fd_locks (fds (unlink_lock l k i p s) f) = (if f = fl_fd k then remove1 l (fd_locks (fds s f)) else fd_locks (fds s f))"
  "proc_locks (unlink_lock l k i p s) q = (if q = p then remove1 l (proc_locks s q) else proc_locks s q)"
  by (simp_all add: unlink_lock_def upd_inode_def upd_fd_def max_ok_def closes_def Let_def)

lemma remove_lock_eq:
  assumes "flocks s l = Some k" "fd_inode (fds s (fl_fd k)) = Some i" "fl_process k = Some p"
  shows "remove_lock env l b s =
     do {
       s \<leftarrow> (if b then remove_unix_locks env (fl_fd k) (fl_start k) (fl_end k) (unlink_lock l k i p s) else Some (unlink_lock l k i p s));
       let s = (if in_locks (inodes s i) = [] then inode_close_pending i True s else s);
       release_lock l (s\<lparr>flocks := (flocks s)(l \<mapsto> k\<lparr>fl_process := None, fl_signaled := True\<rparr>)\<rparr>)
     }"
  using assms by (simp add: remove_lock_def unlink_lock_def Let_def)

lemma closes_flocks [simp]: "closes j (s\<lparr>flocks := x\<rparr>) = closes j s"
  by (simp add: closes_def)

lemma remove_lock_spec:
  assumes wf: "wf_flocks s" and h: "held s l k"
  shows "\<exists>s'. remove_lock env l b s = Some s' \<and> dropped l s s' \<and> (\<forall>j. closes j s' = closes j s \<or> in_locks (inodes s' j) = [])"
proof -
  obtain i p where k: "fd_inode (fds s (fl_fd k)) = Some i" "fl_process k = Some p" "0 < fl_refs k" "range_ok k"
      "l \<in> set (in_locks (inodes s i))" "l \<in> set (fd_locks (fds s (fl_fd k)))" "l \<in> set (proc_locks s p)"
      "\<And>j. j \<noteq> i \<Longrightarrow> l \<notin> set (in_locks (inodes s j))" "\<And>f. f \<noteq> fl_fd k \<Longrightarrow> l \<notin> set (fd_locks (fds s f))"
      "\<And>q. q \<noteq> p \<Longrightarrow> l \<notin> set (proc_locks s q)"
    by (rule wf_heldD [OF wf h]) (rule that)
  have lk: "flocks s l = Some k" using h by (simp add: held_def)
  define s1 where "s1 = unlink_lock l k i p s"
  note s1 = unlink_lock_simps [where l = l and k = k and i = i and p = p and s = s, folded s1_def]
  have ok: "inode_locks_ok i s1"
    using wf_inode_locks_ok [OF wf, of i] set_remove1_subset by (fastforce simp: inode_locks_ok_def s1)
  obtain s2 where s2: "(if b then remove_unix_locks env (fl_fd k) (fl_start k) (fl_end k) s1 else Some s1) = Some s2" "\<And>j. frame j s1 s2"
  proof (cases b)
    case True
    then show thesis
      using remove_unix_locks_frame [OF ok, of "fl_fd k" "fl_end k" "fl_start k" env] k(1,4) that by (auto simp: s1 range_ok_def)
  qed (use that in simp)
  define s3 where "s3 = (if in_locks (inodes s2 i) = [] then inode_close_pending i True s2 else s2)"
  have v: "lists_view s3 = lists_view s1" "max_ok s3"
    using s2(2) [of i] wf inode_close_pending_frame [where i = i and b = True and s = s2] lists_view [of s2 s1]
    by (auto simp: s3_def frame_def wf_flocks_def s1)
  have c: "closes j s3 = closes j s \<or> in_locks (inodes s3 j) = []" for j
    using s2(2) [of j] inode_close_pending_frame(1,3) [where i = i and b = True and s = s2] lists_view_eqD(5) [of "inode_close_pending i True s2" s2 i]
    by (cases "j = i") (auto simp: s3_def frame_def s1)
  note e = lists_view_eqD [OF v(1)]
  define k' where "k' = k\<lparr>fl_process := None, fl_signaled := True\<rparr>"
  obtain x where x: "release_lock l (s3\<lparr>flocks := (flocks s3)(l \<mapsto> k')\<rparr>) = Some (s3\<lparr>flocks := (flocks s3)(l := x)\<rparr>)"
      "x = None \<or> (\<exists>r. x = Some (k'\<lparr>fl_refs := r\<rparr>))"
    using k(3) by (cases "fl_refs k = 1") (auto simp: release_lock_def k'_def)
  have "remove_lock env l b s = Some (s3\<lparr>flocks := (flocks s3)(l := x)\<rparr>)"
    unfolding remove_lock_eq [OF lk k(1,2)] s1_def [symmetric] s2(1) k'_def [symmetric]
    by (simp add: s3_def [symmetric] x(1) Let_def)
  moreover have "dropped l s (s3\<lparr>flocks := (flocks s3)(l := x)\<rparr>)"
    using x(2) k v(2) unfolding dropped_def
    by (auto simp: e s1 held_def k'_def remove1_idem max_ok_def)
  ultimately show ?thesis using c by (intro exI [of _ "s3\<lparr>flocks := (flocks s3)(l := x)\<rparr>"]) simp
qed


section \<open>Removing the locks of a process or a descriptor\<close>

text \<open>\<open>s'\<close> is reached from \<open>s\<close> by dropping the locks of the list.\<close>

fun dropped_all :: "nat list \<Rightarrow> fdstate \<Rightarrow> fdstate \<Rightarrow> bool" where
  "dropped_all [] s s' \<longleftrightarrow> s = s'"
| "dropped_all (l # ls) s s' \<longleftrightarrow> (\<exists>t. dropped l s t \<and> (\<forall>j. closes j t = closes j s \<or> in_locks (inodes t j) = []) \<and> dropped_all ls t s')"

lemma dropped_empty: "dropped l s s' \<Longrightarrow> in_locks (inodes s j) = [] \<Longrightarrow> in_locks (inodes s' j) = []"
  by (simp add: dropped_def)

lemma dropped_all_empty: "dropped_all ls s s' \<Longrightarrow> in_locks (inodes s j) = [] \<Longrightarrow> in_locks (inodes s' j) = []"
proof (induction ls arbitrary: s)
  case (Cons l ls)
  then obtain t where "dropped l s t" "dropped_all ls t s'" by auto
  then show ?case using Cons.IH dropped_empty Cons.prems(2) by blast
qed simp

lemma dropped_all_spec:
  assumes "wf_flocks s" "dropped_all ls s s'"
  shows "wf_flocks s' \<and> (\<forall>l k. held s' l k \<longleftrightarrow> held s l k \<and> l \<notin> set ls) \<and>
         (\<forall>j. closes j s' = closes j s \<or> in_locks (inodes s' j) = []) \<and>
         (\<forall>i. in_open (inodes s' i) = in_open (inodes s i)) \<and> (\<forall>f. fd_inode (fds s' f) = fd_inode (fds s f))"
  using assms
proof (induction ls arbitrary: s)
  case (Cons l ls)
  obtain t where t: "dropped l s t" "\<forall>j. closes j t = closes j s \<or> in_locks (inodes t j) = []" "dropped_all ls t s'"
    using Cons.prems(2) by auto
  have IH: "wf_flocks s'" "\<forall>l k. held s' l k \<longleftrightarrow> held t l k \<and> l \<notin> set ls"
    "\<forall>j. closes j s' = closes j t \<or> in_locks (inodes s' j) = []"
    "\<forall>i. in_open (inodes s' i) = in_open (inodes t i)" "\<forall>f. fd_inode (fds s' f) = fd_inode (fds t f)"
    using Cons.IH [OF wf_dropped [OF Cons.prems(1) t(1)] t(3)] by auto
  have "closes j s' = closes j s \<or> in_locks (inodes s' j) = []" for j
    using t(2) IH(3) dropped_all_empty [OF t(3)] by metis
  then show ?case using IH t(1) by (auto simp: dropped_def)
qed simp

lemma remove_process_locks_spec:
  assumes "wf_flocks s"
  shows "\<exists>s'. remove_process_locks env p s = Some s' \<and> dropped_all (proc_locks s p) s s'"
  using assms
proof (induction "proc_locks s p" arbitrary: s)
  case Nil
  then show ?case by (subst remove_process_locks.simps) simp
next
  case (Cons l ls)
  have "l \<in> set (proc_locks s p)" using Cons.hyps(2) by (metis list.set_intros(1))
  then obtain k where k: "held s l k" using Cons.prems by (auto simp: wf_flocks_def wf_lists_def)
  obtain t where t: "remove_lock env l True s = Some t" "dropped l s t"
      "\<forall>j. closes j t = closes j s \<or> in_locks (inodes t j) = []"
    using remove_lock_spec [OF Cons.prems k] by blast
  have "proc_locks t p = remove1 l (proc_locks s p)" using t(2) by (simp add: dropped_def)
  then have "ls = proc_locks t p" using Cons.hyps(2) by (metis remove1.simps(2))
  then obtain s' where "remove_process_locks env p t = Some s'" "dropped_all ls t s'"
    using Cons.hyps(1) [of t] wf_dropped [OF Cons.prems t(2)] by auto
  then show ?case using t Cons.hyps(2) by (subst remove_process_locks.simps) (auto simp flip: Cons.hyps(2))
qed

lemma remove_fd_loop_spec:
  assumes "wf_flocks s"
  shows "\<exists>s' a b. remove_fd_loop env f start end s = Some (s', a, b) \<and> dropped_all (fd_locks (fds s f)) s s'"
  using assms
proof (induction "fd_locks (fds s f)" arbitrary: s start "end")
  case Nil
  then show ?case by (subst remove_fd_loop.simps) simp
next
  case (Cons l ls)
  have "l \<in> set (fd_locks (fds s f))" using Cons.hyps(2) by (metis list.set_intros(1))
  then obtain k where k: "held s l k" using Cons.prems by (auto simp: wf_flocks_def wf_lists_def)
  obtain t where t: "remove_lock env l False s = Some t" "dropped l s t"
      "\<forall>j. closes j t = closes j s \<or> in_locks (inodes t j) = []"
    using remove_lock_spec [OF Cons.prems k] by blast
  have "fd_locks (fds t f) = remove1 l (fd_locks (fds s f))" using t(2) by (simp add: dropped_def)
  then have "ls = fd_locks (fds t f)" using Cons.hyps(2) by (metis remove1.simps(2))
  note IH = Cons.hyps(1) [OF this wf_dropped [OF Cons.prems t(2)]]
  obtain s' a b where "remove_fd_loop env f (if fl_start k < start then fl_start k else start)
      (if fl_end k = 0 \<or> fl_end k > end then fl_end k - 1 else end) t = Some (s', a, b)" "dropped_all ls t s'"
    using IH [of "if fl_start k < start then fl_start k else start" "if fl_end k = 0 \<or> fl_end k > end then fl_end k - 1 else end"]
      \<open>ls = fd_locks (fds t f)\<close> by auto
  moreover have "flocks s l = Some k" using k by (simp add: held_def)
  ultimately show ?case using t
    by (subst remove_fd_loop.simps) (auto simp flip: Cons.hyps(2) simp del: if_split)
qed

lemma word_succ_le: "b + 1 = 0 \<or> b \<le> (b + 1 :: u64)"
proof (cases "unat b + 1 < 2 ^ 64")
  case True
  then show ?thesis by (simp add: word_le_nat_alt unat_word_ariths(1))
next
  case False
  moreover have "unat b < 2 ^ 64" using unsigned_less [where ?'a = nat and w = b] by simp
  ultimately have "unat b + 1 = 2 ^ 64" by simp
  then show ?thesis by (simp only: word_unat_eq_iff unat_word_ariths(1)) simp
qed

lemma remove_fd_locks_spec:
  assumes "wf_flocks s"
  shows "\<exists>s'. remove_fd_locks env f s = Some s' \<and> wf_flocks s' \<and> (\<forall>l k. held s' l k \<longleftrightarrow> held s l k \<and> fl_fd k \<noteq> f) \<and>
         (\<forall>j. closes j s' = closes j s \<or> in_locks (inodes s' j) = []) \<and>
         (\<forall>i. in_open (inodes s' i) = in_open (inodes s i)) \<and> (\<forall>f. fd_inode (fds s' f) = fd_inode (fds s f))"
proof -
  obtain t a b where t: "remove_fd_loop env f FILE_POS_T_MAX 0 s = Some (t, a, b)" "dropped_all (fd_locks (fds s f)) s t"
    using remove_fd_loop_spec [OF assms] by blast
  note d = dropped_all_spec [OF assms t(2)]
  note fl = held_lists(2) [OF assms, where f = f]
  obtain s' where s': "(if a < b then remove_unix_locks env f a (b + 1) t else Some t) = Some s'" "\<And>j. frame j t s'"
  proof (cases "a < b \<and> fd_inode (fds t f) \<noteq> None")
    case True
    then obtain i where "fd_inode (fds t f) = Some i" by auto
    moreover have "a \<le> b" using True by (simp add: less_imp_le)
    then have "b + 1 = 0 \<or> a \<le> b + 1" using word_succ_le [of b] order_trans [of a b "b + 1"] by blast
    moreover have "inode_locks_ok i t" using wf_inode_locks_ok d by blast
    ultimately obtain u where "remove_unix_locks env f a (b + 1) t = Some u" "\<forall>j. frame j t u"
      using remove_unix_locks_frame by blast
    then show thesis using that [of u] True by simp
  next
    case False
    then show thesis using that [of t] by (auto simp: remove_unix_locks_def split: option.splits)
  qed
  have v: "lists_view s' = lists_view t" using s'(2) [of 0] by (intro lists_view) (simp add: frame_def)
  note e = lists_view_eqD [OF v]
  have "closes j s' = closes j t" for j using s'(2) [of j] by (simp add: frame_def)
  moreover have "remove_fd_locks env f s = Some s'" using t(1) s'(1) by (simp add: remove_fd_locks_def)
  ultimately show ?thesis using d fl wf_flocks_frame [OF s'(2)] by (intro exI [of _ s']) (auto simp: e)
qed


section \<open>Locking and unlocking\<close>

lemma find_exact_spec:
  "(\<forall>l\<in>set ls. \<exists>k. flocks s l = Some k) \<Longrightarrow>
   \<exists>r. find_exact s start end ls = Some r \<and> (case r of
     None \<Rightarrow> (\<forall>l\<in>set ls. \<forall>k. flocks s l = Some k \<longrightarrow> \<not> (fl_start k = start \<and> fl_end k = end))
   | Some l \<Rightarrow> l \<in> set ls \<and> (\<exists>k. flocks s l = Some k \<and> fl_start k = start \<and> fl_end k = end))"
proof (induction ls)
  case (Cons l ls)
  then obtain k where k: "flocks s l = Some k" by auto
  obtain r where "find_exact s start end ls = Some r" "case r of
     None \<Rightarrow> (\<forall>l\<in>set ls. \<forall>k. flocks s l = Some k \<longrightarrow> \<not> (fl_start k = start \<and> fl_end k = end))
   | Some l \<Rightarrow> l \<in> set ls \<and> (\<exists>k. flocks s l = Some k \<and> fl_start k = start \<and> fl_end k = end)"
    using Cons by auto
  then show ?case using k by (cases "fl_start k = start \<and> fl_end k = end") (auto split: option.splits)
qed simp

lemma unlock_fd_spec:
  assumes "wf_flocks s"
  shows "(\<exists>s' l k. unlock_fd env f start count s = Some (s', STATUS_SUCCESS) \<and> held s l k \<and> fl_fd k = f \<and>
            fl_start k = start \<and> fl_end k = start + count \<and> dropped l s s' \<and>
            (\<forall>j. closes j s' = closes j s \<or> in_locks (inodes s' j) = [])) \<or>
         unlock_fd env f start count s = Some (s, STATUS_RANGE_NOT_LOCKED) \<and>
           (\<forall>l k. held s l k \<and> fl_fd k = f \<longrightarrow> \<not> (fl_start k = start \<and> fl_end k = start + count))"
proof -
  have sets: "set (fd_locks (fds s f)) = {l. \<exists>k. held s l k \<and> fl_fd k = f}" using assms by (simp add: wf_flocks_def wf_lists_def)
  have "\<forall>l\<in>set (fd_locks (fds s f)). \<exists>k. flocks s l = Some k" unfolding sets by (auto simp: held_def)
  then obtain r where r: "find_exact s start (start + count) (fd_locks (fds s f)) = Some r"
      "case r of None \<Rightarrow> (\<forall>l\<in>set (fd_locks (fds s f)). \<forall>k. flocks s l = Some k \<longrightarrow> \<not> (fl_start k = start \<and> fl_end k = start + count))
       | Some l \<Rightarrow> l \<in> set (fd_locks (fds s f)) \<and> (\<exists>k. flocks s l = Some k \<and> fl_start k = start \<and> fl_end k = start + count)"
    using find_exact_spec by meson
  show ?thesis
  proof (cases r)
    case None
    then show ?thesis using r unfolding sets by (auto simp: unlock_fd_def held_def)
  next
    case (Some l)
    then obtain k where k: "held s l k" "fl_fd k = f" "fl_start k = start" "fl_end k = start + count"
      using r(2) unfolding sets by (auto simp: held_def)
    then show ?thesis using remove_lock_spec [OF assms k(1), of env True] r(1) Some by (fastforce simp: unlock_fd_def)
  qed
qed

lemma find_conflict_spec:
  "(\<forall>l\<in>set ls. \<exists>k. flocks s l = Some k) \<Longrightarrow>
   \<exists>r. find_conflict s f start end shared ls = Some r \<and> (case r of
     None \<Rightarrow> (\<forall>l\<in>set ls. \<forall>k. flocks s l = Some k \<longrightarrow> lock_overlaps k start end \<longrightarrow> shared \<and> (fl_shared k \<or> fl_fd k = f))
   | Some l \<Rightarrow> l \<in> set ls \<and> (\<exists>k. flocks s l = Some k \<and> lock_overlaps k start end \<and> \<not> (shared \<and> (fl_shared k \<or> fl_fd k = f))))"
proof (induction ls)
  case (Cons l ls)
  then obtain k where k: "flocks s l = Some k" by auto
  obtain r where "find_conflict s f start end shared ls = Some r" "case r of
     None \<Rightarrow> (\<forall>l\<in>set ls. \<forall>k. flocks s l = Some k \<longrightarrow> lock_overlaps k start end \<longrightarrow> shared \<and> (fl_shared k \<or> fl_fd k = f))
   | Some l \<Rightarrow> l \<in> set ls \<and> (\<exists>k. flocks s l = Some k \<and> lock_overlaps k start end \<and> \<not> (shared \<and> (fl_shared k \<or> fl_fd k = f)))"
    using Cons by auto
  then show ?case using k
    by (cases "lock_overlaps k start end \<and> \<not> (shared \<and> (fl_shared k \<or> fl_fd k = f))") (auto split: option.splits)
qed simp

text \<open>A state with one more lock.\<close>

definition added :: "nat \<Rightarrow> file_lock \<Rightarrow> nat \<Rightarrow> fdstate \<Rightarrow> fdstate \<Rightarrow> bool" where
  "added l k i s s' \<longleftrightarrow>
     flocks s' = (flocks s)(l \<mapsto> k) \<and>
     (\<forall>j. in_locks (inodes s' j) = in_locks (inodes s j) @ (if j = i then [l] else []) \<and>
          in_open (inodes s' j) = in_open (inodes s j) \<and> in_refs (inodes s' j) = in_refs (inodes s j)) \<and>
     (\<forall>f. fd_locks (fds s' f) = fd_locks (fds s f) @ (if f = fl_fd k then [l] else []) \<and> fd_inode (fds s' f) = fd_inode (fds s f)) \<and>
     (\<forall>p. proc_locks s' p = proc_locks s p @ (if fl_process k = Some p then [l] else [])) \<and> max_ok s'"

lemma compatible_sym: "compatible k k' \<longleftrightarrow> compatible k' k"
  by (auto simp: compatible_def lock_overlaps_def)

lemma wf_added:
  assumes wf: "wf_flocks s" and "flocks s l = None" and a: "added l k i s s'" and p: "fl_process k = Some p"
    and i: "lock_inode s k = Some i" "fl_fd k \<in> set (in_open (inodes s i))" and "0 < fl_refs k" "range_ok k"
    and c: "\<forall>l k'. held s l k' \<and> lock_inode s k' = Some i \<longrightarrow> compatible k k'"
  shows "wf_flocks s'"
proof -
  have h: "held s' l' k' \<longleftrightarrow> held s l' k' \<or> l' = l \<and> k' = k" for l' k'
    using a assms(2) p by (auto simp: held_def added_def)
  have nl: "\<not> held s l k'" for k' using assms(2) by (simp add: held_def)
  have d: "\<And>j. in_locks (inodes s' j) = in_locks (inodes s j) @ (if j = i then [l] else [])"
    "\<And>j. in_open (inodes s' j) = in_open (inodes s j)" "\<And>j. in_refs (inodes s' j) = in_refs (inodes s j)"
    "\<And>f. fd_locks (fds s' f) = fd_locks (fds s f) @ (if f = fl_fd k then [l] else [])"
    "\<And>f. fd_inode (fds s' f) = fd_inode (fds s f)"
    "\<And>p. proc_locks s' p = proc_locks s p @ (if fl_process k = Some p then [l] else [])" "max_ok s'"
    using a by (auto simp: added_def)
  have "wf_lists s'"
    using wf nl i(1) unfolding wf_flocks_def wf_lists_def d h by auto
  moreover have "wf_held s'"
    using wf assms(7,8) i c compatible_sym unfolding wf_flocks_def wf_held_def d h by metis
  moreover have "wf_open s'" using wf unfolding wf_flocks_def wf_open_def d by blast
  ultimately show ?thesis using d(7) by (simp add: wf_flocks_def)
qed

lemma add_lock_spec:
  assumes "fd_inode (fds s f) = Some i" "max_ok s"
  shows "(\<exists>s' st. add_lock env p q f shared start end s = Some (s', Some st) \<and> (\<forall>j. frame j s s')) \<or>
         (\<exists>s' l. add_lock env p q f shared start end s = Some (s', None) \<and> p = Some l \<and> (\<forall>j. closes j s' = closes j s) \<and>
           added l \<lparr>fl_fd = f, fl_shared = shared, fl_start = start, fl_end = end, fl_process = Some q, fl_signaled = False, fl_refs = 1\<rparr> i s s')"
proof (cases "p = None \<or> \<not> sync_ok env")
  case False
  then obtain l where l: "p = Some l" "sync_ok env" by auto
  obtain t r where t: "set_unix_lock env f start end (if shared then F_RDLCK else F_WRLCK) s = (t, r)" by fastforce
  have fr: "frame j s t" for j using set_unix_lock_frame [of j s env f start "end" "if shared then F_RDLCK else F_WRLCK"] t by simp
  then have v: "lock_view t = lock_view s" "max_ok t" using assms(2) by (auto simp: frame_def)
  note e = lock_view_eqD [OF v(1)]
  show ?thesis
  proof (cases r)
    case None
    then show ?thesis using l t fr assms v(2)
      by (auto simp: add_lock_def Let_def e added_def upd_fd_def upd_inode_def frame_def closes_def max_ok_def)
  next
    case (Some st)
    then show ?thesis using l t fr by (auto simp: add_lock_def)
  qed
qed (auto simp: add_lock_def split: option.split)


text \<open>
  \<open>lock_fd\<close> on every branch, for a descriptor that is open: an error and no change of the locks, a
  handle on a conflicting lock, or a new lock that is compatible with all locks of the file.
\<close>

lemma compatible_new:
  assumes "lock_overlaps k start end \<longrightarrow> shared \<and> (fl_shared k \<or> fl_fd k = f)"
  shows "compatible \<lparr>fl_fd = f, fl_shared = shared, fl_start = start, fl_end = end, fl_process = q, fl_signaled = b, fl_refs = r\<rparr> k"
  using assms compatible_sym by (auto simp: compatible_def lock_overlaps_def)

definition more_refs :: "nat \<Rightarrow> fdstate \<Rightarrow> fdstate \<Rightarrow> bool" where
  "more_refs l s s' \<longleftrightarrow> (\<exists>k. flocks s l = Some k \<and> s' = s\<lparr>flocks := (flocks s)(l \<mapsto> k\<lparr>fl_refs := fl_refs k + 1\<rparr>)\<rparr>)"

lemma held_refs:
  assumes "flocks s l = Some k" "s' = s\<lparr>flocks := (flocks s)(l \<mapsto> k\<lparr>fl_refs := r\<rparr>)\<rparr>"
  shows "held s' l' k' \<longleftrightarrow> (if l' = l then fl_process k \<noteq> None \<and> k' = k\<lparr>fl_refs := r\<rparr> else held s l' k')"
  using assms by (auto simp: held_def)

lemma wf_refs:
  assumes wf: "wf_flocks s" and k: "flocks s l = Some k" and s': "s' = s\<lparr>flocks := (flocks s)(l \<mapsto> k\<lparr>fl_refs := r\<rparr>)\<rparr>"
    and r: "0 < r"
  shows "wf_flocks s'"
proof -
  note h = held_refs [OF k s']
  have e: "inodes s' = inodes s" "fds s' = fds s" "proc_locks s' = proc_locks s" "max_ok s' = max_ok s"
    by (simp_all add: s' max_ok_def)
  have ex: "(\<exists>k. held s' l' k \<and> P (fl_fd k) (fl_process k)) \<longleftrightarrow> (\<exists>k. held s l' k \<and> P (fl_fd k) (fl_process k))" for l' P
    unfolding h using k by (cases "l' = l") (auto simp: held_def)
  have wl: "wf_lists s'"
    using wf unfolding wf_flocks_def wf_lists_def e
    by (simp only: ex [of _ "\<lambda>f p. fd_inode (fds s f) = Some _"] ex [of _ "\<lambda>f p. f = _"] ex [of _ "\<lambda>f p. p = Some _"]) simp
  have old: "\<exists>k''. held s l' k'' \<and> fl_fd k'' = fl_fd k' \<and> fl_start k'' = fl_start k' \<and> fl_end k'' = fl_end k' \<and>
      fl_shared k'' = fl_shared k' \<and> (0 < fl_refs k'' \<longrightarrow> 0 < fl_refs k')" if "held s' l' k'" for l' k'
    using that k r unfolding h by (auto simp: held_def split: if_splits)
  have w: "wf_held s" using wf by (simp add: wf_flocks_def)
  have "0 < fl_refs k' \<and> range_ok k' \<and> (\<exists>i. lock_inode s k' = Some i \<and> fl_fd k' \<in> set (in_open (inodes s i)))" if hk: "held s' l' k'" for l' k'
  proof -
    obtain k'' where o: "held s l' k''" "fl_fd k'' = fl_fd k'" "fl_start k'' = fl_start k'" "fl_end k'' = fl_end k'"
      "fl_shared k'' = fl_shared k'" "0 < fl_refs k'' \<longrightarrow> 0 < fl_refs k'" using old [OF hk] by (elim exE conjE)
    have "0 < fl_refs k'' \<and> range_ok k'' \<and> (\<exists>i. lock_inode s k'' = Some i \<and> fl_fd k'' \<in> set (in_open (inodes s i)))"
      using w o(1) unfolding wf_held_def by blast
    then show ?thesis using o(2-6) by (simp add: range_ok_def)
  qed
  moreover have "compatible k1 k2" if c: "held s' l1 k1" "held s' l2 k2" "l1 \<noteq> l2" "lock_inode s k1 = lock_inode s k2" for l1 l2 k1 k2
  proof -
    obtain k1' where o1: "held s l1 k1'" "fl_fd k1' = fl_fd k1" "fl_start k1' = fl_start k1" "fl_end k1' = fl_end k1" "fl_shared k1' = fl_shared k1"
        "0 < fl_refs k1' \<longrightarrow> 0 < fl_refs k1"
      using old [OF c(1)] by (elim exE conjE)
    obtain k2' where o2: "held s l2 k2'" "fl_fd k2' = fl_fd k2" "fl_start k2' = fl_start k2" "fl_end k2' = fl_end k2" "fl_shared k2' = fl_shared k2"
        "0 < fl_refs k2' \<longrightarrow> 0 < fl_refs k2"
      using old [OF c(2)] by (elim exE conjE)
    have "lock_inode s k1' = lock_inode s k2'" using c(4) o1(2) o2(2) by simp
    then have "compatible k1' k2'" using w o1(1) o2(1) c(3) unfolding wf_held_def by blast
    then show ?thesis using o1(2-5) o2(2-5) by (simp add: compatible_def lock_overlaps_def)
  qed
  ultimately have "wf_held s'" unfolding wf_held_def e by blast
  moreover have "wf_open s'" using wf unfolding wf_flocks_def wf_open_def e by blast
  ultimately show ?thesis using wf wl by (simp add: wf_flocks_def e)
qed

lemma lock_fd_spec:
  assumes wf: "wf_flocks s" and fr: "\<forall>l. p = Some l \<longrightarrow> flocks s l = None"
    and op: "\<forall>i. fd_inode (fds s f) = Some i \<longrightarrow> f \<in> set (in_open (inodes s i))"
  shows "\<exists>s' h st. lock_fd env p q f start count shared wait s = Some (s', h, st) \<and> wf_flocks s' \<and> (\<forall>j. closes j s' = closes j s) \<and>
           ((\<forall>j. frame j s s') \<or> (\<exists>l. more_refs l s s') \<or>
            (\<exists>l k i. st = STATUS_SUCCESS \<and> added l k i s s' \<and> fl_fd k = f \<and> fl_start k = start \<and> fl_end k = start + count \<and>
                   fl_shared k = shared \<and> fl_process k = Some q))"
proof (cases "fd_inode (fds s f) = None \<or> start + count \<noteq> 0 \<and> start + count < start")
  case True
  then show ?thesis using wf by (auto simp: lock_fd_def Let_def split: option.split)
next
  case False
  then obtain i where i: "fd_inode (fds s f) = Some i" and range: "\<not> (start + count \<noteq> 0 \<and> start + count < start)" by auto
  let ?e = "start + count"
  have sets: "set (in_locks (inodes s i)) = {l. \<exists>k. held s l k \<and> lock_inode s k = Some i}"
    using wf by (simp add: wf_flocks_def wf_lists_def)
  then have all: "\<forall>l\<in>set (in_locks (inodes s i)). \<exists>k. flocks s l = Some k" by (auto simp: held_def)
  obtain r where r: "find_conflict s f start ?e shared (in_locks (inodes s i)) = Some r"
      "case r of None \<Rightarrow> (\<forall>l\<in>set (in_locks (inodes s i)). \<forall>k. flocks s l = Some k \<longrightarrow> lock_overlaps k start ?e \<longrightarrow> shared \<and> (fl_shared k \<or> fl_fd k = f))
       | Some l \<Rightarrow> l \<in> set (in_locks (inodes s i))"
    using find_conflict_spec [OF all, of f start ?e shared] by (auto split: option.splits)
  have eq: "lock_fd env p q f start count shared wait s = (case r of
       Some l \<Rightarrow> if \<not> wait then Some (s, 0, STATUS_FILE_LOCK_CONFLICT)
         else (case lock_handle env l of Inl st \<Rightarrow> Some (s, 0, st)
               | Inr h \<Rightarrow> do { k \<leftarrow> flocks s l; Some (s\<lparr>flocks := (flocks s)(l \<mapsto> k\<lparr>fl_refs := fl_refs k + 1\<rparr>)\<rparr>, h, STATUS_PENDING) })
     | None \<Rightarrow> do { (s, r) \<leftarrow> add_lock env p q f shared start ?e s;
               Some (s, 0, case r of None \<Rightarrow> STATUS_SUCCESS | Some st \<Rightarrow> if st = STATUS_FILE_LOCK_CONFLICT \<and> wait then STATUS_PENDING else st) })"
    unfolding lock_fd_def Let_def i option.case if_not_P [OF range] r(1) Option.bind.simps ..
  show ?thesis
  proof (cases r)
    case (Some l)
    then obtain k where k: "flocks s l = Some k" using r(2) all by auto
    then show ?thesis using wf wf_refs [OF wf k refl, of "fl_refs k + 1"] Some
      by (auto simp: eq more_refs_def split: sum.split)
  next
    case None
    let ?k = "\<lparr>fl_fd = f, fl_shared = shared, fl_start = start, fl_end = ?e, fl_process = Some q, fl_signaled = False, fl_refs = 1\<rparr>"
    have c: "\<forall>l k'. held s l k' \<and> lock_inode s k' = Some i \<longrightarrow> compatible ?k k'"
    proof (intro allI impI compatible_new, elim conjE)
      fix l k' assume "lock_overlaps k' start ?e" "held s l k'" "lock_inode s k' = Some i"
      then have "l \<in> set (in_locks (inodes s i))" "flocks s l = Some k'" using sets by (auto simp: held_def)
      then show "shared \<and> (fl_shared k' \<or> fl_fd k' = f)" using r(2) None \<open>lock_overlaps k' start ?e\<close> by simp
    qed
    have ro: "range_ok ?k" using range by (auto simp: range_ok_def)
    consider s' st where "add_lock env p q f shared start ?e s = Some (s', Some st)" "\<forall>j. frame j s s'"
      | s' l where "add_lock env p q f shared start ?e s = Some (s', None)" "p = Some l" "\<forall>j. closes j s' = closes j s" "added l ?k i s s'"
      using add_lock_spec [OF i, of env p q shared start ?e] wf by (auto simp: wf_flocks_def)
    then show ?thesis
    proof cases
      case 1
      then show ?thesis using None wf_flocks_frame [OF _ wf] by (auto simp: eq frame_def)
    next
      case 2
      then have "wf_flocks s'" using wf_added [OF wf _ 2(4), of q] fr i op c ro by simp
      moreover have "lock_fd env p q f start count shared wait s = Some (s', 0, STATUS_SUCCESS)" using None 2(1) by (simp add: eq)
      moreover have "\<exists>l k i. added l k i s s' \<and> fl_fd k = f \<and> fl_start k = start \<and> fl_end k = ?e \<and> fl_shared k = shared \<and> fl_process k = Some q"
        using 2(4) by (intro exI [of _ l] exI [of _ ?k] exI [of _ i]) simp
      ultimately show ?thesis using 2(3) by (intro exI [of _ s'] exI [of _ 0] exI [of _ STATUS_SUCCESS]) blast
    qed
  qed
qed


section \<open>Closing a descriptor\<close>

lemma fds_upd_inode [simp]: "fds (upd_inode i g s) = fds s"
  by (simp add: upd_inode_def)

lemma fd_destroy_spec:
  assumes wf: "wf_flocks s" and i: "fd_inode (fds s f) = Some i" "f \<in> set (in_open (inodes s i))"
  shows "\<exists>s'. fd_destroy env f s = Some s' \<and> wf_flocks s' \<and> (\<forall>l k. held s' l k \<longleftrightarrow> held s l k \<and> fl_fd k \<noteq> f) \<and>
         (\<forall>j. closes j s' = closes j s \<or> in_locks (inodes s' j) = []) \<and> f \<notin> set (in_open (inodes s' i)) \<and>
         (\<forall>g. fd_inode (fds s' g) = fd_inode (fds s g))"
proof -
  obtain t where t: "remove_fd_locks env f s = Some t" "wf_flocks t" "\<And>l k. held t l k \<longleftrightarrow> held s l k \<and> fl_fd k \<noteq> f"
      "\<And>j. closes j t = closes j s \<or> in_locks (inodes t j) = []"
      "\<And>i. in_open (inodes t i) = in_open (inodes s i)" "\<And>f. fd_inode (fds t f) = fd_inode (fds s f)"
    using remove_fd_locks_spec [OF wf, of env f] by metis
  define u where "u = inode_add_closed_fd env i (fd_closed (fds t f)) (upd_inode i (in_open_update (remove1 f)) t)"
  define v where "v = upd_inode i (in_refs_update (\<lambda>r. r - 1)) u"
  have o: "distinct (in_open (inodes t j))" "in_refs (inodes t j) = length (in_open (inodes t j))"
    "\<forall>f\<in>set (in_open (inodes t j)). fd_inode (fds t f) = Some j" for j
    using t(2) by (auto simp: wf_flocks_def wf_open_def)
  have fo: "f \<in> set (in_open (inodes t i))" using i t(5) by simp
  have lv: "lists_view u = lists_view (upd_inode i (in_open_update (remove1 f)) t)"
    unfolding u_def by (rule inode_add_closed_frame(1))
  have mu: "max_ok u = max_ok t" unfolding u_def inode_add_closed_frame(2) by (simp add: max_ok_def upd_inode_def)
  have e: "flocks v = flocks t" "proc_locks v = proc_locks t" "\<And>j. in_locks (inodes v j) = in_locks (inodes t j)"
    "\<And>g. fd_inode (fds v g) = fd_inode (fds t g)" "\<And>g. fd_locks (fds v g) = fd_locks (fds t g)" "max_ok v = max_ok t"
    "\<And>j. in_open (inodes v j) = (if j = i then remove1 f (in_open (inodes t j)) else in_open (inodes t j))"
    "\<And>j. in_refs (inodes v j) = (if j = i then in_refs (inodes t j) - 1 else in_refs (inodes t j))"
    using lists_view_eqD [OF lv] mu by (simp_all add: v_def upd_inode_def max_ok_def)
  have h: "held v = held t" by (simp add: held_def fun_eq_iff e)
  have "wf_lists v" using t(2) unfolding wf_flocks_def wf_lists_def h e by simp
  moreover have "wf_held v" using t(2,3) unfolding wf_flocks_def wf_held_def h e by fastforce
  moreover have "wf_open v" using o fo unfolding wf_open_def e by (auto simp: length_remove1 dest: notin_set_remove1)
  ultimately have wv: "wf_flocks v" using t(2) by (simp add: wf_flocks_def e)
  have cv: "closes j v = closes j s \<or> in_locks (inodes v j) = []" for j
  proof -
    have "j \<noteq> i \<or> in_locks (inodes t i) \<noteq> [] \<Longrightarrow> closes j v = closes j t"
      using inode_add_closed_frame(3) [of j i "upd_inode i (in_open_update (remove1 f)) t" env "fd_closed (fds t f)"]
      by (auto simp: v_def u_def upd_inode_def closes_def)
    then show ?thesis using t(4) [of j] e(3) by metis
  qed
  have refs: "in_refs (inodes u i) = length (in_open (inodes t i))" using lists_view_eqD(3) [OF lv, of i] o(2) by (simp add: upd_inode_def)
  have d: "fd_destroy env f s = (if in_refs (inodes v i) = 0 then inode_destroy env i v else Some v)"
  proof -
    have "fd_destroy env f s = release_inode env i u" using t(1,6) i(1) by (simp add: fd_destroy_def u_def Let_def)
    moreover have "in_refs (inodes u i) \<noteq> 0" using refs fo by auto
    ultimately show ?thesis by (simp add: release_inode_def Let_def v_def)
  qed
  have nf: "f \<notin> set (in_open (inodes v i))" using o(1) by (simp add: e)
  show ?thesis
  proof (cases "in_refs (inodes v i) = 0")
    case False
    then show ?thesis using d wv cv nf t(3,6) e(4) by (auto simp: h)
  next
    case True
    then have nil: "in_open (inodes v i) = []" using wv by (simp add: wf_flocks_def wf_open_def)
    have "\<not> (held v l k \<and> lock_inode v k = Some i)" for l k
    proof
      assume k: "held v l k \<and> lock_inode v k = Some i"
      then obtain j where "lock_inode v k = Some j" "fl_fd k \<in> set (in_open (inodes v j))"
        using wv unfolding wf_flocks_def wf_held_def by blast
      then show False using k nil by simp
    qed
    then have "set (in_locks (inodes v i)) = {}" using wv unfolding wf_flocks_def wf_lists_def by simp
    then have w: "fd_destroy env f s = Some (upd_inode i (in_closed_update (\<lambda>_. [])) (destroy_closed env i (in_closed (inodes v i)) v))"
      using d True nil by (simp add: inode_destroy_def Let_def)
    define x where "x = upd_inode i (in_closed_update (\<lambda>_. [])) (destroy_closed env i (in_closed (inodes v i)) v)"
    have lx: "lists_view x = lists_view v" "max_ok x = max_ok v"
      using destroy_closed_frame [of env i "in_closed (inodes v i)" v] by (simp_all add: x_def)
    have "closes j x = closes j v" if "j \<noteq> i" for j
      using destroy_closed_frame [of env i "in_closed (inodes v i)" v j] that by (simp add: x_def)
    then have "closes j x = closes j s \<or> in_locks (inodes x j) = []" for j
      using cv [of j] lists_view_eqD(5) [OF lx(1), of j] \<open>set (in_locks (inodes v i)) = {}\<close> by (cases "j = i") auto
    then show ?thesis using w wf_flocks_view [OF lx(1)] wv lx lists_view_eqD [OF lx(1)] nf t(3,6) e(4)
      unfolding x_def [symmetric] by (auto simp: h)
  qed
qed

end
