(* ===== verification/File_Lock_Props.thy ===== *)
theory File_Lock_Props
  imports File_Lock_Ops
begin

text \<open>
  The file lock operations as a transition system, and the properties of the locks of \<open>server/fd.c\<close>.
\<close>

section \<open>Steps\<close>

text \<open>
  What requests do to the locks: lock and unlock a range of an open descriptor, end a process, close a
  descriptor, and close a handle that a client used to wait on a lock.
\<close>

inductive lock_step :: "fdstate \<Rightarrow> fdstate \<Rightarrow> bool" where
  lock: "\<forall>l. p = Some l \<longrightarrow> flocks s l = None \<Longrightarrow> \<forall>i. fd_inode (fds s f) = Some i \<longrightarrow> f \<in> set (in_open (inodes s i)) \<Longrightarrow>
    lock_fd env p q f start count shared wait s = Some (s', h, st) \<Longrightarrow> lock_step s s'"
| unlock: "unlock_fd env f start count s = Some (s', st) \<Longrightarrow> lock_step s s'"
| exit: "remove_process_locks env q s = Some s' \<Longrightarrow> lock_step s s'"
| destroy: "fd_inode (fds s f) = Some i \<Longrightarrow> f \<in> set (in_open (inodes s i)) \<Longrightarrow> fd_destroy env f s = Some s' \<Longrightarrow> lock_step s s'"
| close_wait: "flocks s l = Some k \<Longrightarrow> fl_process k \<noteq> None \<longrightarrow> 1 < fl_refs k \<Longrightarrow> release_lock l s = Some s' \<Longrightarrow> lock_step s s'"

lemma wf_forget:
  assumes "wf_flocks s" "flocks s l = Some k" "fl_process k = None"
  shows "wf_flocks (s\<lparr>flocks := (flocks s)(l := None)\<rparr>)"
proof -
  let ?s = "s\<lparr>flocks := (flocks s)(l := None)\<rparr>"
  have h: "held ?s = held s" using assms(2,3) by (auto simp: held_def fun_eq_iff)
  have "wf_lists ?s" using assms(1) unfolding wf_flocks_def wf_lists_def h by simp
  moreover have "wf_held ?s" using assms(1) unfolding wf_flocks_def wf_held_def h by simp blast
  ultimately show ?thesis using assms(1) by (simp add: wf_flocks_def wf_open_def max_ok_def)
qed

lemma lock_step_keeps:
  assumes "wf_flocks s" "lock_step s s'"
  shows "wf_flocks s' \<and> (\<forall>j. closes j s' = closes j s \<or> in_locks (inodes s' j) = [])"
  using assms(2)
proof cases
  case (lock p f env q start count shared wait h st)
  then show ?thesis using lock_fd_spec [OF assms(1) lock(1,2), of env q start count shared wait] by auto
next
  case (unlock env f start count st)
  then show ?thesis using unlock_fd_spec [OF assms(1), of env f start count] assms(1) wf_dropped [OF assms(1)] by auto
next
  case (exit env q)
  then show ?thesis using remove_process_locks_spec [OF assms(1), of env q] dropped_all_spec [OF assms(1)] by auto
next
  case (destroy f i env)
  then show ?thesis using fd_destroy_spec [OF assms(1) destroy(1,2), of env] by auto
next
  case (close_wait l k)
  then consider "s' = s\<lparr>flocks := (flocks s)(l := None)\<rparr>" "fl_process k = None"
    | "s' = s\<lparr>flocks := (flocks s)(l \<mapsto> k\<lparr>fl_refs := fl_refs k - 1\<rparr>)\<rparr>" "1 < fl_refs k"
    by (auto simp: release_lock_def split: if_splits)
  then show ?thesis
  proof cases
    case 1
    then show ?thesis using wf_forget [OF assms(1) close_wait(1)] by simp
  next
    case 2
    then show ?thesis using wf_refs [OF assms(1) close_wait(1), of s' "fl_refs k - 1"] by simp
  qed
qed

interpretation fl: transition_invariant lock_step wf_flocks
  by unfold_locales (use lock_step_keeps in blast)

lemma shared_byte_overlaps:
  assumes "b \<in> lock_bytes k" "b \<in> lock_bytes k'"
  shows "lock_overlaps k (fl_start k') (fl_end k')"
  using assms by (auto simp: range_bytes_def lock_overlaps_def split: if_splits)

section \<open>A file with two descriptors\<close>

definition demo_locks :: "(nat \<times> file_lock) list \<Rightarrow> fdstate" where
  "demo_locks ks =
     \<lparr>fds = (\<lambda>f. \<lparr>fd_inode = (if f \<in> {1, 2} then Some 7 else None), fd_unix_fd = int f + 10, fd_fs_locks = True,
                 fd_locks = map fst (filter (\<lambda>(l, k). fl_fd k = f) ks),
                 fd_closed = \<lparr>cf_unix_fd = int f + 10, cf_disp_flags = 0, cf_unix_name = ''file''\<rparr>\<rparr>),
      inodes = (\<lambda>i. if i = 7 then \<lparr>in_refs = 2, in_open = [1, 2], in_locks = map fst ks, in_closed = []\<rparr>
                    else \<lparr>in_refs = 0, in_open = [], in_locks = [], in_closed = []\<rparr>),
      flocks = map_of ks, proc_locks = (\<lambda>p. map fst (filter (\<lambda>(l, k). fl_process k = Some p) ks)),
      max_unix_offset = OFF_T_MAX, host = []\<rparr>"

definition demo_lock :: "nat \<Rightarrow> u64 \<Rightarrow> u64 \<Rightarrow> file_lock" where
  "demo_lock f start end = \<lparr>fl_fd = f, fl_shared = False, fl_start = start, fl_end = end, fl_process = Some 4,
                            fl_signaled = False, fl_refs = 1\<rparr>"

definition demo_fenv :: fenv where
  "demo_fenv = \<lparr>fcntl = \<lambda>_. None, same_file = \<lambda>_ _ _. True, errno_status = \<lambda>_. STATUS_ACCESS_DENIED,
                malloc_holes = True, sync_ok = True, lock_handle = \<lambda>_. Inr 4\<rparr>"

text \<open>Descriptor 1 holds the byte 5, descriptor 2 the bytes from 100 to 199.\<close>

definition demo_s :: fdstate where
  "demo_s = demo_locks [(20, demo_lock 1 5 6), (21, demo_lock 2 100 200)]"

lemma demo_held: "held demo_s l k \<longleftrightarrow> l = 20 \<and> k = demo_lock 1 5 6 \<or> l = 21 \<and> k = demo_lock 2 100 200"
  by (auto simp: held_def demo_s_def demo_locks_def demo_lock_def split: if_splits)

lemma demo_wf: "wf_flocks demo_s"
proof -
  have sets: "{l. \<exists>k. held demo_s l k \<and> P k} = set (map fst (filter (\<lambda>(l, k). P k) [(20, demo_lock 1 5 6), (21, demo_lock 2 100 200)]))" for P
    unfolding demo_held by auto
  have "wf_lists demo_s" unfolding wf_lists_def sets by (simp add: demo_s_def demo_locks_def demo_lock_def)
  moreover have "wf_held demo_s"
    unfolding wf_held_def demo_held
    by (auto simp: demo_s_def demo_locks_def demo_lock_def range_ok_def compatible_def lock_overlaps_def)
  moreover have "wf_open demo_s" by (auto simp: wf_open_def demo_s_def demo_locks_def)
  moreover have "max_ok demo_s" by (simp add: max_ok_def demo_s_def demo_locks_def OFF_T_MAX_def FILE_POS_T_MAX_def)
  ultimately show ?thesis by (simp add: wf_flocks_def)
qed

section \<open>Properties\<close>

text \<open>
  C33.  No conflicting locks are ever granted: in every state that the lock operations reach, the
  lists of locks are consistent, and a byte of a file that is locked through two different
  descriptors is locked by shared locks only.
\<close>

theorem file_locks_exclusive:
  assumes "wf_flocks s" "lock_step\<^sup>*\<^sup>* s s'"
  shows "wf_flocks s' \<and>
         (\<forall>l k l' k' b. held s' l k \<and> held s' l' k' \<and> lock_inode s' k = lock_inode s' k' \<and> fl_fd k \<noteq> fl_fd k' \<and>
            b \<in> lock_bytes k \<and> b \<in> lock_bytes k' \<longrightarrow> fl_shared k \<and> fl_shared k')"
proof -
  have wf: "wf_flocks s'" by (rule fl.reachable [OF assms(2,1)])
  have "fl_shared k \<and> fl_shared k'" if a: "held s' l k" "held s' l' k'" "lock_inode s' k = lock_inode s' k'"
    "fl_fd k \<noteq> fl_fd k'" "b \<in> lock_bytes k" "b \<in> lock_bytes k'" for l k l' k' b
  proof -
    have "l \<noteq> l'" using a(1,2,4) held_unique by blast
    then have "compatible k k'" using wf a(1-3) unfolding wf_flocks_def wf_held_def by blast
    then show ?thesis using shared_byte_overlaps [OF a(5,6)] a(4) by (simp add: compatible_def)
  qed
  then show ?thesis using wf by blast
qed

theorem file_locks_exclusive_witness: "wf_flocks demo_s \<and> lock_step\<^sup>*\<^sup>* demo_s demo_s"
  using file_locks_exclusive [OF demo_wf rtranclp.rtrancl_refl] by blast

text \<open>
  C34.  The lock operations always end, without a failed assertion, a dangling lock or an overflow of
  the buffer for holes, whatever the host answers; after the end of a process or the close of a
  descriptor none of its locks is left.
\<close>

theorem file_lock_ops_total:
  assumes "wf_flocks s"
  shows "(\<exists>s' st. unlock_fd env f start count s = Some (s', st)) \<and>
         ((\<forall>l. p = Some l \<longrightarrow> flocks s l = None) \<and> (\<forall>i. fd_inode (fds s f) = Some i \<longrightarrow> f \<in> set (in_open (inodes s i))) \<longrightarrow>
            (\<exists>s' h st. lock_fd env p q f start count shared wait s = Some (s', h, st))) \<and>
         (\<exists>s'. remove_process_locks env q s = Some s' \<and> proc_locks s' q = [] \<and>
               (\<forall>l k. held s' l k \<longleftrightarrow> held s l k \<and> fl_process k \<noteq> Some q)) \<and>
         (fd_inode (fds s f) = Some i \<and> f \<in> set (in_open (inodes s i)) \<longrightarrow>
            (\<exists>s'. fd_destroy env f s = Some s' \<and> (\<forall>l k. held s' l k \<longleftrightarrow> held s l k \<and> fl_fd k \<noteq> f)))"
proof -
  obtain s' where s': "remove_process_locks env q s = Some s'" "dropped_all (proc_locks s q) s s'"
    using remove_process_locks_spec [OF assms] by blast
  have d: "wf_flocks s'" "\<forall>l k. held s' l k \<longleftrightarrow> held s l k \<and> l \<notin> set (proc_locks s q)"
    using dropped_all_spec [OF assms s'(2)] by blast+
  have sets: "set (proc_locks t r) = {l. \<exists>k. held t l k \<and> fl_process k = Some r}" if "wf_flocks t" for t r
    using that by (simp add: wf_flocks_def wf_lists_def)
  have h: "held s' l k \<longleftrightarrow> held s l k \<and> fl_process k \<noteq> Some q" for l k
    using d(2) held_lists(3) [OF assms, of l k q] by metis
  then have "set (proc_locks s' q) = {}" using sets [OF d(1), of q] by simp
  then have "proc_locks s' q = []" by simp
  moreover have "\<exists>s' st. unlock_fd env f start count s = Some (s', st)"
    using unlock_fd_spec [OF assms, of env f start count] by auto
  moreover have "\<exists>s' h st. lock_fd env p q f start count shared wait s = Some (s', h, st)"
    if "\<forall>l. p = Some l \<longrightarrow> flocks s l = None" "\<forall>i. fd_inode (fds s f) = Some i \<longrightarrow> f \<in> set (in_open (inodes s i))"
    using lock_fd_spec [OF assms that, of env q start count shared wait] by auto
  moreover have "\<exists>s'. fd_destroy env f s = Some s' \<and> (\<forall>l k. held s' l k \<longleftrightarrow> held s l k \<and> fl_fd k \<noteq> f)"
    if "fd_inode (fds s f) = Some i" "f \<in> set (in_open (inodes s i))"
    using fd_destroy_spec [OF assms that, of env] by auto
  ultimately show ?thesis using s'(1) h by blast
qed

theorem file_lock_ops_total_witness:
  "\<exists>s'. fd_destroy demo_fenv 1 demo_s = Some s' \<and> (\<forall>l k. held s' l k \<longleftrightarrow> l = 21 \<and> k = demo_lock 2 100 200)"
proof -
  have "fd_inode (fds demo_s 1) = Some 7" "1 \<in> set (in_open (inodes demo_s 7))" by (simp_all add: demo_s_def demo_locks_def)
  then obtain s' where "fd_destroy demo_fenv 1 demo_s = Some s'" "\<forall>l k. held s' l k \<longleftrightarrow> held demo_s l k \<and> fl_fd k \<noteq> 1"
    using file_lock_ops_total [OF demo_wf, where env = demo_fenv and f = 1 and i = 7] by blast
  moreover have "held demo_s l k \<and> fl_fd k \<noteq> 1 \<longleftrightarrow> l = 21 \<and> k = demo_lock 2 100 200" for l k
    unfolding demo_held by (auto simp: demo_lock_def)
  ultimately show ?thesis by (intro exI [of _ s']) simp
qed


section \<open>Unix locks\<close>

text \<open>The bytes that an unlock call names.\<close>

definition unlocked_by :: "host_call \<Rightarrow> u64 set" where
  "unlocked_by c = (case c of Setlk u F_UNLCK start len \<Rightarrow> {b. start \<le> b \<and> (len = 0 \<or> b < start + len)} | _ \<Rightarrow> {})"

lemma set_unix_lock_ok:
  assumes "\<forall>h. fcntl env h = None" "fd_fs_locks (fds s f)" "start \<noteq> end" "start \<le> max_unix_offset s"
  shows "set_unix_lock env f start end type s =
     (call_host (Setlk (fd_unix_fd (fds s f)) type start (if end = 0 \<or> end > max_unix_offset s then 0 else end - start)) s, None)"
  using assms by (subst set_unix_lock.simps) (simp add: Let_def not_less)

lemma unlock_holes_calls:
  assumes "\<forall>h. fcntl env h = None" "fd_fs_locks (fds s f)" "holes_ok m holes"
    "\<forall>(hs, he)\<in>set holes. hs \<le> max_unix_offset s"
  shows "\<exists>cs. host (unlock_holes env f holes s) = cs @ host s \<and>
           (\<Union>c\<in>set cs. unlocked_by c) \<inter> {..max_unix_offset s} = hole_bytes holes \<inter> {..max_unix_offset s}"
  using assms(2-4)
proof (induction holes arbitrary: s m)
  case (Cons h holes)
  obtain hs he where h: "h = (hs, he)" by fastforce
  have lt: "hs < he" and m: "hs \<le> max_unix_offset s" using Cons.prems h by auto
  define len where "len = (if he = 0 \<or> he > max_unix_offset s then 0 else he - hs)"
  define t where "t = call_host (Setlk (fd_unix_fd (fds s f)) F_UNLCK hs len) s"
  have t: "fst (set_unix_lock env f hs he F_UNLCK s) = t"
    using set_unix_lock_ok [OF assms(1) Cons.prems(1), of hs he F_UNLCK] lt m by (simp add: t_def len_def)
  have te: "fd_fs_locks (fds t f)" "max_unix_offset t = max_unix_offset s" "host t = Setlk (fd_unix_fd (fds s f)) F_UNLCK hs len # host s"
    using Cons.prems(1) by (simp_all add: t_def call_host_def)
  obtain cs where cs: "host (unlock_holes env f holes t) = cs @ host t"
      "(\<Union>c\<in>set cs. unlocked_by c) \<inter> {..max_unix_offset s} = hole_bytes holes \<inter> {..max_unix_offset s}"
    using Cons.IH [of t he] Cons.prems h te by auto
  have "he \<noteq> 0" using lt by auto
  then have "unlocked_by (Setlk (fd_unix_fd (fds s f)) F_UNLCK hs len) \<inter> {..max_unix_offset s} = {hs..<he} \<inter> {..max_unix_offset s}"
    using lt by (auto simp: unlocked_by_def len_def)
  then show ?case using cs te(3) h t
    by (intro exI [of _ "cs @ [Setlk (fd_unix_fd (fds s f)) F_UNLCK hs len]"]) (auto simp: Int_Un_distrib2)
qed simp

text \<open>
  C35.  When a range is unlocked, \<open>remove_unix_locks\<close> releases, up to the largest offset, exactly the
  bytes of the range that no lock of the file covers any more.
\<close>

theorem remove_unix_locks_exact:
  assumes "wf_flocks s" "fd_inode (fds s f) = Some i" "fd_fs_locks (fds s f)" "end = 0 \<or> start \<le> end"
    "malloc_holes env" "\<forall>h. fcntl env h = None"
  shows "\<exists>s' cs. remove_unix_locks env f start end s = Some s' \<and> host s' = cs @ host s \<and>
           (\<Union>c\<in>set cs. unlocked_by c) \<inter> {..max_unix_offset s} = (range_bytes start end - locked_bytes i s) \<inter> {..max_unix_offset s}"
proof (cases "start \<noteq> end \<and> start \<le> max_unix_offset s")
  case True
  obtain holes where h: "remove_unix_locks env f start end s = Some (unlock_holes env f holes s)" "holes_ok 0 holes"
      "hole_bytes holes = {start..<cut_end s end} - locked_bytes i s"
    using remove_unix_locks_holes [OF wf_inode_locks_ok [OF assms(1)] assms(2,3) _ _ assms(4,5)] True by blast
  have m1: "b < max_unix_offset s + 1 \<longleftrightarrow> b \<le> max_unix_offset s" for b
    using assms(1) by (simp add: wf_flocks_def max_ok_succ)
  have le: "cut_end s end \<le> max_unix_offset s + 1" 
    using m1 [of "end"] by (auto simp: cut_end_def not_less less_imp_le)
  have "hs \<le> max_unix_offset s" if "(hs, he) \<in> set holes" for hs he
  proof -
    have "hs < he" by (rule holes_ok_mem [OF h(2) that])
    then have "hs \<in> hole_bytes holes" using that by (auto simp: hole_bytes_def)
    then have "hs < cut_end s end" using h(3) by simp
    then show ?thesis using less_le_trans [OF _ le] m1 [of hs] by blast
  qed
  then obtain cs where "host (unlock_holes env f holes s) = cs @ host s"
      "(\<Union>c\<in>set cs. unlocked_by c) \<inter> {..max_unix_offset s} = hole_bytes holes \<inter> {..max_unix_offset s}"
    using unlock_holes_calls [OF assms(6,3) h(2)] by blast
  moreover have "hole_bytes holes \<inter> {..max_unix_offset s} = (range_bytes start end - locked_bytes i s) \<inter> {..max_unix_offset s}"
    unfolding h(3) using True by (auto simp: range_bytes_def cut_end_def m1 split: if_splits)
  ultimately show ?thesis using h(1) by auto
next
  case False
  then have "remove_unix_locks env f start end s = Some s" using assms(2,3) by (auto simp: remove_unix_locks_def)
  moreover have "range_bytes start end \<inter> {..max_unix_offset s} = {}" using False by (auto simp: range_bytes_def)
  ultimately show ?thesis by (intro exI [of _ s] exI [of _ "[]"]) auto
qed


theorem remove_unix_locks_exact_witness:
  "\<exists>s' cs. remove_unix_locks demo_fenv 2 0 150 demo_s = Some s' \<and> host s' = cs \<and>
     7 \<in> (\<Union>c\<in>set cs. unlocked_by c) \<and> 5 \<notin> (\<Union>c\<in>set cs. unlocked_by c) \<and> 120 \<notin> (\<Union>c\<in>set cs. unlocked_by c)"
proof -
  have s: "fd_inode (fds demo_s 2) = Some 7" "fd_fs_locks (fds demo_s 2)" "host demo_s = []" "max_unix_offset demo_s = OFF_T_MAX"
    "locked_bytes 7 demo_s = range_bytes 5 6 \<union> range_bytes 100 200"
    by (auto simp: demo_s_def demo_locks_def locked_bytes_def demo_lock_def)
  obtain s' cs where c: "remove_unix_locks demo_fenv 2 0 150 demo_s = Some s'" "host s' = cs"
      "(\<Union>c\<in>set cs. unlocked_by c) \<inter> {..OFF_T_MAX} = (range_bytes 0 150 - (range_bytes 5 6 \<union> range_bytes 100 200)) \<inter> {..OFF_T_MAX}"
    using remove_unix_locks_exact [OF demo_wf s(1,2), of 150 0 demo_fenv] s(3-5) by (auto simp: demo_fenv_def)
  have "b \<in> (\<Union>c\<in>set cs. unlocked_by c) \<longleftrightarrow> b \<in> range_bytes 0 150 - (range_bytes 5 6 \<union> range_bytes 100 200)" if "b \<le> OFF_T_MAX" for b
    using c(3) that by blast
  from this [of 7] this [of 5] this [of 120]
  show ?thesis using c(1,2) by (auto simp: range_bytes_def OFF_T_MAX_def)
qed

text \<open>
  C36.  Closing any descriptor of a file would drop all Unix locks of the server on it.  A step closes
  descriptors of an inode only if the inode has no locks after it; while a lock remains, the
  descriptors that were closed by clients stay open.
\<close>

theorem no_close_while_locked:
  assumes "wf_flocks s" "lock_step s s'" "in_locks (inodes s' i) \<noteq> []"
  shows "closes i s' = closes i s"
  using lock_step_keeps [OF assms(1,2)] assms(3) by blast

theorem no_close_while_locked_witness:
  "\<exists>s'. fd_destroy demo_fenv 1 demo_s = Some s' \<and> in_locks (inodes s' 7) \<noteq> [] \<and> closes 7 s' = []"
proof -
  have f: "fd_inode (fds demo_s 1) = Some 7" "1 \<in> set (in_open (inodes demo_s 7))" by (simp_all add: demo_s_def demo_locks_def)
  then obtain s' where s': "fd_destroy demo_fenv 1 demo_s = Some s'" "wf_flocks s'" "\<forall>l k. held s' l k \<longleftrightarrow> held demo_s l k \<and> fl_fd k \<noteq> 1"
      "\<forall>g. fd_inode (fds s' g) = fd_inode (fds demo_s g)"
    using fd_destroy_spec [OF demo_wf f, of demo_fenv] by blast
  have st: "lock_step demo_s s'" by (rule lock_step.destroy [OF f s'(1)])
  have h: "held s' 21 (demo_lock 2 100 200)" using s'(3) demo_held by (simp add: demo_lock_def)
  have "lock_inode s' (demo_lock 2 100 200) = Some 7" unfolding s'(4) [rule_format] by (simp add: demo_lock_def demo_s_def demo_locks_def)
  then have "in_locks (inodes s' 7) \<noteq> []" using held_lists(1) [OF s'(2) h, of 7] by auto
  then show ?thesis using no_close_while_locked [OF demo_wf st] s'(1) by (auto simp: closes_def demo_s_def demo_locks_def)
qed


section \<open>A lock that stays\<close>

text \<open>The calls that set or release Unix locks.\<close>

definition setlks :: "fdstate \<Rightarrow> host_call list" where
  "setlks s = filter (\<lambda>c. \<exists>u t a b. c = Setlk u t a b) (host s)"

lemma setlks_close_unix [simp]: "setlks (close_unix i u s) = setlks s"
  by (simp add: setlks_def close_unix_def call_host_def)





end
