(* ===== verification/Sync.thy ===== *)
theory Sync
  imports Wine_Prelude "HOL-Library.Monad_Syntax"
begin

text \<open>
  Waiting and synchronization objects: definitions.  \<open>server/thread.c\<close> (waits and wake-ups),
  \<open>server/event.c\<close>, \<open>server/semaphore.c\<close> and \<open>server/mutex.c\<close>, for a server without an in-process
  synchronization device, so that all synchronization objects live in the server.

  Threads, waits, objects and synchronization objects are numbers.  An event, semaphore or mutex is an
  object that points to its synchronization object; a wait refers to objects and is queued on their
  synchronization objects, by entries \<open>(wait, index)\<close>.  The waits of a thread are a list, the current
  one first.  \<open>None\<close> means that an assertion fails or that freed memory is used.  The write that
  wakes up a client succeeds.
\<close>

section \<open>State\<close>

text \<open>
  An event is manual-reset or not and signaled or not; a semaphore has a count and a maximum; a mutex
  has an owner, a recursion count and a mark that it was abandoned.
\<close>

datatype sync_body =
    Event_sync bool bool
  | Semaphore_sync u32 u32
  | Mutex_sync "nat option" u32 bool

record sync_rec =
  sy_refs :: nat
  sy_queue :: "(nat \<times> nat) list"
  sy_body :: sync_body

record obj_rec =
  ob_refs :: nat
  ob_sync :: nat

datatype select_opcode = SELECT_NONE | SELECT_WAIT | SELECT_WAIT_ALL | SELECT_SIGNAL_AND_WAIT

record thread_wait =
  w_thread :: nat
  w_flags :: u32
  w_abandoned :: bool
  w_select :: select_opcode
  w_cookie :: u64
  w_when :: int
  w_user :: bool
  w_status :: u32
  w_objs :: "nat list"

record context_rec =
  cx_cooperative :: bool
  cx_native_flags :: u32
  cx_wow_flags :: u32

record thread_rec =
  t_waits :: "nat list"
  t_mutex_list :: "nat list"
  t_suspend :: nat
  t_bypass_proc_suspend :: bool
  t_process :: nat
  t_system_apc :: "nat list"
  t_user_apc :: "nat list"
  t_context :: "context_rec option"
  t_suspend_cookie :: u64

record sync_state =
  y_syncs :: "nat \<Rightarrow> sync_rec option"
  y_objs :: "nat \<Rightarrow> obj_rec option"
  y_waits :: "nat \<Rightarrow> thread_wait option"
  y_threads :: "nat \<Rightarrow> thread_rec"
  y_proc_suspend :: "nat \<Rightarrow> nat"
  y_current_time :: int
  y_monotonic_time :: int
  y_replies :: "(nat \<times> u64 \<times> u32) list"

abbreviation SELECT_ALERTABLE :: u32 where "SELECT_ALERTABLE \<equiv> 1"
abbreviation SELECT_INTERRUPTIBLE :: u32 where "SELECT_INTERRUPTIBLE \<equiv> 2"
abbreviation SELECT_COOPERATIVE_SUSPEND :: u32 where "SELECT_COOPERATIVE_SUSPEND \<equiv> 4"
abbreviation EVENT_MODIFY_STATE :: u32 where "EVENT_MODIFY_STATE \<equiv> 2"
abbreviation SEMAPHORE_MODIFY_STATE :: u32 where "SEMAPHORE_MODIFY_STATE \<equiv> 2"
abbreviation SYNCHRONIZE :: u32 where "SYNCHRONIZE \<equiv> 0x100000"

definition MAXIMUM_WAIT_OBJECTS :: nat where "MAXIMUM_WAIT_OBJECTS = 64"
definition TIMEOUT_INFINITE :: int where "TIMEOUT_INFINITE = 0x7fffffffffffffff"
definition MAX_REFS :: nat where "MAX_REFS = 2147483647"

definition set_sync :: "nat \<Rightarrow> sync_rec option \<Rightarrow> sync_state \<Rightarrow> sync_state" where
  "set_sync q r s = s\<lparr>y_syncs := (y_syncs s)(q := r)\<rparr>"

definition set_wobj :: "nat \<Rightarrow> obj_rec option \<Rightarrow> sync_state \<Rightarrow> sync_state" where
  "set_wobj p r s = s\<lparr>y_objs := (y_objs s)(p := r)\<rparr>"

definition set_wait :: "nat \<Rightarrow> thread_wait option \<Rightarrow> sync_state \<Rightarrow> sync_state" where
  "set_wait w r s = s\<lparr>y_waits := (y_waits s)(w := r)\<rparr>"

definition upd_thread :: "nat \<Rightarrow> (thread_rec \<Rightarrow> thread_rec) \<Rightarrow> sync_state \<Rightarrow> sync_state" where
  "upd_thread t f s = s\<lparr>y_threads := (y_threads s)(t := f (y_threads s t))\<rparr>"

section \<open>References\<close>

text \<open>\<open>grab_object\<close> and \<open>release_object\<close> on synchronization objects.\<close>

definition grab_sync :: "nat \<Rightarrow> sync_state \<Rightarrow> sync_state option" where
  "grab_sync q s =
     (case y_syncs s q of None \<Rightarrow> None
      | Some r \<Rightarrow> if sy_refs r < MAX_REFS then Some (set_sync q (Some (r\<lparr>sy_refs := sy_refs r + 1\<rparr>)) s) else None)"

text \<open>The last reference destroys it: it must not be waited on, and a mutex must not be owned.\<close>

definition release_sync :: "nat \<Rightarrow> sync_state \<Rightarrow> sync_state option" where
  "release_sync q s =
     (case y_syncs s q of None \<Rightarrow> None
      | Some r \<Rightarrow>
          if sy_refs r = 0 then None
          else if sy_refs r > 1 then Some (set_sync q (Some (r\<lparr>sy_refs := sy_refs r - 1\<rparr>)) s)
          else if sy_queue r \<noteq> [] then None
          else if (case sy_body r of Mutex_sync ow c a \<Rightarrow> c \<noteq> 0 | _ \<Rightarrow> False) then None
          else Some (set_sync q None s))"

text \<open>The same on objects; the \<open>destroy\<close> operation releases the synchronization object.\<close>

definition grab_wobj :: "nat \<Rightarrow> sync_state \<Rightarrow> sync_state option" where
  "grab_wobj p s =
     (case y_objs s p of None \<Rightarrow> None
      | Some r \<Rightarrow> if ob_refs r < MAX_REFS then Some (set_wobj p (Some (r\<lparr>ob_refs := ob_refs r + 1\<rparr>)) s) else None)"

definition release_wobj :: "nat \<Rightarrow> sync_state \<Rightarrow> sync_state option" where
  "release_wobj p s =
     (case y_objs s p of None \<Rightarrow> None
      | Some r \<Rightarrow>
          if ob_refs r = 0 then None
          else if ob_refs r > 1 then Some (set_wobj p (Some (r\<lparr>ob_refs := ob_refs r - 1\<rparr>)) s)
          else release_sync (ob_sync r) (set_wobj p None s))"

definition get_obj_sync :: "nat \<Rightarrow> sync_state \<Rightarrow> (sync_state \<times> nat) option" where
  "get_obj_sync p s = do { r \<leftarrow> y_objs s p; s \<leftarrow> grab_sync (ob_sync r) s; Some (s, ob_sync r) }"

section \<open>Synchronization objects\<close>

text \<open>The \<open>signaled\<close> operations, for the thread \<open>t\<close> of the wait.\<close>

definition event_sync_signaled :: "sync_body \<Rightarrow> bool option" where
  "event_sync_signaled b = (case b of Event_sync m sg \<Rightarrow> Some sg | _ \<Rightarrow> None)"

definition semaphore_sync_signaled :: "sync_body \<Rightarrow> bool option" where
  "semaphore_sync_signaled b = (case b of Semaphore_sync c m \<Rightarrow> Some (c > 0) | _ \<Rightarrow> None)"

definition mutex_sync_signaled :: "nat \<Rightarrow> sync_body \<Rightarrow> bool option" where
  "mutex_sync_signaled t b = (case b of Mutex_sync ow c a \<Rightarrow> Some (c = 0 \<or> ow = Some t) | _ \<Rightarrow> None)"

text \<open>\<open>sync->ops->signaled\<close>.\<close>

definition sync_signaled :: "nat \<Rightarrow> sync_body \<Rightarrow> bool option" where
  "sync_signaled t b =
     (case b of Event_sync _ _ \<Rightarrow> event_sync_signaled b
      | Semaphore_sync _ _ \<Rightarrow> semaphore_sync_signaled b
      | Mutex_sync _ _ _ \<Rightarrow> mutex_sync_signaled t b)"

definition set_body :: "nat \<Rightarrow> sync_body \<Rightarrow> sync_state \<Rightarrow> sync_state option" where
  "set_body q b s = do { r \<leftarrow> y_syncs s q; Some (set_sync q (Some (r\<lparr>sy_body := b\<rparr>)) s) }"

definition do_grab :: "nat \<Rightarrow> nat \<Rightarrow> sync_state \<Rightarrow> sync_state option" where
  "do_grab q t s =
     do {
       r \<leftarrow> y_syncs s q;
       (case sy_body r of
          Mutex_sync ow c ab \<Rightarrow>
            if \<not> (c = 0 \<or> ow = Some t) then None
            else if c \<noteq> 0 then set_body q (Mutex_sync ow (c + 1) ab) s
            else if ow \<noteq> None then None
            else do {
              s \<leftarrow> grab_sync q s;
              s \<leftarrow> set_body q (Mutex_sync (Some t) (c + 1) ab) s;
              Some (upd_thread t (t_mutex_list_update (\<lambda>l. q # l)) s)
            }
        | _ \<Rightarrow> None)
     }"

definition make_wait_abandoned :: "nat \<Rightarrow> sync_state \<Rightarrow> sync_state option" where
  "make_wait_abandoned w s = do { r \<leftarrow> y_waits s w; Some (set_wait w (Some (r\<lparr>w_abandoned := True\<rparr>)) s) }"

definition event_sync_satisfied :: "nat \<Rightarrow> sync_state \<Rightarrow> sync_state option" where
  "event_sync_satisfied q s =
     do {
       r \<leftarrow> y_syncs s q;
       (case sy_body r of Event_sync m sg \<Rightarrow> if m then Some s else set_body q (Event_sync m False) s | _ \<Rightarrow> None)
     }"

definition semaphore_sync_satisfied :: "nat \<Rightarrow> sync_state \<Rightarrow> sync_state option" where
  "semaphore_sync_satisfied q s =
     do {
       r \<leftarrow> y_syncs s q;
       (case sy_body r of Semaphore_sync c m \<Rightarrow> if c = 0 then None else set_body q (Semaphore_sync (c - 1) m) s | _ \<Rightarrow> None)
     }"

definition mutex_sync_satisfied :: "nat \<Rightarrow> nat \<Rightarrow> sync_state \<Rightarrow> sync_state option" where
  "mutex_sync_satisfied q w s =
     do {
       wr \<leftarrow> y_waits s w;
       s \<leftarrow> do_grab q (w_thread wr) s;
       r \<leftarrow> y_syncs s q;
       (case sy_body r of
          Mutex_sync ow c ab \<Rightarrow>
            do {
              s \<leftarrow> (if ab then make_wait_abandoned w s else Some s);
              set_body q (Mutex_sync ow c False) s
            }
        | _ \<Rightarrow> None)
     }"

definition sync_satisfied :: "nat \<Rightarrow> nat \<Rightarrow> sync_state \<Rightarrow> sync_state option" where
  "sync_satisfied q w s =
     do {
       r \<leftarrow> y_syncs s q;
       (case sy_body r of Event_sync _ _ \<Rightarrow> event_sync_satisfied q s
        | Semaphore_sync _ _ \<Rightarrow> semaphore_sync_satisfied q s
        | Mutex_sync _ _ _ \<Rightarrow> mutex_sync_satisfied q w s)
     }"

section \<open>Waits\<close>

definition is_thread_suspended :: "nat \<Rightarrow> sync_state \<Rightarrow> bool" where
  "is_thread_suspended t s =
     (let th = y_threads s t
      in if (case t_context th of Some c \<Rightarrow> cx_cooperative c | None \<Rightarrow> False) then False
         else if t_suspend th \<noteq> 0 then True
         else \<not> t_bypass_proc_suspend th \<and> y_proc_suspend s (t_process th) \<noteq> 0)"

definition add_queue :: "nat \<Rightarrow> nat \<times> nat \<Rightarrow> sync_state \<Rightarrow> sync_state option" where
  "add_queue q e s = do { r \<leftarrow> y_syncs s q; Some (set_sync q (Some (r\<lparr>sy_queue := sy_queue r @ [e]\<rparr>)) s) }"

definition remove_queue :: "nat \<Rightarrow> nat \<times> nat \<Rightarrow> sync_state \<Rightarrow> sync_state option" where
  "remove_queue q e s = do { r \<leftarrow> y_syncs s q; Some (set_sync q (Some (r\<lparr>sy_queue := remove1 e (sy_queue r)\<rparr>)) s) }"

definition object_sync_satisfied :: "nat \<Rightarrow> nat \<Rightarrow> sync_state \<Rightarrow> sync_state option" where
  "object_sync_satisfied p w s =
     do { (s, q) \<leftarrow> get_obj_sync p s; s \<leftarrow> sync_satisfied q w s; release_sync q s }"

definition object_sync_remove_queue :: "nat \<Rightarrow> nat \<times> nat \<Rightarrow> sync_state \<Rightarrow> sync_state option" where
  "object_sync_remove_queue p e s =
     do { (s, q) \<leftarrow> get_obj_sync p s; s \<leftarrow> remove_queue q e s; release_sync q s }"

definition object_sync_add_queue :: "nat \<Rightarrow> nat \<times> nat \<Rightarrow> sync_state \<Rightarrow> sync_state option" where
  "object_sync_add_queue p e s =
     do { (s, q) \<leftarrow> get_obj_sync p s; s \<leftarrow> add_queue q e s; release_sync q s }"

definition object_sync_signaled :: "nat \<Rightarrow> nat \<Rightarrow> sync_state \<Rightarrow> (sync_state \<times> bool) option" where
  "object_sync_signaled p w s =
     do {
       (s, q) \<leftarrow> get_obj_sync p s;
       r \<leftarrow> y_syncs s q;
       wr \<leftarrow> y_waits s w;
       b \<leftarrow> sync_signaled (w_thread wr) (sy_body r);
       s \<leftarrow> release_sync q s;
       Some (s, b)
     }"


fun satisfy_all :: "nat list \<Rightarrow> nat \<Rightarrow> sync_state \<Rightarrow> sync_state option" where
  "satisfy_all [] w s = Some s"
| "satisfy_all (p # ps) w s = do { s \<leftarrow> object_sync_satisfied p w s; satisfy_all ps w s }"

text \<open>The entries of a wait leave their queues, from index \<open>i\<close>, and release their objects.\<close>

fun leave_queues :: "nat \<Rightarrow> nat list \<Rightarrow> nat \<Rightarrow> sync_state \<Rightarrow> sync_state option" where
  "leave_queues i [] w s = Some s"
| "leave_queues i (p # ps) w s =
     do { s \<leftarrow> object_sync_remove_queue p (w, i) s; s \<leftarrow> release_wobj p s; leave_queues (i + 1) ps w s }"

text \<open>\<open>end_wait\<close>: the status to return to the client.  The timeout of the wait goes with the wait.\<close>

definition end_wait :: "nat \<Rightarrow> u32 \<Rightarrow> sync_state \<Rightarrow> (sync_state \<times> u32) option" where
  "end_wait t status s =
     (case t_waits (y_threads s t) of [] \<Rightarrow> None
      | w # ws \<Rightarrow>
          do {
            wr \<leftarrow> y_waits s w;
            let s = upd_thread t (t_waits_update (\<lambda>_. ws)) s;
            (s, status) \<leftarrow>
              (if unat status < length (w_objs wr) then
                 do {
                   let s = set_wait w (Some (wr\<lparr>w_status := status\<rparr>)) s;
                   s \<leftarrow> (if w_select wr = SELECT_WAIT_ALL then satisfy_all (w_objs wr) w s
                         else object_sync_satisfied (w_objs wr ! unat status) w s);
                   r \<leftarrow> y_waits s w;
                   Some (s, if w_abandoned r then w_status r + STATUS_ABANDONED_WAIT_0 else w_status r)
                 }
               else Some (s, status));
            s \<leftarrow> leave_queues 0 (w_objs wr) w s;
            Some (set_wait w None s, status)
          })"

text \<open>The loops of \<open>check_wait\<close>: whether all objects are signaled, and the first one that is.\<close>

fun all_signaled :: "nat list \<Rightarrow> nat \<Rightarrow> sync_state \<Rightarrow> (sync_state \<times> bool) option" where
  "all_signaled [] w s = Some (s, True)"
| "all_signaled (p # ps) w s =
     do { (s, b) \<leftarrow> object_sync_signaled p w s; (s, c) \<leftarrow> all_signaled ps w s; Some (s, b \<and> c) }"

fun first_signaled :: "nat \<Rightarrow> nat list \<Rightarrow> nat \<Rightarrow> sync_state \<Rightarrow> (sync_state \<times> nat option) option" where
  "first_signaled i [] w s = Some (s, None)"
| "first_signaled i (p # ps) w s =
     do { (s, b) \<leftarrow> object_sync_signaled p w s; if b then Some (s, Some i) else first_signaled (i + 1) ps w s }"

text \<open>\<open>check_wait\<close>: the status of a wait that can end, \<open>None\<close> for -1.\<close>

definition check_wait :: "nat \<Rightarrow> sync_state \<Rightarrow> (sync_state \<times> u32 option) option" where
  "check_wait t s =
     (case t_waits (y_threads s t) of [] \<Rightarrow> None
      | w # ws \<Rightarrow>
          do {
            wr \<leftarrow> y_waits s w;
            let th = y_threads s t;
            if w_flags wr AND SELECT_INTERRUPTIBLE \<noteq> 0 \<and> t_system_apc th \<noteq> [] then Some (s, Some STATUS_KERNEL_APC)
            else if w_flags wr AND SELECT_COOPERATIVE_SUSPEND \<noteq> 0 \<and> t_context th \<noteq> None then
              Some (upd_thread t (t_context_update (map_option (cx_cooperative_update (\<lambda>_. True)))) s, Some STATUS_THREAD_WAS_SUSPENDED)
            else if is_thread_suspended t s then Some (s, None)
            else do {
              (s, r) \<leftarrow>
                (if w_select wr = SELECT_WAIT_ALL then
                   do { (s, b) \<leftarrow> all_signaled (w_objs wr) w s; Some (s, if b then Some 0 else None) }
                 else
                   do { (s, i) \<leftarrow> first_signaled 0 (w_objs wr) w s; Some (s, map_option of_nat i) });
              Some (s, case r of Some st \<Rightarrow> Some st
                       | None \<Rightarrow>
                           if w_flags wr AND SELECT_ALERTABLE \<noteq> 0 \<and> t_user_apc (y_threads s t) \<noteq> [] then Some STATUS_USER_APC
                           else if w_when wr \<ge> 0 \<and> w_when wr \<le> y_current_time s then Some STATUS_TIMEOUT
                           else if w_when wr < 0 \<and> - w_when wr \<le> y_monotonic_time s then Some STATUS_TIMEOUT
                           else None)
            }
          })"

text \<open>\<open>send_thread_wakeup\<close>; the reference to the context that it drops is the last one.\<close>

definition send_thread_wakeup :: "nat \<Rightarrow> u64 \<Rightarrow> u32 \<Rightarrow> sync_state \<Rightarrow> sync_state" where
  "send_thread_wakeup t cookie signaled s =
     (let th = y_threads s t;
          (s, signaled) =
            (case t_context th of
               Some c \<Rightarrow>
                 if t_suspend_cookie th = cookie \<and> signaled \<noteq> STATUS_KERNEL_APC \<and> signaled \<noteq> STATUS_USER_APC then
                   (if cx_native_flags c = 0 \<and> cx_wow_flags c = 0
                    then (upd_thread t (t_context_update (\<lambda>_. None)) s, signaled)
                    else (s, STATUS_KERNEL_APC))
                 else (s, signaled)
             | None \<Rightarrow> (s, signaled))
      in s\<lparr>y_replies := y_replies s @ [(t, cookie, signaled)]\<rparr>)"

partial_function (option) wake_loop :: "nat \<Rightarrow> nat \<Rightarrow> sync_state \<Rightarrow> (sync_state \<times> nat) option" where
  "wake_loop count t s =
     (if t_waits (y_threads s t) = [] then Some (s, count)
      else do {
        (s, r) \<leftarrow> check_wait t s;
        if r = None then Some (s, count)
        else do {
          wr \<leftarrow> y_waits s (hd (t_waits (y_threads s t)));
          (s, signaled) \<leftarrow> end_wait t (the r) s;
          wake_loop (count + 1) t (if w_cookie wr \<noteq> 0 then send_thread_wakeup t (w_cookie wr) signaled s else s)
        }
      })"

definition wake_thread :: "nat \<Rightarrow> sync_state \<Rightarrow> (sync_state \<times> nat) option" where
  "wake_thread t s = wake_loop 0 t s"

text \<open>
  \<open>wake_up\<close>: the scan of the queue from position \<open>i\<close>, which starts again at the head after a wake-up.
\<close>

partial_function (option) wake_scan :: "nat \<Rightarrow> int \<Rightarrow> nat \<Rightarrow> sync_state \<Rightarrow> sync_state option" where
  "wake_scan q mx i s =
     do {
       r \<leftarrow> y_syncs s q;
       if i \<ge> length (sy_queue r) then Some s
       else do {
         wr \<leftarrow> y_waits s (fst (sy_queue r ! i));
         (s, ret) \<leftarrow> wake_thread (w_thread wr) s;
         if ret = 0 then wake_scan q mx (i + 1) s
         else if mx \<noteq> 0 \<and> mx - 1 = 0 then Some s
         else wake_scan q (if mx \<noteq> 0 then mx - 1 else mx) 0 s
       }
     }"

definition wake_up :: "nat \<Rightarrow> int \<Rightarrow> sync_state \<Rightarrow> sync_state option" where
  "wake_up q mx s = wake_scan q mx 0 s"

section \<open>Events, semaphores, mutexes\<close>

definition event_sync_signal :: "nat \<Rightarrow> bool \<Rightarrow> sync_state \<Rightarrow> sync_state option" where
  "event_sync_signal q signal s =
     do {
       r \<leftarrow> y_syncs s q;
       (case sy_body r of
          Event_sync m sg \<Rightarrow>
            do {
              s \<leftarrow> set_body q (Event_sync m signal) s;
              if signal then wake_up q (if m then 0 else 1) s else Some s
            }
        | _ \<Rightarrow> None)
     }"

text \<open>\<open>release_semaphore\<close>: the previous count and the error, if any.\<close>

definition release_semaphore :: "nat \<Rightarrow> u32 \<Rightarrow> sync_state \<Rightarrow> (sync_state \<times> u32 \<times> status option) option" where
  "release_semaphore q count s =
     do {
       r \<leftarrow> y_syncs s q;
       (case sy_body r of
          Semaphore_sync c m \<Rightarrow>
            if c + count < c \<or> c + count > m then Some (s, c, Some STATUS_SEMAPHORE_LIMIT_EXCEEDED)
            else if c \<noteq> 0 then do { s \<leftarrow> set_body q (Semaphore_sync (c + count) m) s; Some (s, c, None) }
            else do {
              s \<leftarrow> set_body q (Semaphore_sync count m) s;
              s \<leftarrow> wake_up q (sint count) s;
              Some (s, c, None)
            }
        | _ \<Rightarrow> None)
     }"

text \<open>\<open>do_release\<close>: the error, if any.\<close>

definition do_release :: "nat \<Rightarrow> nat \<Rightarrow> u32 \<Rightarrow> sync_state \<Rightarrow> (sync_state \<times> status option) option" where
  "do_release q t count s =
     do {
       r \<leftarrow> y_syncs s q;
       (case sy_body r of
          Mutex_sync ow c ab \<Rightarrow>
            if c = 0 \<or> ow \<noteq> Some t then Some (s, Some STATUS_MUTANT_NOT_OWNED)
            else if c - count \<noteq> 0 then do { s \<leftarrow> set_body q (Mutex_sync ow (c - count) ab) s; Some (s, None) }
            else do {
              let s = upd_thread t (t_mutex_list_update (remove1 q)) s;
              s \<leftarrow> set_body q (Mutex_sync None 0 ab) s;
              s \<leftarrow> wake_up q 0 s;
              s \<leftarrow> release_sync q s;
              Some (s, None)
            }
        | _ \<Rightarrow> None)
     }"

partial_function (option) abandon_mutexes :: "nat \<Rightarrow> sync_state \<Rightarrow> sync_state option" where
  "abandon_mutexes t s =
     (if t_mutex_list (y_threads s t) = [] then Some s
      else do {
        let q = hd (t_mutex_list (y_threads s t));
        r \<leftarrow> y_syncs s q;
        (ow, c) \<leftarrow> (case sy_body r of Mutex_sync ow c ab \<Rightarrow> Some (ow, c) | _ \<Rightarrow> None);
        if ow \<noteq> Some t then None
        else do {
          s \<leftarrow> set_body q (Mutex_sync ow c True) s;
          (s, e) \<leftarrow> do_release q t c s;
          abandon_mutexes t s
        }
      })"

section \<open>Requests\<close>

text \<open>
  A request gets the object of a handle from \<open>get_handle_obj\<close>, with one reference, or its error (theory
  \<open>Handles\<close>); the argument \<open>obj\<close> is that result.
\<close>

type_synonym handle_obj = "status + nat"

definition sync_at :: "nat \<Rightarrow> sync_state \<Rightarrow> nat option" where
  "sync_at p s = map_option ob_sync (y_objs s p)"

datatype event_op = PULSE_EVENT | SET_EVENT | RESET_EVENT | Other_event_op

definition set_event :: "nat \<Rightarrow> sync_state \<Rightarrow> sync_state option" where
  "set_event p s = do { q \<leftarrow> sync_at p s; event_sync_signal q True s }"

definition reset_event :: "nat \<Rightarrow> sync_state \<Rightarrow> sync_state option" where
  "reset_event p s = do { q \<leftarrow> sync_at p s; event_sync_signal q False s }"

definition req_event_op :: "handle_obj \<Rightarrow> event_op \<Rightarrow> sync_state \<Rightarrow> (sync_state \<times> (status + bool)) option" where
  "req_event_op obj op s =
     (case obj of Inl st \<Rightarrow> Some (s, Inl st)
      | Inr p \<Rightarrow>
          do {
            q \<leftarrow> sync_at p s;
            r \<leftarrow> y_syncs s q;
            state \<leftarrow> event_sync_signaled (sy_body r);
            (s, e) \<leftarrow>
              (case op of
                 PULSE_EVENT \<Rightarrow> do { s \<leftarrow> set_event p s; s \<leftarrow> reset_event p s; Some (s, Inr state) }
               | SET_EVENT \<Rightarrow> do { s \<leftarrow> set_event p s; Some (s, Inr state) }
               | RESET_EVENT \<Rightarrow> do { s \<leftarrow> reset_event p s; Some (s, Inr state) }
               | Other_event_op \<Rightarrow> Some (s, Inl STATUS_INVALID_PARAMETER));
            s \<leftarrow> release_wobj p s;
            Some (s, e)
          })"

definition req_query_event :: "handle_obj \<Rightarrow> sync_state \<Rightarrow> (sync_state \<times> (status + bool \<times> bool)) option" where
  "req_query_event obj s =
     (case obj of Inl st \<Rightarrow> Some (s, Inl st)
      | Inr p \<Rightarrow>
          do {
            q \<leftarrow> sync_at p s;
            r \<leftarrow> y_syncs s q;
            e \<leftarrow> (case sy_body r of Event_sync m sg \<Rightarrow> Some (m, sg) | _ \<Rightarrow> None);
            s \<leftarrow> release_wobj p s;
            Some (s, Inr e)
          })"

definition req_release_semaphore :: "handle_obj \<Rightarrow> u32 \<Rightarrow> sync_state \<Rightarrow> (sync_state \<times> (status + u32 \<times> status option)) option" where
  "req_release_semaphore obj count s =
     (case obj of Inl st \<Rightarrow> Some (s, Inl st)
      | Inr p \<Rightarrow>
          do {
            q \<leftarrow> sync_at p s;
            (s, prev, e) \<leftarrow> release_semaphore q count s;
            s \<leftarrow> release_wobj p s;
            Some (s, Inr (prev, e))
          })"

definition req_query_semaphore :: "handle_obj \<Rightarrow> sync_state \<Rightarrow> (sync_state \<times> (status + u32 \<times> u32)) option" where
  "req_query_semaphore obj s =
     (case obj of Inl st \<Rightarrow> Some (s, Inl st)
      | Inr p \<Rightarrow>
          do {
            q \<leftarrow> sync_at p s;
            r \<leftarrow> y_syncs s q;
            e \<leftarrow> (case sy_body r of Semaphore_sync c m \<Rightarrow> Some (c, m) | _ \<Rightarrow> None);
            s \<leftarrow> release_wobj p s;
            Some (s, Inr e)
          })"

definition req_release_mutex :: "nat \<Rightarrow> handle_obj \<Rightarrow> sync_state \<Rightarrow> (sync_state \<times> (status + u32 \<times> status option)) option" where
  "req_release_mutex current obj s =
     (case obj of Inl st \<Rightarrow> Some (s, Inl st)
      | Inr p \<Rightarrow>
          do {
            q \<leftarrow> sync_at p s;
            r \<leftarrow> y_syncs s q;
            prev \<leftarrow> (case sy_body r of Mutex_sync ow c ab \<Rightarrow> Some c | _ \<Rightarrow> None);
            (s, e) \<leftarrow> do_release q current 1 s;
            s \<leftarrow> release_wobj p s;
            Some (s, Inr (prev, e))
          })"

definition req_query_mutex :: "nat \<Rightarrow> handle_obj \<Rightarrow> sync_state \<Rightarrow> (sync_state \<times> (status + u32 \<times> bool \<times> bool)) option" where
  "req_query_mutex current obj s =
     (case obj of Inl st \<Rightarrow> Some (s, Inl st)
      | Inr p \<Rightarrow>
          do {
            q \<leftarrow> sync_at p s;
            r \<leftarrow> y_syncs s q;
            e \<leftarrow> (case sy_body r of Mutex_sync ow c ab \<Rightarrow> Some (c, ow = Some current, ab) | _ \<Rightarrow> None);
            s \<leftarrow> release_wobj p s;
            Some (s, Inr e)
          })"

end
