(* ===== verification/Select.thy ===== *)
theory Select
  imports Sync
begin

text \<open>
  The \<open>select\<close> request of \<open>server/thread.c\<close>: starting a wait, its end by a timeout, and suspending
  and killing threads.  The handles of
  a request are given as the results of \<open>get_handle_obj\<close>; keyed events are not modelled.
\<close>

section \<open>Starting a wait\<close>

fun enter_queues :: "nat \<Rightarrow> nat list \<Rightarrow> nat \<Rightarrow> sync_state \<Rightarrow> sync_state option" where
  "enter_queues i [] w s = Some s"
| "enter_queues i (p # ps) w s =
     do {
       s \<leftarrow> object_sync_add_queue p (w, i) s;
       s \<leftarrow> grab_wobj p s;
       r \<leftarrow> y_waits s w;
       enter_queues (i + 1) ps w (set_wait w (Some (r\<lparr>w_objs := w_objs r @ [p]\<rparr>)) s)
     }"

text \<open>\<open>mem\<close> is the pointer to the new wait, \<open>None\<close> if memory is short; the result is \<open>False\<close> on failure.\<close>

definition wait_on ::
  "nat option \<Rightarrow> nat \<Rightarrow> select_opcode \<Rightarrow> nat list \<Rightarrow> u32 \<Rightarrow> int \<Rightarrow> sync_state \<Rightarrow> (sync_state \<times> bool) option" where
  "wait_on mem current op objects flags when s =
     (case mem of None \<Rightarrow> Some (s, False)
      | Some w \<Rightarrow>
          (let s = set_wait w (Some \<lparr>w_thread = current, w_flags = flags, w_abandoned = False, w_select = op,
                                     w_cookie = 0, w_when = when, w_user = False, w_status = 0, w_objs = []\<rparr>) s;
               s = upd_thread current (t_waits_update (\<lambda>ws. w # ws)) s
           in do {
             s \<leftarrow> enter_queues 0 objects w s;
             Some (s, t_waits (y_threads s current) \<noteq> [])
           }))"

text \<open>The loop over the handles: the objects, each with a reference, up to the first error.\<close>

fun grab_handles :: "handle_obj list \<Rightarrow> sync_state \<Rightarrow> (sync_state \<times> nat list \<times> status option) option" where
  "grab_handles [] s = Some (s, [], None)"
| "grab_handles (h # hs) s =
     (case h of Inl st \<Rightarrow> Some (s, [], Some st)
      | Inr p \<Rightarrow>
          do { s \<leftarrow> grab_wobj p s; (s, ps, e) \<leftarrow> grab_handles hs s; Some (s, p # ps, e) })"

fun release_all :: "nat list \<Rightarrow> sync_state \<Rightarrow> sync_state option" where
  "release_all [] s = Some s"
| "release_all (p # ps) s = do { s \<leftarrow> release_wobj p s; release_all ps s }"

definition wait_on_handles ::
  "nat option \<Rightarrow> nat \<Rightarrow> select_opcode \<Rightarrow> handle_obj list \<Rightarrow> u32 \<Rightarrow> int \<Rightarrow> sync_state \<Rightarrow> (sync_state \<times> bool \<times> status) option" where
  "wait_on_handles mem current op handles flags when s =
     (if length handles > MAXIMUM_WAIT_OBJECTS then None
      else do {
        (s, ps, e) \<leftarrow> grab_handles handles s;
        (s, ret) \<leftarrow> (if e = None then wait_on mem current op ps flags when s else Some (s, False));
        s \<leftarrow> release_all (rev ps) s;
        Some (s, ret, case e of Some st \<Rightarrow> st | None \<Rightarrow> if ret then STATUS_SUCCESS else STATUS_NO_MEMORY)
      })"

section \<open>Signaling an object\<close>

text \<open>The \<open>signal\<close> operations of the types: the error, if any.\<close>

definition event_signal :: "nat \<Rightarrow> u32 \<Rightarrow> sync_state \<Rightarrow> (sync_state \<times> status option) option" where
  "event_signal p access s =
     (if access AND EVENT_MODIFY_STATE = 0 then Some (s, Some STATUS_ACCESS_DENIED)
      else do { q \<leftarrow> sync_at p s; s \<leftarrow> event_sync_signal q True s; Some (s, None) })"

definition semaphore_signal :: "nat \<Rightarrow> u32 \<Rightarrow> sync_state \<Rightarrow> (sync_state \<times> status option) option" where
  "semaphore_signal p access s =
     (if access AND SEMAPHORE_MODIFY_STATE = 0 then Some (s, Some STATUS_ACCESS_DENIED)
      else do { q \<leftarrow> sync_at p s; (s, prev, e) \<leftarrow> release_semaphore q 1 s; Some (s, e) })"

definition mutex_signal :: "nat \<Rightarrow> nat \<Rightarrow> u32 \<Rightarrow> sync_state \<Rightarrow> (sync_state \<times> status option) option" where
  "mutex_signal current p access s =
     (if access AND SYNCHRONIZE = 0 then Some (s, Some STATUS_ACCESS_DENIED)
      else do { q \<leftarrow> sync_at p s; do_release q current 1 s })"

definition signal_object :: "nat \<Rightarrow> handle_obj \<Rightarrow> u32 \<Rightarrow> sync_state \<Rightarrow> (sync_state \<times> status option) option" where
  "signal_object current obj access s =
     (case obj of Inl st \<Rightarrow> Some (s, Some st)
      | Inr p \<Rightarrow>
          do {
            s \<leftarrow> grab_wobj p s;
            q \<leftarrow> sync_at p s;
            r \<leftarrow> y_syncs s q;
            (s, e) \<leftarrow> (case sy_body r of Event_sync _ _ \<Rightarrow> event_signal p access s
                       | Semaphore_sync _ _ \<Rightarrow> semaphore_signal p access s
                       | Mutex_sync _ _ _ \<Rightarrow> mutex_signal current p access s);
            s \<leftarrow> release_wobj p s;
            Some (s, e)
          })"

section \<open>Select\<close>

datatype select_op =
    Sel_none
  | Sel_wait "handle_obj list"
  | Sel_wait_all "handle_obj list"
  | Sel_signal_and_wait handle_obj "(handle_obj \<times> u32) option"

text \<open>The check whether the wait is already satisfied, and the start of the timeout.\<close>

definition finish_select :: "bool \<Rightarrow> nat \<Rightarrow> u64 \<Rightarrow> sync_state \<Rightarrow> (sync_state \<times> bool \<times> status) option" where
  "finish_select timer_ok current cookie s =
     do {
       (s, ret) \<leftarrow> check_wait current s;
       (case ret of
          Some st \<Rightarrow> do { (s, st) \<leftarrow> end_wait current st s; Some (s, True, st) }
        | None \<Rightarrow>
            (case t_waits (y_threads s current) of [] \<Rightarrow> None
             | w # ws \<Rightarrow>
                 do {
                   r \<leftarrow> y_waits s w;
                   if w_when r \<noteq> TIMEOUT_INFINITE \<and> \<not> timer_ok then
                     do { (s, st) \<leftarrow> end_wait current STATUS_NO_MEMORY s; Some (s, True, STATUS_NO_MEMORY) }
                   else
                     Some (set_wait w (Some (r\<lparr>w_user := (w_when r \<noteq> TIMEOUT_INFINITE), w_cookie := cookie\<rparr>)) s, False, STATUS_PENDING)
                 }))
     }"

text \<open>\<open>select_on\<close>: whether the request is done, and the status.\<close>

definition select_on ::
  "nat option \<Rightarrow> bool \<Rightarrow> nat \<Rightarrow> select_op \<Rightarrow> u64 \<Rightarrow> u32 \<Rightarrow> int \<Rightarrow> sync_state \<Rightarrow> (sync_state \<times> bool \<times> status) option" where
  "select_on mem timer_ok current op cookie flags when s =
     (case op of
        Sel_none \<Rightarrow>
          do {
            (s, ok) \<leftarrow> wait_on mem current SELECT_NONE [] flags when s;
            if \<not> ok then Some (s, True, STATUS_NO_MEMORY) else finish_select timer_ok current cookie s
          }
      | Sel_wait hs \<Rightarrow>
          if length hs > MAXIMUM_WAIT_OBJECTS then Some (s, True, STATUS_INVALID_PARAMETER)
          else do {
            (s, ok, st) \<leftarrow> wait_on_handles mem current SELECT_WAIT hs flags when s;
            if \<not> ok then Some (s, True, st) else finish_select timer_ok current cookie s
          }
      | Sel_wait_all hs \<Rightarrow>
          if length hs > MAXIMUM_WAIT_OBJECTS then Some (s, True, STATUS_INVALID_PARAMETER)
          else do {
            (s, ok, st) \<leftarrow> wait_on_handles mem current SELECT_WAIT_ALL hs flags when s;
            if \<not> ok then Some (s, True, st) else finish_select timer_ok current cookie s
          }
      | Sel_signal_and_wait wait signal \<Rightarrow>
          do {
            (s, ok, st) \<leftarrow> wait_on_handles mem current SELECT_SIGNAL_AND_WAIT [wait] flags when s;
            if \<not> ok then Some (s, True, st)
            else
              (case signal of None \<Rightarrow> finish_select timer_ok current cookie s
               | Some (h, access) \<Rightarrow>
                   do {
                     (s, e) \<leftarrow> signal_object current h access s;
                     (case e of Some st \<Rightarrow> do { (s, st') \<leftarrow> end_wait current st s; Some (s, True, st) }
                      | None \<Rightarrow>
                          if t_waits (y_threads s current) = [] then Some (s, True, STATUS_SUCCESS)
                          else finish_select timer_ok current cookie s)
                   })
          })"

section \<open>Timeouts\<close>

definition thread_timeout :: "nat \<Rightarrow> sync_state \<Rightarrow> sync_state option" where
  "thread_timeout w s =
     do {
       r \<leftarrow> y_waits s w;
       let t = w_thread r;
       let s = set_wait w (Some (r\<lparr>w_user := False\<rparr>)) s;
       if t_waits (y_threads s t) = [] \<or> hd (t_waits (y_threads s t)) \<noteq> w then Some s
       else if is_thread_suspended t s then Some s
       else do {
         (s, st) \<leftarrow> end_wait t STATUS_TIMEOUT s;
         if w_cookie r = 0 then None
         else do {
           (s, count) \<leftarrow> wake_thread t (send_thread_wakeup t (w_cookie r) STATUS_TIMEOUT s);
           Some s
         }
       }
     }"

section \<open>Suspending and killing threads\<close>

abbreviation STATUS_SUSPEND_COUNT_EXCEEDED :: status where "STATUS_SUSPEND_COUNT_EXCEEDED \<equiv> 0xC000004A"
abbreviation STATUS_THREAD_IS_TERMINATING :: status where "STATUS_THREAD_IS_TERMINATING \<equiv> 0xC000004B"

definition MAXIMUM_SUSPEND_COUNT :: nat where "MAXIMUM_SUSPEND_COUNT = 127"

text \<open>\<open>ok\<close> tells whether there is memory for the context.\<close>

definition create_thread_context :: "bool \<Rightarrow> context_rec option" where
  "create_thread_context ok = (if ok then Some \<lparr>cx_cooperative = False, cx_native_flags = 0, cx_wow_flags = 0\<rparr> else None)"

text \<open>The signal to the client is not modelled.\<close>

definition stop_thread :: "bool \<Rightarrow> nat \<Rightarrow> sync_state \<Rightarrow> sync_state" where
  "stop_thread ok t s =
     (if t_context (y_threads s t) \<noteq> None then s else upd_thread t (t_context_update (\<lambda>_. create_thread_context ok)) s)"

text \<open>The result is the old count, and the error if there is one.\<close>

definition suspend_thread :: "bool \<Rightarrow> nat \<Rightarrow> sync_state \<Rightarrow> sync_state \<times> nat \<times> status option" where
  "suspend_thread ok t s =
     (let old_count = t_suspend (y_threads s t)
      in if old_count < MAXIMUM_SUSPEND_COUNT then
           (let s = (if \<not> is_thread_suspended t s then stop_thread ok t s else s)
            in (upd_thread t (t_suspend_update (\<lambda>n. n + 1)) s, old_count, None))
         else (s, old_count, Some STATUS_SUSPEND_COUNT_EXCEEDED))"

text \<open>The process is not being debugged.\<close>

definition resume_thread :: "nat \<Rightarrow> sync_state \<Rightarrow> (sync_state \<times> nat) option" where
  "resume_thread t s =
     (let old_count = t_suspend (y_threads s t)
      in if old_count > 0 then
           (let s = upd_thread t (t_suspend_update (\<lambda>n. n - 1)) s
            in if \<not> is_thread_suspended t s then do { (s, n) \<leftarrow> wake_thread t s; Some (s, old_count) } else Some (s, old_count))
         else Some (s, old_count))"

text \<open>\<open>kill_thread\<close>: the waits and mutexes of the thread, and its own synchronization object \<open>q\<close>.\<close>

partial_function (option) end_waits :: "nat \<Rightarrow> sync_state \<Rightarrow> sync_state option" where
  "end_waits t s =
     (if t_waits (y_threads s t) = [] then Some s
      else do { (s, st) \<leftarrow> end_wait t STATUS_THREAD_IS_TERMINATING s; end_waits t s })"

definition kill_thread :: "nat \<Rightarrow> nat \<Rightarrow> u32 \<Rightarrow> sync_state \<Rightarrow> sync_state option" where
  "kill_thread t q exit_code s =
     do {
       s \<leftarrow> (if t_waits (y_threads s t) \<noteq> [] then
               do { s \<leftarrow> end_waits t s; Some (send_thread_wakeup t 0 exit_code s) }
             else Some s);
       s \<leftarrow> abandon_mutexes t s;
       event_sync_signal q True s
     }"

section \<open>Creating objects\<close>

text \<open>\<open>q\<close> is the pointer to the new object, \<open>None\<close> if memory is short.\<close>

definition create_event_sync :: "nat option \<Rightarrow> bool \<Rightarrow> bool \<Rightarrow> sync_state \<Rightarrow> sync_state \<times> nat option" where
  "create_event_sync q manual signaled s =
     (case q of None \<Rightarrow> (s, None)
      | Some q \<Rightarrow> (set_sync q (Some \<lparr>sy_refs = 1, sy_queue = [], sy_body = Event_sync manual signaled\<rparr>) s, Some q))"

definition create_semaphore_sync :: "nat option \<Rightarrow> u32 \<Rightarrow> u32 \<Rightarrow> sync_state \<Rightarrow> sync_state \<times> nat option" where
  "create_semaphore_sync q initial mx s =
     (case q of None \<Rightarrow> (s, None)
      | Some q \<Rightarrow> (set_sync q (Some \<lparr>sy_refs = 1, sy_queue = [], sy_body = Semaphore_sync initial mx\<rparr>) s, Some q))"

definition create_mutex_sync :: "nat option \<Rightarrow> nat \<Rightarrow> bool \<Rightarrow> sync_state \<Rightarrow> (sync_state \<times> nat option) option" where
  "create_mutex_sync q current owned s =
     (case q of None \<Rightarrow> Some (s, None)
      | Some q \<Rightarrow>
          (let s = set_sync q (Some \<lparr>sy_refs = 1, sy_queue = [], sy_body = Mutex_sync None 0 False\<rparr>) s
           in if owned then do { s \<leftarrow> do_grab q current s; Some (s, Some q) } else Some (s, Some q)))"

end
