(* ===== verification/Sync_Inv.thy ===== *)
theory Sync_Inv
  imports Select
begin

text \<open>
  The invariant of waits and synchronization objects, and what ending a wait does.
\<close>

section \<open>The invariant\<close>

text \<open>
  The queue entries \<open>(wait, index, object)\<close> of the waits.  The invariant is stated for a set of entries,
  because ending or starting a wait adds or removes them one at a time.
\<close>

type_synonym entries = "(nat \<times> nat \<times> nat) set"

definition wait_entries :: "(nat \<Rightarrow> thread_wait option) \<Rightarrow> entries" where
  "wait_entries ws = {(w, i, p). \<exists>r. ws w = Some r \<and> i < length (w_objs r) \<and> w_objs r ! i = p}"

abbreviation body :: "sync_state \<Rightarrow> nat \<Rightarrow> sync_body option" where
  "body s q \<equiv> map_option sy_body (y_syncs s q)"

definition owned :: "sync_body \<Rightarrow> bool" where
  "owned b \<longleftrightarrow> (case b of Mutex_sync ow c ab \<Rightarrow> c \<noteq> 0 | _ \<Rightarrow> False)"

text \<open>
  References: \<open>xo p\<close> references to an object come from elsewhere (handles, requests), the others from
  entries; a synchronization object has \<open>xs q\<close> references from elsewhere, one from its object and one
  from the thread that owns it.
\<close>

definition obj_ok :: "(nat \<Rightarrow> nat) \<Rightarrow> entries \<Rightarrow> sync_state \<Rightarrow> bool" where
  "obj_ok xo E s \<longleftrightarrow>
     finite E \<and>
     (\<forall>p r. y_objs s p = Some r \<longrightarrow>
        ob_sync r \<in> dom (y_syncs s) \<and> ob_refs r = xo p + card {(w, i). (w, i, p) \<in> E} \<and> 0 < ob_refs r) \<and>
     (\<forall>p. y_objs s p = None \<longrightarrow> xo p = 0 \<and> (\<forall>w i. (w, i, p) \<notin> E)) \<and>
     (\<forall>p p' r r'. y_objs s p = Some r \<and> y_objs s p' = Some r' \<and> ob_sync r = ob_sync r' \<longrightarrow> p = p')"

definition body_ok :: "sync_body \<Rightarrow> bool" where
  "body_ok b \<longleftrightarrow> (case b of Event_sync _ _ \<Rightarrow> True | Semaphore_sync c m \<Rightarrow> c \<le> m | Mutex_sync ow c ab \<Rightarrow> (ow = None \<longleftrightarrow> c = 0))"

definition rec_ok :: "(nat \<Rightarrow> nat) \<Rightarrow> entries \<Rightarrow> (nat \<Rightarrow> nat option) \<Rightarrow> nat \<Rightarrow> sync_rec \<Rightarrow> bool" where
  "rec_ok xs E at q r \<longleftrightarrow>
     sy_refs r = xs q + of_bool (\<exists>p. at p = Some q) + of_bool (owned (sy_body r)) \<and> 0 < sy_refs r \<and>
     distinct (sy_queue r) \<and> set (sy_queue r) = {(w, i). \<exists>p. (w, i, p) \<in> E \<and> at p = Some q} \<and> body_ok (sy_body r)"

definition syncs_ok :: "(nat \<Rightarrow> nat) \<Rightarrow> entries \<Rightarrow> sync_state \<Rightarrow> bool" where
  "syncs_ok xs E s \<longleftrightarrow>
     (\<forall>q r. y_syncs s q = Some r \<longrightarrow> rec_ok xs E (\<lambda>p. sync_at p s) q r) \<and>
     (\<forall>q. xs q + 2 < MAX_REFS) \<and> (\<forall>q. y_syncs s q = None \<longrightarrow> xs q = 0)"

text \<open>
  The recursion count of a mutex has room for all waits in its queue, not counting one wait on each
  mutex of \<open>D\<close>.
\<close>

definition mutex_room :: "nat set \<Rightarrow> sync_state \<Rightarrow> bool" where
  "mutex_room D s \<longleftrightarrow>
     (\<forall>q r ow c ab. y_syncs s q = Some r \<and> sy_body r = Mutex_sync ow c ab \<longrightarrow> unat c + length (sy_queue r) < 2 ^ 32 + of_bool (q \<in> D))"

definition mutex_ok :: "sync_state \<Rightarrow> bool" where
  "mutex_ok s \<longleftrightarrow>
     (\<forall>t. distinct (t_mutex_list (y_threads s t)) \<and>
          (\<forall>q. q \<in> set (t_mutex_list (y_threads s t)) \<longleftrightarrow> (\<exists>c ab. body s q = Some (Mutex_sync (Some t) c ab))))"

definition wait_ok :: "sync_state \<Rightarrow> bool" where
  "wait_ok s \<longleftrightarrow>
     finite (dom (y_waits s)) \<and>
     (\<forall>w r. y_waits s w = Some r \<longrightarrow> w \<in> set (t_waits (y_threads s (w_thread r))) \<and> length (w_objs r) \<le> MAXIMUM_WAIT_OBJECTS \<and>
        (w_select r = SELECT_WAIT_ALL \<longrightarrow> distinct (w_objs r))) \<and>
     (\<forall>t. distinct (t_waits (y_threads s t)) \<and>
          (\<forall>w\<in>set (t_waits (y_threads s t)). \<exists>r. y_waits s w = Some r \<and> w_thread r = t))"

text \<open>The invariant for a set of entries, and for the entries of the waits.\<close>

definition inv :: "(nat \<Rightarrow> nat) \<Rightarrow> (nat \<Rightarrow> nat) \<Rightarrow> entries \<Rightarrow> sync_state \<Rightarrow> bool" where
  "inv xo xs E s \<longleftrightarrow> obj_ok xo E s \<and> syncs_ok xs E s \<and> mutex_ok s"

definition wf_sync :: "(nat \<Rightarrow> nat) \<Rightarrow> (nat \<Rightarrow> nat) \<Rightarrow> sync_state \<Rightarrow> bool" where
  "wf_sync xo xs s \<longleftrightarrow> inv xo xs (wait_entries (y_waits s)) s \<and> mutex_room {} s \<and> wait_ok s"

text \<open>The parts of the state without the queues and references.\<close>

lemma set_sync_simps [simp]:
  "y_syncs (set_sync q r s) = (y_syncs s)(q := r)" "y_objs (set_sync q r s) = y_objs s" "y_waits (set_sync q r s) = y_waits s"
  "y_threads (set_sync q r s) = y_threads s" "y_proc_suspend (set_sync q r s) = y_proc_suspend s"
  "y_current_time (set_sync q r s) = y_current_time s" "y_monotonic_time (set_sync q r s) = y_monotonic_time s"
  "sync_at p (set_sync q r s) = sync_at p s"
  by (simp_all add: set_sync_def sync_at_def)

lemma set_wobj_simps [simp]:
  "y_syncs (set_wobj p r s) = y_syncs s" "y_objs (set_wobj p r s) = (y_objs s)(p := r)" "y_waits (set_wobj p r s) = y_waits s"
  "y_threads (set_wobj p r s) = y_threads s" "y_proc_suspend (set_wobj p r s) = y_proc_suspend s"
  "y_current_time (set_wobj p r s) = y_current_time s" "y_monotonic_time (set_wobj p r s) = y_monotonic_time s"
  by (simp_all add: set_wobj_def)

lemma set_wait_simps [simp]:
  "y_syncs (set_wait w r s) = y_syncs s" "y_objs (set_wait w r s) = y_objs s" "y_waits (set_wait w r s) = (y_waits s)(w := r)"
  "y_threads (set_wait w r s) = y_threads s" "y_proc_suspend (set_wait w r s) = y_proc_suspend s"
  "y_current_time (set_wait w r s) = y_current_time s" "y_monotonic_time (set_wait w r s) = y_monotonic_time s"
  "sync_at p (set_wait w r s) = sync_at p s"
  by (simp_all add: set_wait_def sync_at_def)

lemma upd_thread_simps [simp]:
  "y_syncs (upd_thread t f s) = y_syncs s" "y_objs (upd_thread t f s) = y_objs s" "y_waits (upd_thread t f s) = y_waits s"
  "y_threads (upd_thread t f s) = (y_threads s)(t := f (y_threads s t))" "y_proc_suspend (upd_thread t f s) = y_proc_suspend s"
  "y_current_time (upd_thread t f s) = y_current_time s" "y_monotonic_time (upd_thread t f s) = y_monotonic_time s"
  "sync_at p (upd_thread t f s) = sync_at p s"
  by (simp_all add: upd_thread_def sync_at_def)

lemma set_sync_same [simp]: "y_syncs s q = Some r \<Longrightarrow> set_sync q (Some r) s = s"
  by (simp add: set_sync_def fun_upd_idem)

lemma set_sync_twice [simp]: "set_sync q a (set_sync q b s) = set_sync q a s"
  by (simp add: set_sync_def)

section \<open>Operations on one synchronization object\<close>

text \<open>\<open>get_obj_sync\<close> and the \<open>release_object\<close> after it.\<close>

lemma get_obj_sync_eq:
  assumes "y_objs s p = Some o'" "y_syncs s (ob_sync o') = Some r" "sy_refs r < MAX_REFS"
  shows "get_obj_sync p s = Some (set_sync (ob_sync o') (Some (r\<lparr>sy_refs := sy_refs r + 1\<rparr>)) s, ob_sync o')"
  using assms by (simp add: get_obj_sync_def grab_sync_def)

lemma release_sync_eq:
  assumes "y_syncs s q = Some r" "1 < sy_refs r"
  shows "release_sync q s = Some (set_sync q (Some (r\<lparr>sy_refs := sy_refs r - 1\<rparr>)) s)"
  using assms by (simp add: release_sync_def)

text \<open>The \<open>signaled\<close> operation as a plain predicate.\<close>

fun sig :: "nat \<Rightarrow> sync_body \<Rightarrow> bool" where
  "sig t (Event_sync m sg) = sg"
| "sig t (Semaphore_sync c m) = (c > 0)"
| "sig t (Mutex_sync ow c ab) = (c = 0 \<or> ow = Some t)"

lemma sync_signaled_sig [simp]: "sync_signaled t b = Some (sig t b)"
  by (cases b) (simp_all add: sync_signaled_def event_sync_signaled_def semaphore_sync_signaled_def mutex_sync_signaled_def)

text \<open>The object \<open>p\<close> is signaled for thread \<open>t\<close>.\<close>

definition osig :: "sync_state \<Rightarrow> nat \<Rightarrow> nat \<Rightarrow> bool" where
  "osig s t p = (case y_objs s p of None \<Rightarrow> False | Some r \<Rightarrow> (case y_syncs s (ob_sync r) of None \<Rightarrow> False | Some q \<Rightarrow> sig t (sy_body q)))"

lemma syncs_okD:
  assumes "syncs_ok xs E s" "y_syncs s q = Some r"
  shows "rec_ok xs E (\<lambda>p. sync_at p s) q r" "0 < sy_refs r" "sy_refs r < MAX_REFS" "body_ok (sy_body r)" "xs q + 2 < MAX_REFS"
proof -
  show r: "rec_ok xs E (\<lambda>p. sync_at p s) q r" and x: "xs q + 2 < MAX_REFS" using assms by (auto simp: syncs_ok_def)
  then show "0 < sy_refs r" "body_ok (sy_body r)" by (auto simp: rec_ok_def)
  have "sy_refs r \<le> xs q + 2" using r by (auto simp: rec_ok_def of_bool_def)
  then show "sy_refs r < MAX_REFS" using x by simp
qed

lemma syncs_ok_update:
  assumes "syncs_ok xs E s" "y_syncs s q = Some r" "y_syncs s' = (y_syncs s)(q \<mapsto> r')" "y_objs s' = y_objs s"
    "rec_ok xs E (\<lambda>p. sync_at p s) q r'"
  shows "syncs_ok xs E s'"
  using assms by (auto simp: syncs_ok_def sync_at_def)

lemma obj_ok_cong: "obj_ok xo E s \<Longrightarrow> y_objs s' = y_objs s \<Longrightarrow> dom (y_syncs s) \<subseteq> dom (y_syncs s') \<Longrightarrow> obj_ok xo E s'"
  unfolding obj_ok_def by (simp only: subset_iff) blast

lemma object_sync_signaled_eq:
  assumes "syncs_ok xs E s" "y_objs s p = Some o'" "y_syncs s (ob_sync o') = Some r" "y_waits s w = Some wr"
  shows "object_sync_signaled p w s = Some (s, osig s (w_thread wr) p)"
  using assms syncs_okD(2,3) [OF assms(1,3)]
  by (simp add: object_sync_signaled_def get_obj_sync_eq release_sync_eq osig_def)


text \<open>The \<open>satisfied\<close> operation on the body, for thread \<open>t\<close>.\<close>

fun sat_body :: "nat \<Rightarrow> sync_body \<Rightarrow> sync_body" where
  "sat_body t (Event_sync m sg) = Event_sync m (m \<and> sg)"
| "sat_body t (Semaphore_sync c m) = Semaphore_sync (c - 1) m"
| "sat_body t (Mutex_sync ow c ab) = Mutex_sync (Some t) (c + 1) False"

definition first_grab :: "sync_body \<Rightarrow> bool" where
  "first_grab b \<longleftrightarrow> (case b of Mutex_sync ow c ab \<Rightarrow> c = 0 | _ \<Rightarrow> False)"

definition is_abandoned :: "sync_body \<Rightarrow> bool" where
  "is_abandoned b \<longleftrightarrow> (case b of Mutex_sync ow c ab \<Rightarrow> ab | _ \<Rightarrow> False)"

definition sat_state :: "nat \<Rightarrow> nat \<Rightarrow> sync_rec \<Rightarrow> thread_wait \<Rightarrow> sync_state \<Rightarrow> sync_state" where
  "sat_state q w r wr s =
     s\<lparr>y_syncs := (y_syncs s)(q \<mapsto> r\<lparr>sy_body := sat_body (w_thread wr) (sy_body r), sy_refs := sy_refs r + of_bool (first_grab (sy_body r))\<rparr>),
       y_threads := (if first_grab (sy_body r) then (y_threads s)(w_thread wr := t_mutex_list_update (\<lambda>l. q # l) (y_threads s (w_thread wr)))
                     else y_threads s),
       y_waits := (if is_abandoned (sy_body r) then (y_waits s)(w \<mapsto> wr\<lparr>w_abandoned := True\<rparr>) else y_waits s)\<rparr>"

lemma object_sync_satisfied_eq:
  assumes "syncs_ok xs E s" "y_objs s p = Some o'" "y_syncs s (ob_sync o') = Some r" "y_waits s w = Some wr"
    "sig (w_thread wr) (sy_body r)"
  shows "object_sync_satisfied p w s = Some (sat_state (ob_sync o') w r wr s)"
proof -
  note refs = syncs_okD(2,3) [OF assms(1,3)]
  show ?thesis
  proof (cases "sy_body r")
    case (Event_sync m sg)
    then show ?thesis using assms refs
      by (auto simp: object_sync_satisfied_def get_obj_sync_eq sync_satisfied_def event_sync_satisfied_def set_body_def
          release_sync_def sat_state_def first_grab_def is_abandoned_def set_sync_def fun_upd_idem)
  next
    case (Semaphore_sync c m)
    then show ?thesis using assms refs
      by (auto simp: object_sync_satisfied_def get_obj_sync_eq sync_satisfied_def semaphore_sync_satisfied_def set_body_def
          release_sync_def sat_state_def first_grab_def is_abandoned_def set_sync_def)
  next
    case (Mutex_sync ow c ab)
    have oc: "ow = None \<longleftrightarrow> c = 0" using syncs_okD(4) [OF assms(1,3)] Mutex_sync by (simp add: body_ok_def)
    have "c = 0 \<Longrightarrow> sy_refs r + 1 < MAX_REFS"
      using syncs_okD(1,5) [OF assms(1,3)] Mutex_sync by (auto simp: rec_ok_def owned_def of_bool_def split: if_splits)
    then show ?thesis using assms refs Mutex_sync oc
      by (cases "c = 0"; cases ab)
        (simp_all add: object_sync_satisfied_def get_obj_sync_eq sync_satisfied_def mutex_sync_satisfied_def do_grab_def grab_sync_def
          make_wait_abandoned_def set_body_def release_sync_def sat_state_def first_grab_def is_abandoned_def set_sync_def upd_thread_def set_wait_def)
  qed
qed


text \<open>An entry is on the queue of its synchronization object.\<close>

lemma inv_entry:
  assumes "inv xo xs E s" "(w, i, p) \<in> E"
  obtains o' r where "y_objs s p = Some o'" "y_syncs s (ob_sync o') = Some r" "(w, i) \<in> set (sy_queue r)"
proof -
  obtain o' where o': "y_objs s p = Some o'" using assms unfolding inv_def obj_ok_def by (metis option.exhaust)
  then obtain r where r: "y_syncs s (ob_sync o') = Some r" using assms(1) unfolding inv_def obj_ok_def by blast
  have "set (sy_queue r) = {(w, i). \<exists>p. (w, i, p) \<in> E \<and> sync_at p s = Some (ob_sync o')}"
    using syncs_okD(1) [of xs E s, OF _ r] assms(1) by (simp add: inv_def rec_ok_def)
  then have "(w, i) \<in> set (sy_queue r)" using assms(2) o' by (auto simp: sync_at_def)
  then show thesis using that o' r by blast
qed

lemma sat_state_simps [simp]:
  "y_objs (sat_state q w r wr s) = y_objs s" "y_proc_suspend (sat_state q w r wr s) = y_proc_suspend s"
  "y_current_time (sat_state q w r wr s) = y_current_time s" "y_monotonic_time (sat_state q w r wr s) = y_monotonic_time s"
  "sync_at p (sat_state q w r wr s) = sync_at p s"
  by (simp_all add: sat_state_def sync_at_def)

lemma sat_state_threads:
  "y_threads (sat_state q w r wr s) u =
     (if u = w_thread wr \<and> first_grab (sy_body r) then t_mutex_list_update (\<lambda>l. q # l) (y_threads s u) else y_threads s u)"
  by (simp add: sat_state_def)

lemma sat_state_syncs:
  "y_syncs (sat_state q w r wr s) =
     (y_syncs s)(q \<mapsto> r\<lparr>sy_body := sat_body (w_thread wr) (sy_body r), sy_refs := sy_refs r + of_bool (first_grab (sy_body r))\<rparr>)"
  by (simp add: sat_state_def)

lemma mutex_roomD:
  assumes "mutex_room D s" "y_syncs s q = Some r" "sy_body r = Mutex_sync ow c ab" "q \<notin> D" "sy_queue r \<noteq> []"
  shows "c + 1 \<noteq> 0" "unat (c + 1) = unat c + 1"
proof -
  have "unat c + length (sy_queue r) < 2 ^ 32 + of_bool (q \<in> D)" using assms(1-3) unfolding mutex_room_def by blast
  moreover have "0 < length (sy_queue r)" using assms(5) by simp
  moreover have "of_bool (q \<in> D) = (0 :: nat)" using assms(4) by simp
  ultimately have "unat c + 1 < 2 ^ 32" by linarith
  then show u: "unat (c + 1) = unat c + 1" by (simp add: unat_word_ariths(1))
  then have "unat (c + 1) \<noteq> 0" by simp
  then show "c + 1 \<noteq> 0" by auto
qed

lemma sat_body_ok:
  assumes "body_ok b" "sig t b" "\<forall>ow c ab. b = Mutex_sync ow c ab \<longrightarrow> c + 1 \<noteq> 0"
  shows "body_ok (sat_body t b)" "owned (sat_body t b) \<longleftrightarrow> owned b \<or> first_grab b" "\<not> (owned b \<and> first_grab b)"
proof -
  have "c - 1 \<le> m" if "c \<le> m" "c > 0" for c m :: u32
  proof -
    have "unat (c - 1) = unat c - 1" using that(2) by (intro unat_minus_one) auto
    then show ?thesis using that(1) by (simp add: word_le_nat_alt)
  qed
  then show "body_ok (sat_body t b)" using assms by (cases b) (auto simp: body_ok_def)
  show "owned (sat_body t b) \<longleftrightarrow> owned b \<or> first_grab b" "\<not> (owned b \<and> first_grab b)"
    using assms by (cases b; auto simp: owned_def first_grab_def)+
qed

lemma sat_state_inv:
  assumes inv: "inv xo xs E s" and r: "y_syncs s q = Some r" and sg: "sig (w_thread wr) (sy_body r)"
    and D: "mutex_room D s" "q \<notin> D" "sy_queue r \<noteq> []"
  shows "inv xo xs E (sat_state q w r wr s)" "mutex_room (insert q D) (sat_state q w r wr s)"
proof -
  let ?s = "sat_state q w r wr s" and ?t = "w_thread wr"
  define r' where "r' = r\<lparr>sy_body := sat_body ?t (sy_body r), sy_refs := sy_refs r + of_bool (first_grab (sy_body r))\<rparr>"
  have ys: "y_syncs ?s = (y_syncs s)(q \<mapsto> r')" by (simp add: sat_state_syncs r'_def)
  have ok: "rec_ok xs E (\<lambda>p. sync_at p s) q r" "body_ok (sy_body r)" using syncs_okD [of xs E s, OF _ r] inv by (simp_all add: inv_def)
  have "\<forall>ow c ab. sy_body r = Mutex_sync ow c ab \<longrightarrow> c + 1 \<noteq> 0" using mutex_roomD(1) [OF D(1) r _ D(2,3)] by blast
  note b = sat_body_ok [OF ok(2) sg this]
  have "rec_ok xs E (\<lambda>p. sync_at p s) q r'"
    using ok(1) b by (auto simp: rec_ok_def r'_def)
  then have "syncs_ok xs E ?s" using syncs_ok_update [OF _ r ys] inv by (simp add: inv_def)
  moreover have "obj_ok xo E ?s" using obj_ok_cong [of xo E s ?s] inv by (auto simp: inv_def ys)
  moreover have "mutex_ok ?s"
  proof -
    have no: "q \<notin> set (t_mutex_list (y_threads s u))" if "first_grab (sy_body r)" for u
      using that inv r ok(2) by (cases "sy_body r") (auto simp: inv_def mutex_ok_def first_grab_def body_ok_def)
    have same: "(\<exists>c ab. sat_body ?t (sy_body r) = Mutex_sync (Some u) c ab) \<longleftrightarrow>
        (\<exists>c ab. sy_body r = Mutex_sync (Some u) c ab) \<or> first_grab (sy_body r) \<and> u = ?t" for u
      using sg ok(2) by (cases "sy_body r") (auto simp: first_grab_def body_ok_def)
    show ?thesis
      unfolding mutex_ok_def sat_state_threads ys
      using inv no same r by (auto simp: inv_def mutex_ok_def r'_def)
  qed
  ultimately show "inv xo xs E ?s" by (simp add: inv_def)
  show "mutex_room (insert q D) ?s"
    unfolding mutex_room_def ys
  proof (intro allI impI, elim conjE)
    fix q' r'' ow c ab assume a: "((y_syncs s)(q \<mapsto> r')) q' = Some r''" "sy_body r'' = Mutex_sync ow c ab"
    show "unat c + length (sy_queue r'') < 2 ^ 32 + of_bool (q' \<in> insert q D)"
    proof (cases "q' = q")
      case True
      then have "r'' = r'" using a(1) by simp
      then obtain ow' c' ab' where c': "sy_body r = Mutex_sync ow' c' ab'" "c = c' + 1" using a(2) by (cases "sy_body r") (auto simp: r'_def)
      have "unat c' + length (sy_queue r) < 2 ^ 32 + of_bool (q \<in> D)" using D(1) r c'(1) unfolding mutex_room_def by blast
      then show ?thesis using c'(2) mutex_roomD(2) [OF D(1) r c'(1) D(2,3)] True D(2) \<open>r'' = r'\<close> by (simp add: r'_def)
    next
      case False
      then have "unat c + length (sy_queue r'') < 2 ^ 32 + of_bool (q' \<in> D)" using a D(1) unfolding mutex_room_def by (auto split: if_splits)
      then show ?thesis using False by simp
    qed
  qed
qed


section \<open>Entries and references\<close>

lemma object_sync_remove_queue_eq:
  assumes "syncs_ok xs E s" "y_objs s p = Some o'" "y_syncs s (ob_sync o') = Some r"
  shows "object_sync_remove_queue p e s = Some (set_sync (ob_sync o') (Some (r\<lparr>sy_queue := remove1 e (sy_queue r)\<rparr>)) s)"
  using assms syncs_okD(2,3) [OF assms(1,3)]
  by (simp add: object_sync_remove_queue_def get_obj_sync_eq remove_queue_def release_sync_eq)

lemma object_sync_add_queue_eq:
  assumes "syncs_ok xs E s" "y_objs s p = Some o'" "y_syncs s (ob_sync o') = Some r"
  shows "object_sync_add_queue p e s = Some (set_sync (ob_sync o') (Some (r\<lparr>sy_queue := sy_queue r @ [e]\<rparr>)) s)"
  using assms syncs_okD(2,3) [OF assms(1,3)]
  by (simp add: object_sync_add_queue_def get_obj_sync_eq add_queue_def release_sync_eq)

lemma card_entries_remove:
  assumes "finite E" "(w, i, p) \<in> E"
  shows "card {(w', i'). (w', i', p') \<in> E} = card {(w', i'). (w', i', p') \<in> E - {(w, i, p)}} + of_bool (p' = p)"
proof -
  have fin: "finite {(w', i'). (w', i', p') \<in> E}"
    by (rule finite_subset [OF _ finite_imageI [OF assms(1), of "\<lambda>(w, i, p). (w, i)"]]) force
  show ?thesis
  proof (cases "p' = p")
    case True
    then have "{(w', i'). (w', i', p') \<in> E} = insert (w, i) {(w', i'). (w', i', p') \<in> E - {(w, i, p)}}" using assms(2) by auto
    moreover have "finite {(w', i'). (w', i', p') \<in> E - {(w, i, p)}}" by (rule finite_subset [OF _ fin]) auto
    ultimately show ?thesis using True by simp
  next
    case False
    then have "{(w', i'). (w', i', p') \<in> E} = {(w', i'). (w', i', p') \<in> E - {(w, i, p)}}" by auto
    then show ?thesis using False by simp
  qed
qed

lemma rec_ok_cong:
  assumes "rec_ok xs E at q r" "{(w, i). \<exists>p. (w, i, p) \<in> E' \<and> at p = Some q} = {(w, i). \<exists>p. (w, i, p) \<in> E \<and> at p = Some q}"
  shows "rec_ok xs E' at q r"
  using assms(1) unfolding rec_ok_def assms(2) .

lemma rec_ok_queue:
  assumes "rec_ok xs E at q r" "distinct ks" "set ks = {(w, i). \<exists>p. (w, i, p) \<in> E' \<and> at p = Some q}"
  shows "rec_ok xs E' at q (r\<lparr>sy_queue := ks\<rparr>)"
  using assms unfolding rec_ok_def by (elim conjE, intro conjI) simp_all

lemma obj_ok_recount:
  assumes "obj_ok xo E s" "y_objs s' = y_objs s" "dom (y_syncs s) \<subseteq> dom (y_syncs s')" "finite E'"
    "\<forall>p. y_objs s p \<noteq> None \<longrightarrow> xo' p + card {(w, i). (w, i, p) \<in> E'} = xo p + card {(w, i). (w, i, p) \<in> E}"
    "\<forall>p. y_objs s p = None \<longrightarrow> xo' p = 0 \<and> (\<forall>w i. (w, i, p) \<notin> E')"
  shows "obj_ok xo' E' s'"
proof -
  have o': "\<And>p r. y_objs s p = Some r \<Longrightarrow> ob_sync r \<in> dom (y_syncs s) \<and> ob_refs r = xo p + card {(w, i). (w, i, p) \<in> E} \<and> 0 < ob_refs r"
    "\<forall>p p' r r'. y_objs s p = Some r \<and> y_objs s p' = Some r' \<and> ob_sync r = ob_sync r' \<longrightarrow> p = p'"
    using assms(1) unfolding obj_ok_def by blast+
  have "ob_sync r \<in> dom (y_syncs s') \<and> ob_refs r = xo' p + card {(w, i). (w, i, p) \<in> E'} \<and> 0 < ob_refs r" if "y_objs s p = Some r" for p r
    using o'(1) [OF that] assms(3) assms(5) [rule_format, of p] that by auto
  then show ?thesis unfolding obj_ok_def assms(2) using assms(4,6) o'(2) by blast
qed

text \<open>An entry leaves its queue: its reference to the object is left over.\<close>

lemma remove_entry:
  assumes inv: "inv xo xs E s" and e: "(w, i, p) \<in> E" and o': "y_objs s p = Some o'" and r: "y_syncs s (ob_sync o') = Some r"
  shows "inv (xo(p := xo p + 1)) xs (E - {(w, i, p)}) (set_sync (ob_sync o') (Some (r\<lparr>sy_queue := remove1 (w, i) (sy_queue r)\<rparr>)) s)"
proof -
  let ?q = "ob_sync o'" and ?E = "E - {(w, i, p)}" and ?r = "r\<lparr>sy_queue := remove1 (w, i) (sy_queue r)\<rparr>"
  let ?s = "set_sync ?q (Some ?r) s"
  have oo: "obj_ok xo E s" "syncs_ok xs E s" "mutex_ok s" using inv by (simp_all add: inv_def)
  have fin: "finite E" using oo(1) by (simp add: obj_ok_def)
  have uniq: "p' = p" if "sync_at p' s = Some ?q" for p'
    using that o' oo(1) unfolding obj_ok_def sync_at_def by (metis map_option_eq_Some)
  have "obj_ok (xo(p := xo p + 1)) ?E ?s"
  proof (rule obj_ok_recount [OF oo(1)])
    show "\<forall>p'. y_objs s p' \<noteq> None \<longrightarrow> (xo(p := xo p + 1)) p' + card {(w, i). (w, i, p') \<in> ?E} = xo p' + card {(w, i). (w, i, p') \<in> E}"
      using card_entries_remove [OF fin e] by (simp del: Diff_iff)
    show "\<forall>p'. y_objs s p' = None \<longrightarrow> (xo(p := xo p + 1)) p' = 0 \<and> (\<forall>w i. (w, i, p') \<notin> ?E)"
      using oo(1) o' by (auto simp: obj_ok_def)
  qed (use r fin in auto)
  moreover have "rec_ok xs ?E (\<lambda>p. sync_at p s) q' r'" if "y_syncs s q' = Some r'" "q' \<noteq> ?q" for q' r'
  proof -
    have "{(w, i). \<exists>p. (w, i, p) \<in> ?E \<and> sync_at p s = Some q'} = {(w, i). \<exists>p. (w, i, p) \<in> E \<and> sync_at p s = Some q'}"
      using that(2) o' by (auto simp: sync_at_def)
    then show ?thesis by (rule rec_ok_cong [OF syncs_okD(1) [OF oo(2) that(1)]])
  qed
  moreover have "rec_ok xs ?E (\<lambda>p. sync_at p s) ?q ?r"
  proof -
    have "{(w', i'). \<exists>p. (w', i', p) \<in> ?E \<and> sync_at p s = Some ?q} = {(w', i'). \<exists>p. (w', i', p) \<in> E \<and> sync_at p s = Some ?q} - {(w, i)}"
      using uniq by fastforce
    then show ?thesis using syncs_okD(1) [OF oo(2) r]
      by (intro rec_ok_queue [OF syncs_okD(1) [OF oo(2) r]]) (auto simp: rec_ok_def set_remove1_eq simp del: Diff_iff)
  qed
  ultimately show ?thesis using oo r by (auto simp: inv_def syncs_ok_def mutex_ok_def)
qed

lemma add_entry:
  assumes inv: "inv xo xs E s" and e: "\<forall>p. (w, i, p) \<notin> E" and o': "y_objs s p = Some o'" and r: "y_syncs s (ob_sync o') = Some r" and x: "0 < xo p"
  shows "inv (xo(p := xo p - 1)) xs (insert (w, i, p) E) (set_sync (ob_sync o') (Some (r\<lparr>sy_queue := sy_queue r @ [(w, i)]\<rparr>)) s)"
proof -
  let ?q = "ob_sync o'" and ?E = "insert (w, i, p) E" and ?r = "r\<lparr>sy_queue := sy_queue r @ [(w, i)]\<rparr>"
  let ?s = "set_sync ?q (Some ?r) s"
  have oo: "obj_ok xo E s" "syncs_ok xs E s" "mutex_ok s" using inv by (simp_all add: inv_def)
  have fin: "finite ?E" using oo(1) by (simp add: obj_ok_def)
  have uniq: "p' = p" if "sync_at p' s = Some ?q" for p'
    using that o' oo(1) unfolding obj_ok_def sync_at_def by (metis map_option_eq_Some)
  have "?E - {(w, i, p)} = E" using e by auto
  then have c: "card {(w', i'). (w', i', p') \<in> ?E} = card {(w', i'). (w', i', p') \<in> E} + of_bool (p' = p)" for p'
    using card_entries_remove [OF fin, of w i p p'] by simp
  have "obj_ok (xo(p := xo p - 1)) ?E ?s"
  proof (rule obj_ok_recount [OF oo(1)])
    show "\<forall>p'. y_objs s p' \<noteq> None \<longrightarrow> (xo(p := xo p - 1)) p' + card {(w, i). (w, i, p') \<in> ?E} = xo p' + card {(w, i). (w, i, p') \<in> E}"
      using c x by (simp del: insert_iff)
    show "\<forall>p'. y_objs s p' = None \<longrightarrow> (xo(p := xo p - 1)) p' = 0 \<and> (\<forall>w i. (w, i, p') \<notin> ?E)"
      using oo(1) o' by (auto simp: obj_ok_def)
  qed (use r fin in auto)
  moreover have "rec_ok xs ?E (\<lambda>p. sync_at p s) q' r'" if "y_syncs s q' = Some r'" "q' \<noteq> ?q" for q' r'
  proof -
    have "{(w, i). \<exists>p. (w, i, p) \<in> ?E \<and> sync_at p s = Some q'} = {(w, i). \<exists>p. (w, i, p) \<in> E \<and> sync_at p s = Some q'}"
      using that(2) o' by (auto simp: sync_at_def)
    then show ?thesis by (rule rec_ok_cong [OF syncs_okD(1) [OF oo(2) that(1)]])
  qed
  moreover have "rec_ok xs ?E (\<lambda>p. sync_at p s) ?q ?r"
  proof -
    have "{(w', i'). \<exists>p. (w', i', p) \<in> ?E \<and> sync_at p s = Some ?q} = insert (w, i) {(w', i'). \<exists>p. (w', i', p) \<in> E \<and> sync_at p s = Some ?q}"
      using o' by (auto simp: sync_at_def)
    moreover have "(w, i) \<notin> set (sy_queue r)" using syncs_okD(1) [OF oo(2) r] e by (auto simp: rec_ok_def)
    ultimately show ?thesis using syncs_okD(1) [OF oo(2) r]
      by (intro rec_ok_queue [OF syncs_okD(1) [OF oo(2) r]]) (auto simp: rec_ok_def simp del: insert_iff)
  qed
  ultimately show ?thesis using oo r by (auto simp: inv_def syncs_ok_def mutex_ok_def)
qed

end
