(* ===== verification/Sync_Wait.thy ===== *)
theory Sync_Wait
  imports Sync_Inv
begin

text \<open>
  The end of a wait keeps the invariant, and what it changes for other threads: the objects can only
  become less signaled.
\<close>

section \<open>Releasing an object\<close>

text \<open>
  \<open>s'\<close> is \<open>s\<close> with fewer references and entries: what is left of objects and synchronization objects is
  the same.
\<close>

definition fewer :: "sync_state \<Rightarrow> sync_state \<Rightarrow> bool" where
  "fewer s s' \<longleftrightarrow>
     y_threads s' = y_threads s \<and> y_waits s' = y_waits s \<and> y_proc_suspend s' = y_proc_suspend s \<and>
     y_current_time s' = y_current_time s \<and> y_monotonic_time s' = y_monotonic_time s \<and>
     (\<forall>p r'. y_objs s' p = Some r' \<longrightarrow> (\<exists>r. y_objs s p = Some r \<and> ob_sync r = ob_sync r')) \<and>
     (\<forall>q r'. y_syncs s' q = Some r' \<longrightarrow> (\<exists>r. y_syncs s q = Some r \<and> sy_body r' = sy_body r \<and> length (sy_queue r') \<le> length (sy_queue r)))"

lemma fewer_refl [simp]: "fewer s s"
  by (simp add: fewer_def)

lemma fewer_objs: "fewer s s' \<Longrightarrow> y_objs s' p = Some r' \<Longrightarrow> \<exists>r. y_objs s p = Some r \<and> ob_sync r = ob_sync r'"
  by (simp add: fewer_def)

lemma fewer_syncs:
  "fewer s s' \<Longrightarrow> y_syncs s' q = Some r' \<Longrightarrow> \<exists>r. y_syncs s q = Some r \<and> sy_body r' = sy_body r \<and> length (sy_queue r') \<le> length (sy_queue r)"
  by (simp add: fewer_def)

lemma fewer_rest:
  assumes "fewer s s'"
  shows "y_threads s' = y_threads s" "y_waits s' = y_waits s" "y_proc_suspend s' = y_proc_suspend s"
    "y_current_time s' = y_current_time s" "y_monotonic_time s' = y_monotonic_time s"
  using assms by (simp_all add: fewer_def)

lemma fewer_trans:
  assumes "fewer s s'" "fewer s' s''"
  shows "fewer s s''"
proof -
  have "\<exists>r. y_objs s p = Some r \<and> ob_sync r = ob_sync r''" if "y_objs s'' p = Some r''" for p r''
    using fewer_objs [OF assms(2) that] fewer_objs [OF assms(1)] by fastforce
  moreover have "\<exists>r. y_syncs s q = Some r \<and> sy_body r'' = sy_body r \<and> length (sy_queue r'') \<le> length (sy_queue r)"
    if a: "y_syncs s'' q = Some r''" for q r''
  proof -
    obtain r' where r': "y_syncs s' q = Some r'" "sy_body r'' = sy_body r'" "length (sy_queue r'') \<le> length (sy_queue r')"
      using fewer_syncs [OF assms(2) a] by blast
    then show ?thesis using fewer_syncs [OF assms(1) r'(1)] by auto
  qed
  ultimately show ?thesis using fewer_rest [OF assms(1)] fewer_rest [OF assms(2)] by (simp add: fewer_def)
qed

lemma fewer_room:
  assumes "fewer s s'" "mutex_room D s"
  shows "mutex_room D s'"
  unfolding mutex_room_def
proof (intro allI impI, elim conjE)
  fix q r' ow c ab assume a: "y_syncs s' q = Some r'" "sy_body r' = Mutex_sync ow c ab"
  obtain r where r: "y_syncs s q = Some r" "sy_body r' = sy_body r" "length (sy_queue r') \<le> length (sy_queue r)"
    using fewer_syncs [OF assms(1) a(1)] by blast
  then have "unat c + length (sy_queue r) < 2 ^ 32 + of_bool (q \<in> D)" using assms(2) a(2) unfolding mutex_room_def by metis
  then show "unat c + length (sy_queue r') < 2 ^ 32 + of_bool (q \<in> D)" using r(3) by linarith
qed

text \<open>The last reference to an object goes: its synchronization object may stay, if it is owned.\<close>

lemma release_last:
  assumes inv: "inv xo xs E s" and r: "y_objs s p = Some r" and refs: "ob_refs r = 1" "0 < xo p"
  shows "\<exists>s'. release_wobj p s = Some s' \<and> inv (xo(p := xo p - 1)) xs E s' \<and> fewer s s'"
proof -
  have oo: "obj_ok xo E s" "syncs_ok xs E s" "mutex_ok s" using inv by (simp_all add: inv_def)
  have all: "\<And>p r. y_objs s p = Some r \<Longrightarrow> ob_sync r \<in> dom (y_syncs s) \<and> ob_refs r = xo p + card {(w, i). (w, i, p) \<in> E} \<and> 0 < ob_refs r"
    "\<And>p. y_objs s p = None \<Longrightarrow> xo p = 0 \<and> (\<forall>w i. (w, i, p) \<notin> E)" "finite E"
    "\<And>p p' r r'. y_objs s p = Some r \<Longrightarrow> y_objs s p' = Some r' \<Longrightarrow> ob_sync r = ob_sync r' \<Longrightarrow> p = p'"
    using oo(1) unfolding obj_ok_def by blast+
  have "finite {(w, i). (w, i, p) \<in> E}"
    by (rule finite_subset [OF _ finite_imageI [OF all(3), of "\<lambda>(w, i, p). (w, i)"]]) force
  moreover have c: "card {(w, i). (w, i, p) \<in> E} = 0" "xo p = 1" using all(1) [OF r] refs by linarith+
  ultimately have none: "xo p = 1" "\<And>w i. (w, i, p) \<notin> E" by auto
  obtain k where k: "y_syncs s (ob_sync r) = Some k" using all(1) [OF r] by blast
  let ?q = "ob_sync r"
  define s1 where "s1 = set_wobj p None s"
  have at1: "sync_at p' s1 = (if p' = p then None else sync_at p' s)" for p' by (simp add: s1_def sync_at_def)
  have uniq: "sync_at p' s = Some ?q \<longleftrightarrow> p' = p" for p' using r all(4) by (auto simp: sync_at_def)
  have kq: "sy_refs k = xs ?q + 1 + of_bool (owned (sy_body k))" "distinct (sy_queue k)" "sy_queue k = []" "body_ok (sy_body k)"
    using syncs_okD(1) [OF oo(2) k] none(2) by (auto simp: rec_ok_def uniq)
  define x' where "x' = (if sy_refs k > 1 then Some (k\<lparr>sy_refs := sy_refs k - 1\<rparr>) else None)"
  define s' where "s' = set_sync ?q x' s1"
  have rel: "release_wobj p s = Some s'"
    using r refs(1) k kq by (auto simp: release_wobj_def release_sync_def s1_def s'_def x'_def owned_def split: sync_body.splits)
  have at: "sync_at p' s' = (if p' = p then None else sync_at p' s)" for p' by (simp add: s'_def at1)
  have "obj_ok (xo(p := xo p - 1)) E s'"
  proof -
    have yo: "y_objs s' = (y_objs s)(p := None)" by (simp add: s'_def s1_def)
    have "ob_sync r' \<in> dom (y_syncs s') \<and> ob_refs r' = (xo(p := xo p - 1)) p' + card {(w, i). (w, i, p') \<in> E} \<and> 0 < ob_refs r'"
      if "y_objs s' p' = Some r'" for p' r'
    proof -
      have n: "y_objs s p' = Some r'" "p' \<noteq> p" using that by (auto simp: yo split: if_splits)
      then have "ob_sync r' \<noteq> ?q" using all(4) [OF n(1) r] by blast
      then have "ob_sync r' \<in> dom (y_syncs s')" using all(1) [OF n(1)] by (simp add: s'_def s1_def domIff)
      then show ?thesis using all(1) [OF n(1)] unfolding fun_upd_other [OF n(2)] by blast
    qed
    moreover have "(xo(p := xo p - 1)) p' = 0 \<and> (\<forall>w i. (w, i, p') \<notin> E)" if "y_objs s' p' = None" for p'
      using that all(2) [of p'] none by (cases "p' = p") (simp_all add: yo)
    moreover have "p1 = p2" if "y_objs s' p1 = Some r1" "y_objs s' p2 = Some r2" "ob_sync r1 = ob_sync r2" for p1 p2 r1 r2
      using that all(4) [of p1 r1 p2 r2] by (simp add: yo split: if_splits)
    ultimately show ?thesis unfolding obj_ok_def using all(3) by blast
  qed
  moreover have "syncs_ok xs E s'"
  proof -
    have "rec_ok xs E (\<lambda>p. sync_at p s') q r'" if a: "y_syncs s' q = Some r'" for q r'
    proof (cases "q = ?q")
      case True
      then have "r' = k\<lparr>sy_refs := sy_refs k - 1\<rparr>" "sy_refs k > 1" using a by (auto simp: s'_def x'_def split: if_splits)
      then show ?thesis using True kq none(2) uniq by (auto simp: rec_ok_def at)
    next
      case False
      then have "y_syncs s q = Some r'" using a by (simp add: s'_def s1_def)
      then have "rec_ok xs E (\<lambda>p. sync_at p s) q r'" by (rule syncs_okD(1) [OF oo(2)])
      moreover have "(\<exists>p. sync_at p s' = Some q) = (\<exists>p. sync_at p s = Some q)" using False uniq by (metis at option.distinct(1) option.inject)
      moreover have "{(w, i). \<exists>p. (w, i, p) \<in> E \<and> sync_at p s' = Some q} = {(w, i). \<exists>p. (w, i, p) \<in> E \<and> sync_at p s = Some q}"
      proof -
        have "(w, i, p') \<in> E \<and> sync_at p' s' = Some q \<longleftrightarrow> (w, i, p') \<in> E \<and> sync_at p' s = Some q" for w i p'
          using none(2) [of w i] by (auto simp: at)
        then show ?thesis by simp
      qed
      ultimately show ?thesis unfolding rec_ok_def by (elim conjE, intro conjI) simp_all
    qed
    moreover have "xs q = 0" if "y_syncs s' q = None" for q
      using that oo(2) kq(1) by (auto simp: s'_def s1_def x'_def syncs_ok_def split: if_splits)
    ultimately show ?thesis using oo(2) by (auto simp: syncs_ok_def)
  qed
  moreover have "mutex_ok s'"
  proof -
    have "(body s' q = Some (Mutex_sync (Some t) c ab)) = (body s q = Some (Mutex_sync (Some t) c ab))" for q t c ab
      using k kq by (auto simp: s'_def s1_def x'_def owned_def body_ok_def split: sync_body.splits)
    then show ?thesis using oo(3) unfolding mutex_ok_def by (simp add: s'_def s1_def)
  qed
  moreover have "fewer s s'" using k by (auto simp: fewer_def s'_def s1_def x'_def split: if_splits)
  ultimately show ?thesis using rel by (auto simp: inv_def)
qed

lemma release_wobj_spec:
  assumes inv: "inv xo xs E s" and x: "0 < xo p"
  shows "\<exists>s'. release_wobj p s = Some s' \<and> inv (xo(p := xo p - 1)) xs E s' \<and> fewer s s'"
proof -
  have oo: "obj_ok xo E s" "syncs_ok xs E s" "mutex_ok s" using inv by (simp_all add: inv_def)
  have "y_objs s p \<noteq> None" using oo(1) x unfolding obj_ok_def by fastforce
  then obtain r where r: "y_objs s p = Some r" by blast
  have all: "\<And>p r. y_objs s p = Some r \<Longrightarrow> ob_sync r \<in> dom (y_syncs s) \<and> ob_refs r = xo p + card {(w, i). (w, i, p) \<in> E} \<and> 0 < ob_refs r"
    "\<And>p. y_objs s p = None \<Longrightarrow> xo p = 0 \<and> (\<forall>w i. (w, i, p) \<notin> E)" "finite E"
    "\<And>p p' r r'. y_objs s p = Some r \<Longrightarrow> y_objs s p' = Some r' \<Longrightarrow> ob_sync r = ob_sync r' \<Longrightarrow> p = p'"
    using oo(1) unfolding obj_ok_def by blast+
  show ?thesis
  proof (cases "1 < ob_refs r")
    case True
    define s' where "s' = set_wobj p (Some (r\<lparr>ob_refs := ob_refs r - 1\<rparr>)) s"
    have at: "sync_at p' s' = sync_at p' s" for p' using r by (simp add: s'_def sync_at_def)
    have "ob_sync r' \<in> dom (y_syncs s') \<and> ob_refs r' = (xo(p := xo p - 1)) p' + card {(w, i). (w, i, p') \<in> E} \<and> 0 < ob_refs r'"
      if "y_objs s' p' = Some r'" for p' r'
      using that all(1) [OF r] all(1) [of p' r'] x True by (cases "p' = p") (auto simp: s'_def)
    moreover have "(xo(p := xo p - 1)) p' = 0 \<and> (\<forall>w i. (w, i, p') \<notin> E)" if "y_objs s' p' = None" for p'
      using that all(2) [of p'] by (auto simp: s'_def split: if_splits)
    moreover have "p1 = p2" if "y_objs s' p1 = Some r1" "y_objs s' p2 = Some r2" "ob_sync r1 = ob_sync r2" for p1 p2 r1 r2
      using that all(4) r by (auto simp: s'_def split: if_splits)
    ultimately have "obj_ok (xo(p := xo p - 1)) E s'" unfolding obj_ok_def using all(3) by blast
    moreover have "syncs_ok xs E s'" using oo(2) by (simp add: syncs_ok_def at) (simp add: s'_def)
    moreover have "mutex_ok s'" using oo(3) by (simp add: mutex_ok_def s'_def)
    moreover have "fewer s s'" using r by (auto simp: fewer_def s'_def)
    moreover have "release_wobj p s = Some s'" using r True by (simp add: release_wobj_def s'_def)
    ultimately show ?thesis by (auto simp: inv_def)
  next
    case False
    then show ?thesis using release_last [OF inv r] all(1) [OF r] x by simp
  qed
qed

section \<open>Leaving the queues\<close>

lemma remove_less:
  fixes e :: "nat \<times> nat"
  assumes r: "y_syncs s q = Some r"
  defines "s' \<equiv> set_sync q (Some (r\<lparr>sy_queue := remove1 e (sy_queue r)\<rparr>)) s"
  shows "fewer s s'" "e \<in> set (sy_queue r) \<Longrightarrow> mutex_room D s \<Longrightarrow> mutex_room (D - {q}) s'"
proof -
  show "fewer s s'" using r by (auto simp: fewer_def s'_def length_remove1)
  show "mutex_room (D - {q}) s'" if e: "e \<in> set (sy_queue r)" and D: "mutex_room D s"
    unfolding mutex_room_def
  proof (intro allI impI, elim conjE)
    fix q' r' ow c ab assume a: "y_syncs s' q' = Some r'" "sy_body r' = Mutex_sync ow c ab"
    show "unat c + length (sy_queue r') < 2 ^ 32 + of_bool (q' \<in> D - {q})"
    proof (cases "q' = q")
      case True
      then have r': "r' = r\<lparr>sy_queue := remove1 e (sy_queue r)\<rparr>" using a(1) by (simp add: s'_def)
      then have "unat c + length (sy_queue r) < 2 ^ 32 + of_bool (q \<in> D)" using D r a(2) unfolding mutex_room_def by simp
      moreover have "of_bool (q \<in> D) \<le> (1 :: nat)" by simp
      ultimately have "unat c + (length (sy_queue r) - 1) < 2 ^ 32" using length_pos_if_in_set [OF e] by linarith
      then show ?thesis using e r' True by (simp add: length_remove1)
    next
      case False
      then have "y_syncs s q' = Some r'" using a(1) by (simp add: s'_def)
      then have "unat c + length (sy_queue r') < 2 ^ 32 + of_bool (q' \<in> D)" using D a(2) unfolding mutex_room_def by blast
      then show ?thesis using False by simp
    qed
  qed
qed

lemma fewer_sync_at:
  assumes "fewer s s'" "y_objs s' p \<noteq> None"
  shows "sync_at p s' = sync_at p s"
  using fewer_objs [OF assms(1)] assms(2) by (fastforce simp: sync_at_def)

lemma mutex_room_mono: "mutex_room D s \<Longrightarrow> D \<subseteq> D' \<Longrightarrow> mutex_room D' s"
  unfolding mutex_room_def
proof (intro allI impI)
  fix q r ow c ab
  assume a: "\<forall>q r ow c ab. y_syncs s q = Some r \<and> sy_body r = Mutex_sync ow c ab \<longrightarrow> unat c + length (sy_queue r) < 2 ^ 32 + of_bool (q \<in> D)"
    and D: "D \<subseteq> D'" and r: "y_syncs s q = Some r \<and> sy_body r = Mutex_sync ow c ab"
  have "unat c + length (sy_queue r) < 2 ^ 32 + of_bool (q \<in> D)" using a r by blast
  moreover have "of_bool (q \<in> D) \<le> (of_bool (q \<in> D') :: nat)" using D by auto
  ultimately show "unat c + length (sy_queue r) < 2 ^ 32 + of_bool (q \<in> D')" by linarith
qed

lemma Collect_Suc: "{f j |j. j < Suc n} = insert (f 0) {f (Suc j) |j. j < n}"
  by (auto simp: less_Suc_eq_0_disj)

text \<open>All entries of a wait leave their queues, and the objects they referred to are released.\<close>

lemma leave_queues_spec:
  assumes "inv xo xs E s" "\<forall>j<length ps. (w, i + j, ps ! j) \<in> E" "mutex_room D s"
  shows "\<exists>s'. leave_queues i ps w s = Some s' \<and> inv xo xs (E - {(w, i + j, ps ! j) |j. j < length ps}) s' \<and> fewer s s' \<and>
           mutex_room (D - {q. \<exists>p\<in>set ps. sync_at p s = Some q}) s'"
  using assms
proof (induction ps arbitrary: i E s D)
  case Nil
  then show ?case by simp
next
  case (Cons p ps)
  let ?E = "E - {(w, i, p)}"
  have e: "(w, i, p) \<in> E" using Cons.prems(2) by (metis add_0_right length_greater_0_conv list.distinct(1) nth_Cons_0)
  obtain o' r where r: "y_objs s p = Some o'" "y_syncs s (ob_sync o') = Some r" "(w, i) \<in> set (sy_queue r)"
    by (rule inv_entry [OF Cons.prems(1) e])
  define s1 where "s1 = set_sync (ob_sync o') (Some (r\<lparr>sy_queue := remove1 (w, i) (sy_queue r)\<rparr>)) s"
  have s1: "object_sync_remove_queue p (w, i) s = Some s1" "inv (xo(p := xo p + 1)) xs ?E s1"
    using object_sync_remove_queue_eq [of xs E, OF _ r(1,2)] remove_entry [OF Cons.prems(1) e r(1,2)] Cons.prems(1) by (simp_all add: s1_def inv_def)
  have l1: "fewer s s1" "mutex_room (D - {ob_sync o'}) s1"
    using remove_less [OF r(2)] r(3) Cons.prems(3) unfolding s1_def by blast+
  obtain s2 where s2: "release_wobj p s1 = Some s2" "inv xo xs ?E s2" "fewer s1 s2"
    using release_wobj_spec [OF s1(2), of p] by auto
  have rest: "(w, i + 1 + j, ps ! j) \<in> ?E" if "j < length ps" for j
    using Cons.prems(2) [rule_format, of "Suc j"] that by simp
  obtain s' where s': "leave_queues (i + 1) ps w s2 = Some s'" "inv xo xs (?E - {(w, i + 1 + j, ps ! j) |j. j < length ps}) s'" "fewer s2 s'"
      "mutex_room (D - {ob_sync o'} - {q. \<exists>p\<in>set ps. sync_at p s2 = Some q}) s'"
    using Cons.IH [OF s2(2) _ fewer_room [OF s2(3) l1(2)], of "i + 1"] rest by blast
  have ins: "{(w, i + j, (p # ps) ! j) |j. j < length (p # ps)} = insert (w, i, p) {(w, i + 1 + j, ps ! j) |j. j < length ps}"
    using Collect_Suc [of "\<lambda>j. (w, i + j, (p # ps) ! j)"] by simp
  have E: "?E - {(w, i + 1 + j, ps ! j) |j. j < length ps} = E - {(w, i + j, (p # ps) ! j) |j. j < length (p # ps)}" 
    unfolding ins by (rule Diff_insert2 [symmetric])
  have "fewer s s2" using l1(1) s2(3) by (rule fewer_trans)
  moreover have "y_objs s2 p' \<noteq> None" if p': "p' \<in> set ps" for p'
  proof -
    obtain j where j: "j < length ps" "ps ! j = p'" using p' by (auto simp: in_set_conv_nth)
    obtain o2 where "y_objs s2 p' = Some o2" using inv_entry [OF s2(2) rest [OF j(1)]] j(2) by blast
    then show ?thesis by simp
  qed
  ultimately have "D - {ob_sync o'} - {q. \<exists>p\<in>set ps. sync_at p s2 = Some q} \<subseteq> D - {q. \<exists>p\<in>set (p # ps). sync_at p s = Some q}"
    using r(1) fewer_sync_at by (auto simp: sync_at_def)
  then show ?case using s1(1) s2(1) s'(1,2) E mutex_room_mono [OF s'(4)] fewer_trans [OF \<open>fewer s s2\<close> s'(3)] by auto
qed

end
