(* ===== verification/Sync_End.thy ===== *)
theory Sync_End
  imports Sync_Wait
begin

text \<open>
  \<open>end_wait\<close>: the objects of a wait that is satisfied, and the end of a wait.
\<close>

section \<open>Satisfying objects\<close>

text \<open>
  How often an auto-reset event or a semaphore can satisfy a wait; a body that is left after a wait was
  satisfied is signaled for fewer threads.
\<close>

fun level :: "sync_body \<Rightarrow> nat" where
  "level (Event_sync m sg) = of_bool sg"
| "level (Semaphore_sync c m) = unat c"
| "level (Mutex_sync ow c ab) = 0"

fun counted :: "sync_body \<Rightarrow> bool" where
  "counted (Event_sync m sg) = (\<not> m)"
| "counted (Semaphore_sync c m) = True"
| "counted (Mutex_sync ow c ab) = False"

text \<open>What no operation changes: the type, and the mode of an event and maximum of a semaphore.\<close>

fun fixed_part :: "sync_body \<Rightarrow> sync_body" where
  "fixed_part (Event_sync m sg) = Event_sync m False"
| "fixed_part (Semaphore_sync c m) = Semaphore_sync 0 m"
| "fixed_part (Mutex_sync ow c ab) = Mutex_sync None 0 False"

definition body_le :: "sync_body \<Rightarrow> sync_body \<Rightarrow> bool" where
  "body_le b' b \<longleftrightarrow> (\<forall>u. sig u b' \<longrightarrow> sig u b) \<and> level b' \<le> level b \<and> counted b' = counted b \<and> fixed_part b' = fixed_part b"

lemma body_le_refl [simp]: "body_le b b"
  by (simp add: body_le_def)

lemma body_le_trans: "body_le b'' b' \<Longrightarrow> body_le b' b \<Longrightarrow> body_le b'' b"
  unfolding body_le_def by (elim conjE, intro conjI) (blast intro: order_trans | simp)+

lemma sat_body_le:
  assumes "sig t b" "body_ok b" "\<forall>ow c ab. b = Mutex_sync ow c ab \<longrightarrow> c + 1 \<noteq> 0"
  shows "body_le (sat_body t b) b" "counted b \<Longrightarrow> level (sat_body t b) < level b"
proof -
  have d: "unat (c - 1) = unat c - 1" "0 < unat c" if "c > 0" for c :: u32
  proof -
    show "unat (c - 1) = unat c - 1" using that by (intro unat_minus_one) auto
    show "0 < unat c" using that by (simp add: word_less_nat_alt)
  qed
  show "counted b \<Longrightarrow> level (sat_body t b) < level b" using assms(1) by (cases b) (auto simp: d)
  show "body_le (sat_body t b) b" using assms by (cases b) (auto simp: body_le_def d body_ok_def)
qed

text \<open>\<open>s'\<close> is \<open>s\<close> after the wait \<open>w\<close> of thread \<open>t\<close> consumed the synchronization objects in \<open>Q\<close>.\<close>

definition consumed :: "nat \<Rightarrow> nat \<Rightarrow> nat set \<Rightarrow> sync_state \<Rightarrow> sync_state \<Rightarrow> bool" where
  "consumed t w Q s s' \<longleftrightarrow>
     y_objs s' = y_objs s \<and> y_proc_suspend s' = y_proc_suspend s \<and> y_current_time s' = y_current_time s \<and>
     y_monotonic_time s' = y_monotonic_time s \<and> (\<forall>u. t_waits (y_threads s' u) = t_waits (y_threads s u)) \<and>
     (\<forall>u. u \<noteq> t \<longrightarrow> y_threads s' u = y_threads s u) \<and>
     (\<forall>v. v \<noteq> w \<longrightarrow> y_waits s' v = y_waits s v) \<and> (\<exists>wr. y_waits s' w = Some wr \<and> w_thread wr = t) \<and>
     (\<forall>q. q \<notin> Q \<longrightarrow> y_syncs s' q = y_syncs s q) \<and> (\<forall>q. y_syncs s q = None \<longrightarrow> y_syncs s' q = None) \<and>
     (\<forall>q r. q \<in> Q \<and> y_syncs s q = Some r \<longrightarrow>
        (\<exists>r'. y_syncs s' q = Some r' \<and> sy_queue r' = sy_queue r \<and> body_le (sy_body r') (sy_body r) \<and>
           (counted (sy_body r) \<longrightarrow> level (sy_body r') < level (sy_body r))))"

lemma object_sync_satisfied_spec:
  assumes inv: "inv xo xs E s" and D: "mutex_room D s" and e: "(w, i, p) \<in> E" and wr: "y_waits s w = Some wr"
    and sg: "osig s (w_thread wr) p" and q: "sync_at p s = Some q" "q \<notin> D"
  shows "\<exists>s'. object_sync_satisfied p w s = Some s' \<and> inv xo xs E s' \<and> mutex_room (insert q D) s' \<and> consumed (w_thread wr) w {q} s s'"
proof -
  obtain o' r where r: "y_objs s p = Some o'" "y_syncs s (ob_sync o') = Some r" "(w, i) \<in> set (sy_queue r)"
    by (rule inv_entry [OF inv e])
  have oq: "ob_sync o' = q" using q r(1) by (simp add: sync_at_def)
  note rq = r(2) [unfolded oq]
  let ?t = "w_thread wr" and ?s = "sat_state q w r wr s"
  have ok: "syncs_ok xs E s" using inv by (simp add: inv_def)
  have sr: "sig ?t (sy_body r)" using sg r by (simp add: osig_def)
  have ne: "sy_queue r \<noteq> []" using r(3) by auto
  have "\<forall>ow c ab. sy_body r = Mutex_sync ow c ab \<longrightarrow> c + 1 \<noteq> 0" using mutex_roomD(1) [OF D rq _ q(2) ne] by blast
  note le = sat_body_le [OF sr syncs_okD(4) [OF ok rq] this]
  have "consumed ?t w {q} s ?s"
    unfolding consumed_def using le rq wr
    by (simp add: sat_state_syncs sat_state_threads) (simp add: sat_state_def)
  then show ?thesis
    using object_sync_satisfied_eq [OF ok r(1,2) wr sr] sat_state_inv [OF inv rq sr D q(2) ne] by (simp add: oq)
qed

lemma consumed_osig:
  assumes "consumed t w Q s s'" "\<forall>q. sync_at p s = Some q \<longrightarrow> q \<notin> Q"
  shows "osig s' u p = osig s u p"
  using assms unfolding consumed_def osig_def sync_at_def by (auto split: option.splits)

lemma consumed_trans:
  assumes "consumed t w Q s s'" "consumed t w Q' s' s''" "Q \<inter> Q' = {}"
  shows "consumed t w (Q \<union> Q') s s''"
  unfolding consumed_def
proof (intro conjI)
  show "\<forall>q r. q \<in> Q \<union> Q' \<and> y_syncs s q = Some r \<longrightarrow>
        (\<exists>r'. y_syncs s'' q = Some r' \<and> sy_queue r' = sy_queue r \<and> body_le (sy_body r') (sy_body r) \<and>
           (counted (sy_body r) \<longrightarrow> level (sy_body r') < level (sy_body r)))"
  proof (intro allI impI, elim conjE)
    fix q r assume a: "q \<in> Q \<union> Q'" "y_syncs s q = Some r"
    have "y_syncs s'' q = y_syncs s' q" if "q \<in> Q" using that assms(2,3) by (auto simp: consumed_def)
    moreover have "y_syncs s' q = y_syncs s q" if "q \<notin> Q" using that assms(1) by (simp add: consumed_def)
    ultimately show "\<exists>r'. y_syncs s'' q = Some r' \<and> sy_queue r' = sy_queue r \<and> body_le (sy_body r') (sy_body r) \<and>
           (counted (sy_body r) \<longrightarrow> level (sy_body r') < level (sy_body r))"
      using a assms(1,2) unfolding consumed_def by (cases "q \<in> Q") simp_all
  qed
qed (use assms(1,2) in \<open>simp_all add: consumed_def\<close>)

lemma satisfy_all_spec:
  assumes "inv xo xs E s" "mutex_room D s" "\<forall>p\<in>set ps. \<exists>i. (w, i, p) \<in> E" "y_waits s w = Some wr" "w_thread wr = t"
    "\<forall>p\<in>set ps. osig s t p" "distinct ps" "D \<inter> {q. \<exists>p\<in>set ps. sync_at p s = Some q} = {}"
  shows "\<exists>s'. satisfy_all ps w s = Some s' \<and> inv xo xs E s' \<and> mutex_room (D \<union> {q. \<exists>p\<in>set ps. sync_at p s = Some q}) s' \<and>
           consumed t w {q. \<exists>p\<in>set ps. sync_at p s = Some q} s s'"
  using assms
proof (induction ps arbitrary: s D wr)
  case Nil
  then show ?case by (auto simp: consumed_def)
next
  case (Cons p ps)
  obtain i where i: "(w, i, p) \<in> E" using Cons.prems(3) by auto
  obtain o' r where r: "y_objs s p = Some o'" "y_syncs s (ob_sync o') = Some r"
    using inv_entry [OF Cons.prems(1) i] by blast
  define q where "q = ob_sync o'"
  let ?Q = "{q. \<exists>p\<in>set ps. sync_at p s = Some q}"
  have at: "sync_at p s = Some q" using r(1) by (simp add: sync_at_def q_def)
  have Q: "{q. \<exists>p\<in>set (p # ps). sync_at p s = Some q} = insert q ?Q" using at by auto
  have uniq: "p' = p" if "sync_at p' s = Some q" for p'
    using that r(1) Cons.prems(1) unfolding inv_def obj_ok_def sync_at_def q_def by (metis map_option_eq_Some)
  then have nq: "q \<notin> ?Q" using Cons.prems(7) by auto
  have D: "q \<notin> D" "D \<inter> ?Q = {}" using Cons.prems(8) unfolding Q by auto
  obtain s1 where s1: "object_sync_satisfied p w s = Some s1" "inv xo xs E s1" "mutex_room (insert q D) s1" "consumed t w {q} s s1"
    using object_sync_satisfied_spec [OF Cons.prems(1,2) i Cons.prems(4) _ at D(1)] Cons.prems(5,6) by auto
  have yo: "sync_at p' s1 = sync_at p' s" for p' using s1(4) by (simp add: consumed_def sync_at_def)
  obtain wr1 where wr1: "y_waits s1 w = Some wr1" "w_thread wr1 = t" using s1(4) by (auto simp: consumed_def)
  have "\<forall>p\<in>set ps. osig s1 t p" using consumed_osig [OF s1(4)] Cons.prems(6,7) uniq by (metis distinct.simps(2) list.set_intros(2) singletonD)
  then obtain s' where s': "satisfy_all ps w s1 = Some s'" "inv xo xs E s'" "mutex_room (insert q D \<union> ?Q) s'" "consumed t w ?Q s1 s'"
    using Cons.IH [OF s1(2,3) _ wr1] Cons.prems(3,7) nq D(2) unfolding yo by auto
  have "consumed t w ({q} \<union> ?Q) s s'" using consumed_trans [OF s1(4) s'(4)] nq by simp
  then show ?case unfolding Q using s1(1) s'(1,2,3) by simp
qed

section \<open>The end of a wait\<close>

text \<open>\<open>s'\<close> is \<open>s\<close> after threads in \<open>T\<close> ended waits: for all other threads, objects are signaled less.\<close>

definition lowered :: "nat set \<Rightarrow> sync_state \<Rightarrow> sync_state \<Rightarrow> bool" where
  "lowered T s s' \<longleftrightarrow>
     y_proc_suspend s' = y_proc_suspend s \<and> y_current_time s' = y_current_time s \<and> y_monotonic_time s' = y_monotonic_time s \<and>
     (\<forall>u. u \<notin> T \<longrightarrow> y_threads s' u = y_threads s u) \<and>
     (\<forall>w r. y_waits s w = Some r \<and> w_thread r \<notin> T \<longrightarrow> y_waits s' w = Some r) \<and>
     dom (y_waits s') \<subseteq> dom (y_waits s) \<and>
     (\<forall>p r'. y_objs s' p = Some r' \<longrightarrow> (\<exists>r. y_objs s p = Some r \<and> ob_sync r = ob_sync r')) \<and>
     (\<forall>q r'. y_syncs s' q = Some r' \<longrightarrow> (\<exists>r. y_syncs s q = Some r \<and> body_le (sy_body r') (sy_body r)))"

lemma lowered_refl [simp]: "lowered T s s"
  by (auto simp: lowered_def)

lemma lowered_objs: "lowered T s s' \<Longrightarrow> y_objs s' p = Some r' \<Longrightarrow> \<exists>r. y_objs s p = Some r \<and> ob_sync r = ob_sync r'"
  by (simp add: lowered_def)

lemma lowered_syncs: "lowered T s s' \<Longrightarrow> y_syncs s' q = Some r' \<Longrightarrow> \<exists>r. y_syncs s q = Some r \<and> body_le (sy_body r') (sy_body r)"
  by (simp add: lowered_def)

lemma lowered_rest:
  assumes "lowered T s s'"
  shows "y_proc_suspend s' = y_proc_suspend s" "y_current_time s' = y_current_time s" "y_monotonic_time s' = y_monotonic_time s"
    "u \<notin> T \<Longrightarrow> y_threads s' u = y_threads s u" "y_waits s w = Some r \<Longrightarrow> w_thread r \<notin> T \<Longrightarrow> y_waits s' w = Some r"
    "dom (y_waits s') \<subseteq> dom (y_waits s)"
  using assms by (simp_all add: lowered_def)

lemma lowered_trans:
  assumes "lowered T s s'" "lowered T' s' s''"
  shows "lowered (T \<union> T') s s''"
proof -
  have "\<exists>r. y_objs s p = Some r \<and> ob_sync r = ob_sync r''" if "y_objs s'' p = Some r''" for p r''
    using lowered_objs [OF assms(2) that] lowered_objs [OF assms(1)] by fastforce
  moreover have "\<exists>r. y_syncs s q = Some r \<and> body_le (sy_body r'') (sy_body r)" if a: "y_syncs s'' q = Some r''" for q r''
  proof -
    obtain r' where r': "y_syncs s' q = Some r'" "body_le (sy_body r'') (sy_body r')" using lowered_syncs [OF assms(2) a] by blast
    then show ?thesis using lowered_syncs [OF assms(1) r'(1)] body_le_trans by blast
  qed
  moreover have "y_threads s'' u = y_threads s u" if "u \<notin> T \<union> T'" for u
    using that lowered_rest(4) [OF assms(1)] lowered_rest(4) [OF assms(2)] by simp
  moreover have "y_waits s'' w = Some r" if "y_waits s w = Some r \<and> w_thread r \<notin> T \<union> T'" for w r
    using that lowered_rest(5) [OF assms(1)] lowered_rest(5) [OF assms(2)] by simp
  ultimately show ?thesis using lowered_rest(1,2,3,6) [OF assms(1)] lowered_rest(1,2,3,6) [OF assms(2)] unfolding lowered_def by (simp; blast)
qed

lemma lowered_osig:
  assumes "lowered T s s'" "osig s' u p"
  shows "osig s u p"
proof -
  obtain o' r' where r': "y_objs s' p = Some o'" "y_syncs s' (ob_sync o') = Some r'" "sig u (sy_body r')"
    using assms(2) by (auto simp: osig_def split: option.splits)
  obtain o'' where "y_objs s p = Some o''" "ob_sync o'' = ob_sync o'" using lowered_objs [OF assms(1) r'(1)] by blast
  moreover obtain r where "y_syncs s (ob_sync o') = Some r" "body_le (sy_body r') (sy_body r)" using lowered_syncs [OF assms(1) r'(2)] by blast
  ultimately show ?thesis using r'(3) by (simp add: osig_def body_le_def)
qed

lemma inv_cong:
  assumes "inv xo xs E s" "y_syncs s' = y_syncs s" "y_objs s' = y_objs s" "\<forall>u. t_mutex_list (y_threads s' u) = t_mutex_list (y_threads s u)"
  shows "inv xo xs E s'"
proof -
  have "obj_ok xo E s'" using obj_ok_cong [of xo E s s'] assms by (simp add: inv_def)
  moreover have "syncs_ok xs E s'" "mutex_ok s'" using assms by (simp_all add: inv_def syncs_ok_def mutex_ok_def sync_at_def)
  ultimately show ?thesis by (simp add: inv_def)
qed

lemma mutex_room_cong: "mutex_room D s \<Longrightarrow> y_syncs s' = y_syncs s \<Longrightarrow> mutex_room D s'"
  by (simp add: mutex_room_def)

lemma osig_cong: "y_objs s' = y_objs s \<Longrightarrow> y_syncs s' = y_syncs s \<Longrightarrow> osig s' u p = osig s u p"
  by (simp add: osig_def split: option.splits)

text \<open>The objects a wait that ends with status \<open>st\<close> consumes.\<close>

definition eaten :: "thread_wait \<Rightarrow> u32 \<Rightarrow> nat set" where
  "eaten wr st =
     (if unat st < length (w_objs wr) then (if w_select wr = SELECT_WAIT_ALL then set (w_objs wr) else {w_objs wr ! unat st}) else {})"

definition sync_set :: "sync_state \<Rightarrow> nat set \<Rightarrow> nat set" where
  "sync_set s P = {q. \<exists>p\<in>P. sync_at p s = Some q}"

text \<open>A wait can end with a status if the objects it then consumes are signaled.\<close>

definition ready :: "nat \<Rightarrow> thread_wait \<Rightarrow> u32 \<Rightarrow> sync_state \<Rightarrow> bool" where
  "ready t wr st s \<longleftrightarrow> (\<forall>p\<in>eaten wr st. osig s t p)"

lemma end_wait_consumes:
  assumes inv: "inv xo xs E s" and room: "mutex_room {} s" and wr: "y_waits s w = Some wr" "w_thread wr = t"
    and E: "\<forall>j<length (w_objs wr). (w, j, w_objs wr ! j) \<in> E"
    and d: "w_select wr = SELECT_WAIT_ALL \<longrightarrow> distinct (w_objs wr)" and rd: "ready t wr st s"
  shows "\<exists>s' st'.
      (if unat st < length (w_objs wr) then
         do {
           let s = set_wait w (Some (wr\<lparr>w_status := st\<rparr>)) s;
           s \<leftarrow> (if w_select wr = SELECT_WAIT_ALL then satisfy_all (w_objs wr) w s else object_sync_satisfied (w_objs wr ! unat st) w s);
           r \<leftarrow> y_waits s w;
           Some (s, if w_abandoned r then w_status r + STATUS_ABANDONED_WAIT_0 else w_status r)
         }
       else Some (s, st)) = Some (s', st') \<and>
      inv xo xs E s' \<and> mutex_room (sync_set s (eaten wr st)) s' \<and> consumed t w (sync_set s (eaten wr st)) s s'"
proof (cases "unat st < length (w_objs wr)")
  case True
  define s1 where "s1 = set_wait w (Some (wr\<lparr>w_status := st\<rparr>)) s"
  have i1: "inv xo xs E s1" "mutex_room {} s1"
    using inv_cong [OF inv, of s1] mutex_room_cong [OF room, of s1] by (simp_all add: s1_def)
  have w1: "y_waits s1 w = Some (wr\<lparr>w_status := st\<rparr>)" by (simp add: s1_def)
  have at: "sync_at p s1 = sync_at p s" for p by (simp add: s1_def)
  have og: "osig s1 t p" if "p \<in> eaten wr st" for p using rd that osig_cong [of s1 s t p] by (simp add: ready_def s1_def)
  have c: "consumed t w Q s s2" if "consumed t w Q s1 s2" for Q s2 using that unfolding consumed_def s1_def by simp
  have "\<exists>s2. (if w_select wr = SELECT_WAIT_ALL then satisfy_all (w_objs wr) w s1 else object_sync_satisfied (w_objs wr ! unat st) w s1) = Some s2 \<and>
      inv xo xs E s2 \<and> mutex_room (sync_set s (eaten wr st)) s2 \<and> consumed t w (sync_set s (eaten wr st)) s1 s2"
  proof (cases "w_select wr = SELECT_WAIT_ALL")
    case all: True
    have "\<forall>p\<in>set (w_objs wr). \<exists>i. (w, i, p) \<in> E" using E by (metis in_set_conv_nth)
    moreover have "\<forall>p\<in>set (w_objs wr). osig s1 t p" using og all True by (simp add: eaten_def)
    ultimately show ?thesis using satisfy_all_spec [OF i1 _ w1, of "w_objs wr" t] d all True wr(2) by (simp add: sync_set_def eaten_def at)
  next
    case False
    let ?p = "w_objs wr ! unat st"
    have e: "(w, unat st, ?p) \<in> E" using E True by blast
    obtain o' where o': "y_objs s1 ?p = Some o'" using inv_entry [OF i1(1) e] by blast
    then have q: "sync_at ?p s1 = Some (ob_sync o')" by (simp add: sync_at_def)
    have "sync_set s (eaten wr st) = {ob_sync o'}" using q False True by (auto simp: sync_set_def eaten_def at)
    then show ?thesis using object_sync_satisfied_spec [OF i1 e w1 _ q] og [of ?p] False True wr(2) by (simp add: eaten_def)
  qed
  then obtain s2 where s2: "(if w_select wr = SELECT_WAIT_ALL then satisfy_all (w_objs wr) w s1 else object_sync_satisfied (w_objs wr ! unat st) w s1) = Some s2"
      "inv xo xs E s2" "mutex_room (sync_set s (eaten wr st)) s2" "consumed t w (sync_set s (eaten wr st)) s1 s2" by blast
  moreover obtain r where "y_waits s2 w = Some r" using s2(4) unfolding consumed_def by blast
  ultimately show ?thesis using True c [OF s2(4)] unfolding Let_def s1_def [symmetric] by simp
next
  case False
  then have "eaten wr st = {}" by (simp add: eaten_def)
  then show ?thesis using False inv room wr by (auto simp: sync_set_def consumed_def)
qed

lemma wait_entries_remove:
  assumes "y_waits s w = Some wr" "y_waits s' w = None" "\<forall>v. v \<noteq> w \<longrightarrow> y_waits s' v = y_waits s v"
  shows "wait_entries (y_waits s') = wait_entries (y_waits s) - {(w, 0 + j, w_objs wr ! j) |j. j < length (w_objs wr)}"
proof -
  have ys: "y_waits s' = (y_waits s)(w := None)" using assms(2,3) by auto
  show ?thesis using assms(1) unfolding wait_entries_def ys by (auto split: if_splits)
qed

lemma wait_ok_remove:
  assumes "wait_ok s" "t_waits (y_threads s t) = w # ws" "t_waits (y_threads s' t) = ws" "\<forall>u. u \<noteq> t \<longrightarrow> t_waits (y_threads s' u) = t_waits (y_threads s u)"
    "y_waits s' w = None" "\<forall>v. v \<noteq> w \<longrightarrow> y_waits s' v = y_waits s v"
  shows "wait_ok s'"
proof -
  have ys: "y_waits s' = (y_waits s)(w := None)" using assms(5,6) by auto
  have tw: "t_waits (y_threads s' u) = (if u = t then ws else t_waits (y_threads s u))" for u using assms(3,4) by simp
  obtain wr where wr: "y_waits s w = Some wr" "w_thread wr = t" using assms(1,2) unfolding wait_ok_def by (metis list.set_intros(1))
  have d: "distinct (w # ws)" using assms(1,2) unfolding wait_ok_def by metis
  have "v \<in> set (t_waits (y_threads s' (w_thread r))) \<and> length (w_objs r) \<le> MAXIMUM_WAIT_OBJECTS \<and> (w_select r = SELECT_WAIT_ALL \<longrightarrow> distinct (w_objs r))"
    if "y_waits s' v = Some r" for v r
  proof -
    have v: "y_waits s v = Some r" "v \<noteq> w" using that by (auto simp: ys split: if_splits)
    have "v \<in> set (t_waits (y_threads s (w_thread r))) \<and> length (w_objs r) \<le> MAXIMUM_WAIT_OBJECTS \<and> (w_select r = SELECT_WAIT_ALL \<longrightarrow> distinct (w_objs r))"
      using assms(1) v(1) unfolding wait_ok_def by blast
    then show ?thesis using v(2) assms(2) by (cases "w_thread r = t") (simp_all add: tw)
  qed
  moreover have "distinct (t_waits (y_threads s' u)) \<and> (\<forall>v\<in>set (t_waits (y_threads s' u)). \<exists>r. y_waits s' v = Some r \<and> w_thread r = u)" for u
  proof (cases "u = t")
    case True
    have "\<exists>r. y_waits s v = Some r \<and> w_thread r = t" if "v \<in> set ws" for v using assms(1,2) that unfolding wait_ok_def by (metis list.set_intros(2))
    then show ?thesis using d True by (auto simp: tw ys)
  next
    case False
    have "\<exists>r. y_waits s v = Some r \<and> w_thread r = u" if "v \<in> set (t_waits (y_threads s u))" for v using assms(1) that unfolding wait_ok_def by blast
    moreover have "distinct (t_waits (y_threads s u))" using assms(1) unfolding wait_ok_def by blast
    moreover have "w \<notin> set (t_waits (y_threads s u))" using calculation(1) [of w] False wr by auto
    ultimately show ?thesis using False wr by (auto simp: tw ys)
  qed
  moreover have "finite (dom (y_waits s'))" using assms(1) by (simp add: ys wait_ok_def)
  ultimately show ?thesis unfolding wait_ok_def by blast
qed

lemma consumed_less_lowered:
  assumes "consumed t w Q s s2" "fewer s2 s3" "y_waits s w = Some wr" "w_thread wr = t" "y_waits s' = (y_waits s3)(w := None)"
    "y_threads s' = y_threads s3" "y_objs s' = y_objs s3" "y_syncs s' = y_syncs s3" "y_proc_suspend s' = y_proc_suspend s3"
    "y_current_time s' = y_current_time s3" "y_monotonic_time s' = y_monotonic_time s3"
  shows "lowered {t} s s'" "q \<in> Q \<Longrightarrow> y_syncs s q = Some r \<Longrightarrow> y_syncs s' q = Some r' \<Longrightarrow> counted (sy_body r) \<Longrightarrow> level (sy_body r') < level (sy_body r)"
proof -
  note l = fewer_rest [OF assms(2)]
  have sync: "\<exists>r. y_syncs s q = Some r \<and> body_le (sy_body r') (sy_body r) \<and> (q \<in> Q \<longrightarrow> counted (sy_body r) \<longrightarrow> level (sy_body r') < level (sy_body r))"
    if a: "y_syncs s3 q = Some r'" for q r'
  proof -
    obtain r2 where r2: "y_syncs s2 q = Some r2" "sy_body r' = sy_body r2" using fewer_syncs [OF assms(2) a] by blast
    have "y_syncs s q = Some r2" if "q \<notin> Q" using assms(1) that r2(1) unfolding consumed_def by simp
    moreover have "\<exists>r. y_syncs s q = Some r" using assms(1) r2(1) unfolding consumed_def by fastforce
    ultimately show ?thesis using r2 assms(1) unfolding consumed_def by (cases "q \<in> Q") fastforce+
  qed
  then show "q \<in> Q \<Longrightarrow> y_syncs s q = Some r \<Longrightarrow> y_syncs s' q = Some r' \<Longrightarrow> counted (sy_body r) \<Longrightarrow> level (sy_body r') < level (sy_body r)"
    unfolding assms(8) by force
  have "\<exists>r. y_objs s p = Some r \<and> ob_sync r = ob_sync r'" if "y_objs s' p = Some r'" for p r'
    using fewer_objs [OF assms(2)] that assms(1) unfolding assms(7) consumed_def by auto
  moreover have "dom (y_waits s') \<subseteq> dom (y_waits s)" using assms(1) l unfolding assms(5) consumed_def by (auto split: if_splits)
  moreover have "y_waits s' v = Some r" if "y_waits s v = Some r \<and> w_thread r \<notin> {t}" for v r
  proof -
    have "v \<noteq> w" using that assms(3,4) by auto
    then show ?thesis using that assms(1) l unfolding assms(5) consumed_def by simp
  qed
  moreover have "\<exists>r. y_syncs s q = Some r \<and> body_le (sy_body r') (sy_body r)" if "y_syncs s' q = Some r'" for q r'
    using sync that unfolding assms(8) by blast
  ultimately show "lowered {t} s s'" using assms(1) l unfolding lowered_def consumed_def assms(6,9,10,11) by simp
qed

text \<open>\<open>end_wait\<close> succeeds, keeps the invariant, and makes objects less signaled; what it consumes is used up.\<close>

lemma end_wait_spec:
  assumes wf: "wf_sync xo xs s" and tw: "t_waits (y_threads s t) = w # ws" and wr: "y_waits s w = Some wr" and rd: "ready t wr st s"
  shows "\<exists>s' st'. end_wait t st s = Some (s', st') \<and> wf_sync xo xs s' \<and> lowered {t} s s' \<and> t_waits (y_threads s' t) = ws \<and> y_waits s' w = None \<and>
    (\<forall>q r r'. q \<in> sync_set s (eaten wr st) \<and> y_syncs s q = Some r \<and> y_syncs s' q = Some r' \<and> counted (sy_body r) \<longrightarrow> level (sy_body r') < level (sy_body r))"
proof -
  let ?E = "wait_entries (y_waits s)" and ?Q = "sync_set s (eaten wr st)"
  have inv: "inv xo xs ?E s" "mutex_room {} s" "wait_ok s" using wf by (simp_all add: wf_sync_def)
  have wt: "w_thread wr = t" using inv(3) tw wr unfolding wait_ok_def by (metis list.set_intros(1) option.inject)
  have d: "w_select wr = SELECT_WAIT_ALL \<longrightarrow> distinct (w_objs wr)" using inv(3) wr unfolding wait_ok_def by blast
  define s0 where "s0 = upd_thread t (t_waits_update (\<lambda>_. ws)) s"
  have i0: "inv xo xs ?E s0" "mutex_room {} s0" "y_waits s0 w = Some wr" "ready t wr st s0" "sync_set s0 (eaten wr st) = ?Q"
    using inv_cong [OF inv(1), of s0] mutex_room_cong [OF inv(2), of s0] wr rd osig_cong [of s0 s] by (simp_all add: s0_def ready_def sync_set_def)
  have E: "\<forall>j<length (w_objs wr). (w, j, w_objs wr ! j) \<in> ?E" using wr by (simp add: wait_entries_def)
  note c = end_wait_consumes [OF i0(1,2,3) wt E d i0(4)]
  obtain s2 st' where s2: "(if unat st < length (w_objs wr) then
         do {
           let s = set_wait w (Some (wr\<lparr>w_status := st\<rparr>)) s0;
           s \<leftarrow> (if w_select wr = SELECT_WAIT_ALL then satisfy_all (w_objs wr) w s else object_sync_satisfied (w_objs wr ! unat st) w s);
           r \<leftarrow> y_waits s w;
           Some (s, if w_abandoned r then w_status r + STATUS_ABANDONED_WAIT_0 else w_status r)
         }
       else Some (s0, st)) = Some (s2, st')"
      "inv xo xs ?E s2" "mutex_room ?Q s2" "consumed t w ?Q s0 s2"
    using c unfolding i0(5) by (elim exE conjE) (rule that)
  have at2: "sync_at p s2 = sync_at p s" for p using s2(4) by (simp add: consumed_def sync_at_def s0_def)
  obtain s3 where s3: "leave_queues 0 (w_objs wr) w s2 = Some s3" "inv xo xs (?E - {(w, 0 + j, w_objs wr ! j) |j. j < length (w_objs wr)}) s3" "fewer s2 s3"
      "mutex_room (?Q - {q. \<exists>p\<in>set (w_objs wr). sync_at p s2 = Some q}) s3"
    using leave_queues_spec [OF s2(2) _ s2(3), of "w_objs wr" w 0] E by auto
  have "?Q - {q. \<exists>p\<in>set (w_objs wr). sync_at p s2 = Some q} = {}" unfolding at2 by (auto simp: sync_set_def eaten_def split: if_splits)
  then have room: "mutex_room {} s3" using s3(4) by (rule subst)
  define s' where "s' = set_wait w None s3"
  have ew: "end_wait t st s = Some (s', st')" 
    using tw wr s2(1) [unfolded s0_def Let_def] s3(1) unfolding end_wait_def Let_def by (simp add: s'_def)
  have yw: "y_waits s' w = None" "\<forall>v. v \<noteq> w \<longrightarrow> y_waits s' v = y_waits s v"
    using s2(4) fewer_rest [OF s3(3)] unfolding consumed_def by (simp_all add: s'_def s0_def)
  have tws: "t_waits (y_threads s' t) = ws" "\<forall>u. u \<noteq> t \<longrightarrow> t_waits (y_threads s' u) = t_waits (y_threads s u)"
    using s2(4) fewer_rest [OF s3(3)] unfolding consumed_def by (simp_all add: s'_def s0_def)
  have "inv xo xs (wait_entries (y_waits s')) s'" unfolding wait_entries_remove [OF wr yw] by (rule inv_cong [OF s3(2)]) (simp_all add: s'_def)
  moreover have "mutex_room {} s'" by (rule mutex_room_cong [OF room]) (simp add: s'_def)
  ultimately have wf': "wf_sync xo xs s'" using wait_ok_remove [OF inv(3) tw tws yw] by (simp add: wf_sync_def)
  have "y_syncs s' = y_syncs s3" "y_syncs s0 = y_syncs s" by (simp_all add: s'_def s0_def)
  moreover have cd: "lowered {t} s0 s'"
      "\<And>q r r'. q \<in> ?Q \<Longrightarrow> y_syncs s0 q = Some r \<Longrightarrow> y_syncs s3 q = Some r' \<Longrightarrow> counted (sy_body r) \<Longrightarrow> level (sy_body r') < level (sy_body r)"
    using consumed_less_lowered [OF s2(4) s3(3) i0(3) wt, of s'] by (simp_all add: s'_def)
  have "lowered {t} s s0" by (auto simp: lowered_def s0_def)
  then have "lowered {t} s s'" using lowered_trans [OF _ cd(1)] by fastforce
  then show ?thesis using ew wf' tws(1) yw(1) cd(2) calculation by fastforce
qed

end
