(* ===== verification/Sync_Wake.thy ===== *)
theory Sync_Wake
  imports Sync_End
begin

text \<open>
  \<open>check_wait\<close> as a function of the state, and \<open>wake_thread\<close>: all waits of a thread that can end do end.
\<close>

section \<open>Checking a wait\<close>

fun first_index :: "('a \<Rightarrow> bool) \<Rightarrow> nat \<Rightarrow> 'a list \<Rightarrow> nat option" where
  "first_index P i [] = None"
| "first_index P i (x # xs) = (if P x then Some i else first_index P (i + 1) xs)"

lemma first_index_None [simp]: "first_index P i xs = None \<longleftrightarrow> (\<forall>x\<in>set xs. \<not> P x)"
  by (induction xs arbitrary: i) auto

lemma first_index_Some: "first_index P i xs = Some k \<Longrightarrow> i \<le> k \<and> k - i < length xs \<and> P (xs ! (k - i))"
proof (induction xs arbitrary: i)
  case (Cons x xs)
  show ?case
  proof (cases "P x")
    case False
    then have "i + 1 \<le> k \<and> k - (i + 1) < length xs \<and> P (xs ! (k - (i + 1)))" using Cons.IH [of "i + 1"] Cons.prems by simp
    then show ?thesis by (auto simp: nth_Cons')
  qed (use Cons.prems in simp)
qed simp

text \<open>The status of a wait of a thread, given the objects that are signaled for it.\<close>

definition obj_status :: "thread_wait \<Rightarrow> (nat \<Rightarrow> bool) \<Rightarrow> u32 option" where
  "obj_status wr sg =
     (if w_select wr = SELECT_WAIT_ALL then (if \<forall>p\<in>set (w_objs wr). sg p then Some 0 else None)
      else map_option of_nat (first_index sg 0 (w_objs wr)))"

definition other_status :: "thread_rec \<Rightarrow> thread_wait \<Rightarrow> int \<Rightarrow> int \<Rightarrow> u32 option" where
  "other_status th wr now mon =
     (if w_flags wr AND SELECT_ALERTABLE \<noteq> 0 \<and> t_user_apc th \<noteq> [] then Some STATUS_USER_APC
      else if w_when wr \<ge> 0 \<and> w_when wr \<le> now then Some STATUS_TIMEOUT
      else if w_when wr < 0 \<and> - w_when wr \<le> mon then Some STATUS_TIMEOUT
      else None)"

definition wait_status :: "thread_rec \<Rightarrow> thread_wait \<Rightarrow> bool \<Rightarrow> (nat \<Rightarrow> bool) \<Rightarrow> int \<Rightarrow> int \<Rightarrow> u32 option" where
  "wait_status th wr suspended sg now mon =
     (if w_flags wr AND SELECT_INTERRUPTIBLE \<noteq> 0 \<and> t_system_apc th \<noteq> [] then Some STATUS_KERNEL_APC
      else if w_flags wr AND SELECT_COOPERATIVE_SUSPEND \<noteq> 0 \<and> t_context th \<noteq> None then Some STATUS_THREAD_WAS_SUSPENDED
      else if suspended then None
      else (case obj_status wr sg of Some st \<Rightarrow> Some st | None \<Rightarrow> other_status th wr now mon))"

text \<open>The status of the current wait of thread \<open>t\<close>: it can end if there is one.\<close>

definition chk_with :: "(nat \<Rightarrow> bool) \<Rightarrow> nat \<Rightarrow> sync_state \<Rightarrow> u32 option" where
  "chk_with sg t s =
     (case t_waits (y_threads s t) of [] \<Rightarrow> None
      | w # ws \<Rightarrow>
          (case y_waits s w of None \<Rightarrow> None
           | Some wr \<Rightarrow> wait_status (y_threads s t) wr (is_thread_suspended t s) sg (y_current_time s) (y_monotonic_time s)))"

definition chk :: "nat \<Rightarrow> sync_state \<Rightarrow> u32 option" where
  "chk t s = chk_with (osig s t) t s"

lemma obj_status_mono: "\<forall>p. sg' p \<longrightarrow> sg p \<Longrightarrow> obj_status wr sg = None \<Longrightarrow> obj_status wr sg' = None"
  by (auto simp: obj_status_def split: if_splits)

lemma wait_status_mono:
  assumes sg: "\<forall>p. sg' p \<longrightarrow> sg p" and no: "wait_status th wr su sg now mon = None"
  shows "wait_status th wr su sg' now mon = None"
  using no obj_status_mono [OF sg] unfolding wait_status_def by (auto split: if_splits option.splits)

lemma chk_with_mono: "\<forall>p. sg' p \<longrightarrow> sg p \<Longrightarrow> chk_with sg t s = None \<Longrightarrow> chk_with sg' t s = None"
  unfolding chk_with_def by (auto split: list.splits option.splits intro: wait_status_mono)

lemma small_entry_index: "i < length xs \<Longrightarrow> length xs \<le> MAXIMUM_WAIT_OBJECTS \<Longrightarrow> unat (of_nat i :: u32) = i"
  by (simp add: MAXIMUM_WAIT_OBJECTS_def unsigned_of_nat take_bit_nat_eq_self)

text \<open>A wait that ends with the status of an object consumes signaled objects only.\<close>

lemma eaten_other:
  assumes "length (w_objs wr) \<le> MAXIMUM_WAIT_OBJECTS"
  shows "eaten wr STATUS_KERNEL_APC = {}" "eaten wr STATUS_THREAD_WAS_SUSPENDED = {}" "other_status th wr now mon = Some st \<Longrightarrow> eaten wr st = {}"
  using assms by (auto simp: eaten_def other_status_def MAXIMUM_WAIT_OBJECTS_def split: if_splits)

lemma obj_status_ready:
  assumes st: "obj_status wr sg = Some st" and len: "length (w_objs wr) \<le> MAXIMUM_WAIT_OBJECTS"
  shows "\<forall>p\<in>eaten wr st. sg p"
proof (cases "w_select wr = SELECT_WAIT_ALL")
  case True
  then show ?thesis using st by (auto simp: obj_status_def eaten_def split: if_splits)
next
  case False
  then obtain k where k: "first_index sg 0 (w_objs wr) = Some k" "st = of_nat k" using st by (auto simp: obj_status_def)
  then show ?thesis using first_index_Some [OF k(1)] small_entry_index [OF _ len, of k] False by (auto simp: eaten_def)
qed

lemma status_cases:
  "(if a then Some x else if b then Some y else if c then None else case m of Some st \<Rightarrow> Some st | None \<Rightarrow> m') = Some st \<Longrightarrow>
    st = x \<or> st = y \<or> m = Some st \<or> m' = Some st"
  by (auto split: if_splits option.splits)

lemma wait_status_ready:
  assumes "wait_status th wr su sg now mon = Some st" "length (w_objs wr) \<le> MAXIMUM_WAIT_OBJECTS"
  shows "\<forall>p\<in>eaten wr st. sg p"
proof -
  consider "st = STATUS_KERNEL_APC" | "st = STATUS_THREAD_WAS_SUSPENDED" | "obj_status wr sg = Some st" | "other_status th wr now mon = Some st"
    using status_cases [OF assms(1) [unfolded wait_status_def]] by blast
  then show ?thesis
  proof cases
    case 3
    then show ?thesis by (rule obj_status_ready [OF _ assms(2)])
  next
    case 4
    then have "eaten wr st = {}" by (rule eaten_other(3) [OF assms(2)])
    then show ?thesis by simp
  qed (simp_all only: eaten_other(1,2) [OF assms(2)] ball_empty)
qed

text \<open>If a wait can end only because more objects are signaled, it consumes one of these.\<close>

lemma obj_status_gain:
  assumes st: "obj_status wr sg' = Some st" and no: "obj_status wr sg = None" and len: "length (w_objs wr) \<le> MAXIMUM_WAIT_OBJECTS"
  shows "\<exists>p\<in>eaten wr st. sg' p \<and> \<not> sg p"
proof (cases "w_select wr = SELECT_WAIT_ALL")
  case True
  have n: "\<not> (\<forall>p\<in>set (w_objs wr). sg p)" using no True by (auto simp: obj_status_def split: if_splits)
  then have "0 < length (w_objs wr)" by auto
  moreover have "(\<forall>p\<in>set (w_objs wr). sg' p) \<and> st = 0" using st True by (auto simp: obj_status_def split: if_splits)
  ultimately show ?thesis using n True by (auto simp: eaten_def)
next
  case False
  have n: "\<forall>p\<in>set (w_objs wr). \<not> sg p" using no False by (simp add: obj_status_def)
  obtain k where k: "first_index sg' 0 (w_objs wr) = Some k" "st = of_nat k" using st False by (auto simp: obj_status_def)
  have "k < length (w_objs wr)" "sg' (w_objs wr ! k)" using first_index_Some [OF k(1)] by simp_all
  then show ?thesis using n False k(2) small_entry_index [OF _ len, of k] by (auto simp: eaten_def)
qed

lemma wait_status_gain:
  assumes st: "wait_status th wr su sg' now mon = Some st" and no: "wait_status th wr su sg now mon = None"
    and len: "length (w_objs wr) \<le> MAXIMUM_WAIT_OBJECTS"
  shows "\<exists>p\<in>eaten wr st. sg' p \<and> \<not> sg p"
proof -
  have "obj_status wr sg' = Some st" "obj_status wr sg = None"
    using st no unfolding wait_status_def by (auto split: if_splits option.splits)
  then show ?thesis by (rule obj_status_gain [OF _ _ len])
qed

text \<open>\<open>check_wait\<close> computes this status; if the wait ends with a cooperative suspend it marks the context.\<close>

definition coop :: "nat \<Rightarrow> sync_state \<Rightarrow> sync_state" where
  "coop t s = upd_thread t (t_context_update (map_option (cx_cooperative_update (\<lambda>_. True)))) s"

lemma signaled_loops:
  assumes "syncs_ok xs E s" "\<forall>p\<in>set ps. \<exists>o' r. y_objs s p = Some o' \<and> y_syncs s (ob_sync o') = Some r" "y_waits s w = Some wr"
  shows "all_signaled ps w s = Some (s, \<forall>p\<in>set ps. osig s (w_thread wr) p)"
    "first_signaled i ps w s = Some (s, first_index (osig s (w_thread wr)) i ps)"
proof -
  have "object_sync_signaled p w s = Some (s, osig s (w_thread wr) p)" if "p \<in> set ps" for p
    using assms(2) that object_sync_signaled_eq [OF assms(1) _ _ assms(3)] by blast
  then show "all_signaled ps w s = Some (s, \<forall>p\<in>set ps. osig s (w_thread wr) p)"
    "first_signaled i ps w s = Some (s, first_index (osig s (w_thread wr)) i ps)"
    by (induction ps arbitrary: i) auto
qed

lemma wf_syncD:
  assumes "wf_sync xo xs s" "y_waits s w = Some wr" "i < length (w_objs wr)"
  shows "\<exists>o' r. y_objs s (w_objs wr ! i) = Some o' \<and> y_syncs s (ob_sync o') = Some r \<and> (w, i) \<in> set (sy_queue r)"
proof -
  have "inv xo xs (wait_entries (y_waits s)) s" "(w, i, w_objs wr ! i) \<in> wait_entries (y_waits s)"
    using assms by (auto simp: wf_sync_def wait_entries_def)
  then show ?thesis using inv_entry by blast
qed

lemma wf_sync_wait:
  assumes "wf_sync xo xs s" "y_waits s w = Some wr"
  shows "length (w_objs wr) \<le> MAXIMUM_WAIT_OBJECTS" "w \<in> set (t_waits (y_threads s (w_thread wr)))"
  using assms unfolding wf_sync_def wait_ok_def by blast+

lemma wf_sync_head:
  assumes "wf_sync xo xs s" "t_waits (y_threads s t) = w # ws"
  obtains wr where "y_waits s w = Some wr" "w_thread wr = t"
  using assms unfolding wf_sync_def wait_ok_def by (metis list.set_intros(1))

lemma check_wait_eq:
  assumes wf: "wf_sync xo xs s" and tw: "t_waits (y_threads s t) = w # ws"
  shows "check_wait t s = Some (s, chk t s) \<or> chk t s \<noteq> None \<and> check_wait t s = Some (coop t s, chk t s)"
proof -
  obtain wr where wr: "y_waits s w = Some wr" "w_thread wr = t" by (rule wf_sync_head [OF assms])
  have ok: "syncs_ok xs (wait_entries (y_waits s)) s" using wf by (simp add: wf_sync_def inv_def)
  have "\<forall>p\<in>set (w_objs wr). \<exists>o' r. y_objs s p = Some o' \<and> y_syncs s (ob_sync o') = Some r"
    using wf_syncD [OF wf wr(1)] by (metis in_set_conv_nth)
  note loops = signaled_loops [OF ok this wr(1), unfolded wr(2)]
  show ?thesis
    unfolding check_wait_def chk_def chk_with_def wait_status_def obj_status_def other_status_def coop_def using tw wr(1) by (simp add: loops Let_def)
qed

section \<open>Waking up a thread\<close>

lemma wf_sync_cong:
  assumes "wf_sync xo xs s" "y_syncs s' = y_syncs s" "y_objs s' = y_objs s" "y_waits s' = y_waits s"
    "\<forall>u. t_waits (y_threads s' u) = t_waits (y_threads s u) \<and> t_mutex_list (y_threads s' u) = t_mutex_list (y_threads s u)"
  shows "wf_sync xo xs s'"
proof -
  have "inv xo xs (wait_entries (y_waits s)) s'" by (rule inv_cong [of _ _ _ s]) (use assms in \<open>simp_all add: wf_sync_def\<close>)
  moreover have "mutex_room {} s'" by (rule mutex_room_cong [of _ s]) (use assms in \<open>simp_all add: wf_sync_def\<close>)
  moreover have "wait_ok s'" using assms unfolding wf_sync_def wait_ok_def by simp
  ultimately show ?thesis using assms(4) by (simp add: wf_sync_def)
qed

text \<open>The updates of the context of a thread around the end of a wait.\<close>

definition thread_only :: "nat \<Rightarrow> sync_state \<Rightarrow> sync_state \<Rightarrow> bool" where
  "thread_only t s s' \<longleftrightarrow>
     y_syncs s' = y_syncs s \<and> y_objs s' = y_objs s \<and> y_waits s' = y_waits s \<and> y_proc_suspend s' = y_proc_suspend s \<and>
     y_current_time s' = y_current_time s \<and> y_monotonic_time s' = y_monotonic_time s \<and>
     (\<forall>u. u \<noteq> t \<longrightarrow> y_threads s' u = y_threads s u) \<and>
     t_waits (y_threads s' t) = t_waits (y_threads s t) \<and> t_mutex_list (y_threads s' t) = t_mutex_list (y_threads s t)"

lemma thread_only_coop [simp]: "thread_only t s (coop t s)"
  by (simp add: thread_only_def coop_def)

lemma thread_only_wakeup [simp]: "thread_only t s (send_thread_wakeup t c st s)"
  unfolding thread_only_def send_thread_wakeup_def Let_def by (auto split: option.splits prod.splits if_splits)

lemma thread_only_refl [simp]: "thread_only t s s"
  by (simp add: thread_only_def)

lemma thread_only_wf: "thread_only t s s' \<Longrightarrow> wf_sync xo xs s \<Longrightarrow> wf_sync xo xs s'"
  by (rule wf_sync_cong) (auto simp: thread_only_def)

lemma thread_only_lowered: "thread_only t s s' \<Longrightarrow> lowered {t} s s'"
  by (simp add: thread_only_def lowered_def)

text \<open>
  \<open>wake_thread\<close> always returns, after ending the waits that can end; the count is 0 exactly if the current
  wait cannot end, and otherwise what that wait consumes is used up.
\<close>

definition used_up :: "nat set \<Rightarrow> sync_state \<Rightarrow> sync_state \<Rightarrow> bool" where
  "used_up Q s s' \<longleftrightarrow>
     (\<forall>q r r'. q \<in> Q \<and> y_syncs s q = Some r \<and> y_syncs s' q = Some r' \<and> counted (sy_body r) \<longrightarrow> level (sy_body r') < level (sy_body r))"

lemma used_up_lowered:
  assumes "used_up Q s s1" "lowered T s1 s'"
  shows "used_up Q s s'"
  unfolding used_up_def
proof (intro allI impI, elim conjE)
  fix q r r' assume a: "q \<in> Q" "y_syncs s q = Some r" "y_syncs s' q = Some r'" "counted (sy_body r)"
  obtain r1 where r1: "y_syncs s1 q = Some r1" "body_le (sy_body r') (sy_body r1)" using lowered_syncs [OF assms(2) a(3)] by blast
  then have "level (sy_body r1) < level (sy_body r)" using assms(1) a unfolding used_up_def by blast
  then show "level (sy_body r') < level (sy_body r)" using r1(2) by (simp add: body_le_def)
qed

definition woken :: "nat \<Rightarrow> nat \<Rightarrow> sync_state \<Rightarrow> sync_state \<Rightarrow> bool" where
  "woken t n s s' \<longleftrightarrow>
     lowered {t} s s' \<and> chk t s' = None \<and> (n = 0 \<longrightarrow> s' = s) \<and> (n \<noteq> 0 \<longrightarrow> chk t s \<noteq> None \<and> card (dom (y_waits s')) < card (dom (y_waits s))) \<and>
     (\<forall>w ws wr st. t_waits (y_threads s t) = w # ws \<and> y_waits s w = Some wr \<and> chk t s = Some st \<longrightarrow>
        n \<noteq> 0 \<and> used_up (sync_set s (eaten wr st)) s s')"

lemma end_wait_step:
  assumes wf: "wf_sync xo xs s" and tw: "t_waits (y_threads s t) = w # ws" and wr: "y_waits s w = Some wr" and st: "chk t s = Some st"
    and s1: "thread_only t s s1"
  shows "\<exists>s' st'. end_wait t st s1 = Some (s', st') \<and> wf_sync xo xs s' \<and> lowered {t} s s' \<and> t_waits (y_threads s' t) = ws \<and>
           card (dom (y_waits s')) < card (dom (y_waits s)) \<and> used_up (sync_set s (eaten wr st)) s s'"
proof -
  have "wait_status (y_threads s t) wr (is_thread_suspended t s) (osig s t) (y_current_time s) (y_monotonic_time s) = Some st"
    using st tw wr by (simp add: chk_def chk_with_def)
  then have "\<forall>p\<in>eaten wr st. osig s t p" by (rule wait_status_ready [OF _ wf_sync_wait(1) [OF wf wr]])
  then have rd: "ready t wr st s1" using s1 osig_cong [of s1 s] by (simp add: ready_def thread_only_def)
  have t1: "t_waits (y_threads s1 t) = w # ws" "y_waits s1 = y_waits s" "y_syncs s1 = y_syncs s" "sync_set s1 = sync_set s"
    using s1 tw by (auto simp: thread_only_def sync_set_def sync_at_def fun_eq_iff)
  obtain s' st' where s': "end_wait t st s1 = Some (s', st')" "wf_sync xo xs s'" "lowered {t} s1 s'" "t_waits (y_threads s' t) = ws" "y_waits s' w = None"
      "used_up (sync_set s (eaten wr st)) s s'"
    using end_wait_spec [OF thread_only_wf [OF s1 wf] t1(1) _ rd] wr unfolding t1 used_up_def by blast
  have "lowered {t} s s'" using lowered_trans [OF thread_only_lowered [OF s1] s'(3)] by simp
  moreover have "dom (y_waits s') \<subset> dom (y_waits s)" using lowered_rest(6) [OF s'(3)] s'(5) wr unfolding t1 by blast
  moreover have "finite (dom (y_waits s))" using wf by (simp add: wf_sync_def wait_ok_def)
  ultimately show ?thesis using s' by (blast intro: psubset_card_mono)
qed

lemma wake_loop_spec:
  assumes "wf_sync xo xs s"
  shows "\<exists>s' n. wake_loop c t s = Some (s', c + n) \<and> wf_sync xo xs s' \<and> woken t n s s'"
  using assms
proof (induction "length (t_waits (y_threads s t))" arbitrary: s c rule: less_induct)
  case less
  show ?case
  proof (cases "t_waits (y_threads s t)")
    case Nil
    then have "chk t s = None" by (simp add: chk_def chk_with_def)
    then show ?thesis using Nil less.prems wake_loop.simps [of c t s] by (auto simp: woken_def)
  next
    case (Cons w ws)
    obtain wr where wr: "y_waits s w = Some wr" "w_thread wr = t" by (rule wf_sync_head [OF less.prems Cons])
    show ?thesis
    proof (cases "chk t s")
      case None
      then have "check_wait t s = Some (s, None)" using check_wait_eq [OF less.prems Cons] by auto
      then show ?thesis using None Cons less.prems wake_loop.simps [of c t s] by (auto simp: woken_def)
    next
      case (Some st)
      obtain s1 where s1: "check_wait t s = Some (s1, Some st)" "thread_only t s s1"
        using check_wait_eq [OF less.prems Cons] Some by fastforce
      obtain s2 st' where s2: "end_wait t st s1 = Some (s2, st')" "wf_sync xo xs s2" "lowered {t} s s2" "t_waits (y_threads s2 t) = ws"
          "card (dom (y_waits s2)) < card (dom (y_waits s))" "used_up (sync_set s (eaten wr st)) s s2"
        using end_wait_step [OF less.prems Cons wr(1) Some s1(2)] by blast
      define s3 where "s3 = (if w_cookie wr \<noteq> 0 then send_thread_wakeup t (w_cookie wr) st' s2 else s2)"
      have o3: "thread_only t s2 s3" by (simp add: s3_def)
      have t3: "t_waits (y_threads s3 t) = ws" "card (dom (y_waits s3)) < card (dom (y_waits s))" using o3 s2(4,5) by (simp_all add: thread_only_def)
      obtain s' n where s': "wake_loop (c + 1) t s3 = Some (s', c + 1 + n)" "wf_sync xo xs s'" "woken t n s3 s'"
        using less.hyps [of s3 "c + 1"] Cons t3(1) thread_only_wf [OF o3 s2(2)] by auto
      have d: "lowered {t} s2 s'" using lowered_trans [OF thread_only_lowered [OF o3], of "{t}"] s'(3) by (simp add: woken_def)
      have "lowered {t} s s'" using lowered_trans [OF s2(3) d] by simp
      moreover have "card (dom (y_waits s')) < card (dom (y_waits s))" using s'(3) t3(2) by (cases "n = 0") (auto simp: woken_def)
      moreover have "used_up (sync_set s (eaten wr st)) s s'" by (rule used_up_lowered [OF s2(6) d])
      ultimately have "woken t (n + 1) s s'" using s'(3) wr(1) Cons Some by (auto simp: woken_def)
      moreover have "t_waits (y_threads s1 t) = w # ws" "y_waits s1 w = Some wr" using s1(2) Cons wr(1) by (simp_all add: thread_only_def)
      then have "wake_loop c t s = wake_loop (c + 1) t s3"
        using wake_loop.simps [of c t s] Cons s1(1) s2(1) by (simp add: s3_def)
      ultimately show ?thesis using s'(1,2) by (metis add.assoc add.commute)
    qed
  qed
qed

lemma wake_thread_spec:
  assumes "wf_sync xo xs s"
  obtains s' n where "wake_thread t s = Some (s', n)" "wf_sync xo xs s'" "woken t n s s'"
  using wake_loop_spec [OF assms, of 0 t] by (auto simp: wake_thread_def)

end
