(* ===== verification/Sync_Scan.thy ===== *)
theory Sync_Scan
  imports Sync_Wake
begin

text \<open>
  \<open>wake_up\<close>: the scan of a wait queue ends, and no waiting thread whose wait can end is left behind.
\<close>

section \<open>Settled states\<close>

text \<open>No thread waits although its wait can end.\<close>

definition settled :: "sync_state \<Rightarrow> bool" where
  "settled s \<longleftrightarrow> (\<forall>t. chk t s = None)"

text \<open>No wait could end if the synchronization object \<open>q\<close> were not signaled.\<close>

definition settled_without :: "nat \<Rightarrow> sync_state \<Rightarrow> bool" where
  "settled_without q s \<longleftrightarrow> (\<forall>t. chk_with (\<lambda>p. osig s t p \<and> sync_at p s \<noteq> Some q) t s = None)"

lemma is_thread_suspended_cong: "y_threads s' t = y_threads s t \<Longrightarrow> y_proc_suspend s' = y_proc_suspend s \<Longrightarrow> is_thread_suspended t s' = is_thread_suspended t s"
  by (simp add: is_thread_suspended_def)

text \<open>The ends of waits of other threads do not let a wait end.\<close>

lemma lowered_chk_with:
  assumes wf: "wf_sync xo xs s" and d: "lowered T s s'" and t: "t \<notin> T" and sg: "\<forall>p. sg' p \<longrightarrow> sg p" and no: "chk_with sg t s = None"
  shows "chk_with sg' t s' = None"
proof (cases "t_waits (y_threads s t)")
  case Nil
  then show ?thesis using lowered_rest(4) [OF d t] by (simp add: chk_with_def)
next
  case (Cons w ws)
  obtain wr where wr: "y_waits s w = Some wr" "w_thread wr = t" by (rule wf_sync_head [OF wf Cons])
  have "y_waits s' w = Some wr" using lowered_rest(5) [OF d wr(1)] wr(2) t by simp
  moreover have "is_thread_suspended t s' = is_thread_suspended t s"
    by (rule is_thread_suspended_cong [OF lowered_rest(4) [OF d t] lowered_rest(1) [OF d]])
  ultimately have "chk_with sg t s' = chk_with sg t s"
    using lowered_rest [OF d] t Cons wr(1) by (simp add: chk_with_def)
  then show ?thesis using chk_with_mono [OF sg] no by simp
qed

lemma lowered_sync_at: "lowered T s s' \<Longrightarrow> osig s' u p \<Longrightarrow> sync_at p s' = sync_at p s"
  using lowered_objs [of T s s' p] by (fastforce simp: osig_def sync_at_def split: option.splits)

lemma woken_settled_without:
  assumes wf: "wf_sync xo xs s" and fr: "settled_without q s" and w: "woken t n s s'"
  shows "settled_without q s'"
  unfolding settled_without_def
proof (intro allI)
  fix u
  have d: "lowered {t} s s'" using w by (simp add: woken_def)
  show "chk_with (\<lambda>p. osig s' u p \<and> sync_at p s' \<noteq> Some q) u s' = None"
  proof (cases "u = t")
    case True
    have "chk_with (osig s' t) t s' = None" using w by (simp add: woken_def chk_def)
    then show ?thesis unfolding True by (rule chk_with_mono [rotated]) simp
  next
    case False
    have sg: "\<forall>p. osig s' u p \<and> sync_at p s' \<noteq> Some q \<longrightarrow> osig s u p \<and> sync_at p s \<noteq> Some q"
    proof (intro allI impI, elim conjE)
      fix p assume a: "osig s' u p" "sync_at p s' \<noteq> Some q"
      then show "osig s u p \<and> sync_at p s \<noteq> Some q" using lowered_osig [OF d a(1)] lowered_sync_at [OF d a(1)] by simp
    qed
    show ?thesis by (rule lowered_chk_with [OF wf d _ sg]) (use False fr in \<open>simp_all add: settled_without_def\<close>)
  qed
qed

text \<open>A thread that can be woken up because of \<open>q\<close> consumes \<open>q\<close> and is in the queue of \<open>q\<close>.\<close>

lemma settled_without_consumes:
  assumes wf: "wf_sync xo xs s" and fr: "settled_without q s" and st: "chk t s = Some st"
  shows "\<exists>w ws wr p. t_waits (y_threads s t) = w # ws \<and> y_waits s w = Some wr \<and> w_thread wr = t \<and> p \<in> eaten wr st \<and>
           sync_at p s = Some q \<and> osig s t p"
proof -
  obtain w ws where tw: "t_waits (y_threads s t) = w # ws" using st by (cases "t_waits (y_threads s t)") (auto simp: chk_def chk_with_def)
  obtain wr where wr: "y_waits s w = Some wr" "w_thread wr = t" by (rule wf_sync_head [OF wf tw])
  note c = st [unfolded chk_def chk_with_def tw list.case wr(1) option.case]
    fr [unfolded settled_without_def chk_with_def, rule_format, of t, unfolded tw list.case wr(1) option.case]
  have "\<exists>p\<in>eaten wr st. osig s t p \<and> \<not> (osig s t p \<and> sync_at p s \<noteq> Some q)"
    by (rule wait_status_gain [OF c wf_sync_wait(1) [OF wf wr(1)]])
  then show ?thesis using tw wr by blast
qed

lemma settled_without_queue:
  assumes wf: "wf_sync xo xs s" and fr: "settled_without q s" and st: "chk t s \<noteq> None" and r: "y_syncs s q = Some r"
  shows "\<exists>j<length (sy_queue r). \<exists>wr. y_waits s (fst (sy_queue r ! j)) = Some wr \<and> w_thread wr = t"
proof -
  obtain st' where st': "chk t s = Some st'" using st by blast
  obtain w wr p where p: "y_waits s w = Some wr" "w_thread wr = t" "p \<in> eaten wr st'" "sync_at p s = Some q"
    using settled_without_consumes [OF wf fr st'] by blast
  have "p \<in> set (w_objs wr)" using p(3) by (auto simp: eaten_def split: if_splits)
  then obtain i where i: "i < length (w_objs wr)" "w_objs wr ! i = p" by (auto simp: in_set_conv_nth)
  then obtain o' r' where "y_objs s p = Some o'" "y_syncs s (ob_sync o') = Some r'" "(w, i) \<in> set (sy_queue r')"
    using wf_syncD [OF wf p(1) i(1)] by blast
  then have "(w, i) \<in> set (sy_queue r)" using p(4) r by (simp add: sync_at_def)
  then show ?thesis using p(1,2) by (metis fst_conv in_set_conv_nth)
qed

lemma woken_uses:
  assumes wf: "wf_sync xo xs s" and fr: "settled_without q s" and w: "woken t n s s'" and n: "n \<noteq> 0"
    and r: "y_syncs s q = Some r" "y_syncs s' q = Some r'" "counted (sy_body r)"
  shows "level (sy_body r') < level (sy_body r)"
proof -
  have "chk t s \<noteq> None" using n w by (simp add: woken_def)
  then obtain st where st: "chk t s = Some st" by blast
  obtain v ws wr p where p: "t_waits (y_threads s t) = v # ws" "y_waits s v = Some wr" "p \<in> eaten wr st" "sync_at p s = Some q"
    using settled_without_consumes [OF wf fr st] by blast
  then have "used_up (sync_set s (eaten wr st)) s s'" using w st unfolding woken_def by blast
  moreover have "q \<in> sync_set s (eaten wr st)" using p by (auto simp: sync_set_def)
  ultimately show ?thesis using r unfolding used_up_def by blast
qed

section \<open>The scan\<close>

text \<open>Someone holds a reference that keeps the synchronization object alive.\<close>

definition kept_alive :: "(nat \<Rightarrow> nat) \<Rightarrow> (nat \<Rightarrow> nat) \<Rightarrow> nat \<Rightarrow> sync_state \<Rightarrow> bool" where
  "kept_alive xo xs q s \<longleftrightarrow> 0 < xs q \<or> (\<exists>p. 0 < xo p \<and> sync_at p s = Some q)"

lemma kept_sync:
  assumes "wf_sync xo xs s" "kept_alive xo xs q s"
  obtains r where "y_syncs s q = Some r"
proof -
  have "obj_ok xo (wait_entries (y_waits s)) s" "syncs_ok xs (wait_entries (y_waits s)) s" using assms(1) by (simp_all add: wf_sync_def inv_def)
  then have o: "\<And>p r. y_objs s p = Some r \<Longrightarrow> ob_sync r \<in> dom (y_syncs s)" "y_syncs s q = None \<Longrightarrow> xs q = 0"
    unfolding obj_ok_def syncs_ok_def by blast+
  have "y_syncs s q \<noteq> None"
  proof (cases "0 < xs q")
    case False
    then obtain p r where "y_objs s p = Some r" "ob_sync r = q" using assms(2) by (auto simp: kept_alive_def sync_at_def)
    then show ?thesis using o(1) by blast
  qed (use o(2) in auto)
  then show thesis using that by blast
qed

lemma lowered_kept_at:
  assumes "wf_sync xo xs s'" "lowered T s s'" "0 < xo p"
  shows "sync_at p s' = sync_at p s"
proof -
  have "obj_ok xo (wait_entries (y_waits s')) s'" using assms(1) by (simp add: wf_sync_def inv_def)
  then have "y_objs s' p \<noteq> None" using assms(3) unfolding obj_ok_def by (metis less_numeral_extra(3))
  then show ?thesis using lowered_objs [OF assms(2)] by (fastforce simp: sync_at_def)
qed

lemma kept_lowered:
  assumes "wf_sync xo xs s'" "lowered T s s'" "kept_alive xo xs q s"
  shows "kept_alive xo xs q s'"
  using assms(3) lowered_kept_at [OF assms(1,2)] unfolding kept_alive_def by auto

lemma level_0: "counted b \<Longrightarrow> level b = 0 \<Longrightarrow> \<not> sig u b"
  by (cases b) (auto simp: word_less_nat_alt)

lemma unsignaled_settled:
  assumes "settled_without q s" "\<And>r. y_syncs s q = Some r \<Longrightarrow> counted (sy_body r) \<and> level (sy_body r) = 0"
  shows "settled s"
  unfolding settled_def
proof (intro allI)
  fix t
  have "\<forall>p. osig s t p \<longrightarrow> osig s t p \<and> sync_at p s \<noteq> Some q"
    using assms(2) level_0 by (auto simp: osig_def sync_at_def split: option.splits)
  then show "chk t s = None" unfolding chk_def by (rule chk_with_mono) (use assms(1) in \<open>simp add: settled_without_def\<close>)
qed

text \<open>
  The scan from position \<open>i\<close>.  If no wait could end before \<open>q\<close> became signaled: the threads of earlier
  entries cannot be woken up, and the maximum, if there is one, is at least the number of waits that the
  object can still satisfy.
\<close>

definition scan_ok :: "nat \<Rightarrow> int \<Rightarrow> nat \<Rightarrow> sync_state \<Rightarrow> bool" where
  "scan_ok q mx i s \<longleftrightarrow>
     settled_without q s \<and>
     (\<forall>r j wr. y_syncs s q = Some r \<and> j < i \<and> j < length (sy_queue r) \<and> y_waits s (fst (sy_queue r ! j)) = Some wr \<longrightarrow> chk (w_thread wr) s = None) \<and>
     (\<forall>r. 0 < mx \<and> y_syncs s q = Some r \<longrightarrow> counted (sy_body r) \<and> int (level (sy_body r)) \<le> mx)"

definition waiting :: "sync_state \<Rightarrow> nat set" where
  "waiting s = {t. t_waits (y_threads s t) \<noteq> []}"

lemma lowered_mono: "lowered T s s' \<Longrightarrow> T \<subseteq> T' \<Longrightarrow> lowered T' s s'"
  unfolding lowered_def by (simp add: subset_iff) blast

lemma woken_waiting:
  assumes "woken t n s s'"
  shows "waiting s' \<subseteq> waiting s" "lowered (waiting s) s s'"
proof -
  have d: "lowered {t} s s'" using assms by (simp add: woken_def)
  have t: "t \<in> waiting s" if "n \<noteq> 0" using that assms by (auto simp: woken_def waiting_def chk_def chk_with_def split: list.splits)
  show "waiting s' \<subseteq> waiting s"
  proof
    fix u assume "u \<in> waiting s'"
    then show "u \<in> waiting s" using t assms lowered_rest(4) [OF d, of u] by (cases "n = 0"; cases "u = t") (auto simp: woken_def waiting_def)
  qed
  show "lowered (waiting s) s s'" using t assms lowered_mono [OF d] by (cases "n = 0") (auto simp: woken_def)
qed

lemma scan_end:
  assumes "wf_sync xo xs s" "scan_ok q mx i s" "y_syncs s q = Some r" "length (sy_queue r) \<le> i"
  shows "settled s"
  unfolding settled_def
proof (intro allI, rule ccontr)
  fix t assume "chk t s \<noteq> None"
  then obtain j wr where "j < length (sy_queue r)" "y_waits s (fst (sy_queue r ! j)) = Some wr" "w_thread wr = t"
    using settled_without_queue [of xo xs s q t r] assms by (auto simp: scan_ok_def)
  then show False using assms \<open>chk t s \<noteq> None\<close> unfolding scan_ok_def by (meson order_less_le_trans)
qed

text \<open>The scan goes on at the next entry, or starts again.\<close>

lemma scan_entry:
  assumes wf: "wf_sync xo xs s" and r: "y_syncs s q = Some r" "i < length (sy_queue r)"
  obtains wr s' n where "y_waits s (fst (sy_queue r ! i)) = Some wr" "wake_thread (w_thread wr) s = Some (s', n)" "wf_sync xo xs s'"
    "woken (w_thread wr) n s s'"
proof -
  obtain w k where e: "sy_queue r ! i = (w, k)" by fastforce
  have "(w, k) \<in> set (sy_queue r)" using r(2) e by (metis nth_mem)
  moreover have "rec_ok xs (wait_entries (y_waits s)) (\<lambda>p. sync_at p s) q r"
    using wf r(1) syncs_okD(1) by (auto simp: wf_sync_def inv_def)
  ultimately obtain wr where wr: "y_waits s w = Some wr" by (auto simp: rec_ok_def wait_entries_def)
  show thesis by (rule wake_thread_spec [OF wf, of "w_thread wr"]) (rule that [of wr], use wr e in auto)
qed

lemma scan_step:
  assumes wf: "wf_sync xo xs s" and sc: "scan_ok q mx i s" and r: "y_syncs s q = Some r" "i < length (sy_queue r)"
    and w: "y_waits s (fst (sy_queue r ! i)) = Some wr" "woken (w_thread wr) n s s'"
  shows "n = 0 \<Longrightarrow> scan_ok q mx (i + 1) s" "n \<noteq> 0 \<Longrightarrow> mx \<noteq> 1 \<Longrightarrow> scan_ok q (if mx \<noteq> 0 then mx - 1 else mx) 0 s'"
    "n \<noteq> 0 \<Longrightarrow> mx = 1 \<Longrightarrow> settled s'"
proof -
  have fr: "settled_without q s" using sc by (simp add: scan_ok_def)
  have d: "lowered {w_thread wr} s s'" using w(2) by (simp add: woken_def)
  note fr' = woken_settled_without [OF wf fr w(2)]
  show "scan_ok q mx (i + 1) s" if n: "n = 0"
  proof -
    have "chk (w_thread wr) s = None" using w(2) n by (auto simp: woken_def)
    then show ?thesis using sc r w(1) unfolding scan_ok_def by (auto simp: less_Suc_eq)
  qed
  have lv: "counted (sy_body r') \<and> int (level (sy_body r')) \<le> mx - 1" if n: "n \<noteq> 0" "0 < mx" and r': "y_syncs s' q = Some r'" for r'
  proof -
    have c: "counted (sy_body r)" "int (level (sy_body r)) \<le> mx" using sc r(1) n(2) by (auto simp: scan_ok_def)
    have "level (sy_body r') < level (sy_body r)" by (rule woken_uses [OF wf fr w(2) n(1) r(1) r' c(1)])
    moreover have "counted (sy_body r') = counted (sy_body r)" using lowered_syncs [OF d r'] r(1) by (auto simp: body_le_def)
    ultimately show ?thesis using c by simp
  qed
  show "scan_ok q (if mx \<noteq> 0 then mx - 1 else mx) 0 s'" if n: "n \<noteq> 0" "mx \<noteq> 1"
    using fr' lv [OF n(1)] by (auto simp: scan_ok_def)
  show "settled s'" if n: "n \<noteq> 0" "mx = 1"
    by (rule unsignaled_settled [OF fr']) (use lv [OF n(1)] n(2) in auto)
qed

text \<open>The scan returns, since every restart follows the end of a wait.\<close>

lemma wake_scan_spec:
  assumes "wf_sync xo xs s" "kept_alive xo xs q s"
  shows "\<exists>s'. wake_scan q mx i s = Some s' \<and> wf_sync xo xs s' \<and> kept_alive xo xs q s' \<and> lowered (waiting s) s s' \<and> (scan_ok q mx i s \<longrightarrow> settled s')"
  using assms
proof (induction "(card (dom (y_waits s)), length (sy_queue (the (y_syncs s q))) - i)" arbitrary: s i mx
    rule: wf_induct_rule [OF wf_lex_prod [OF wf_less_than wf_less_than]])
  case 1
  note IH = 1(1) and wf = 1(2) and hl = 1(3)
  obtain r where r: "y_syncs s q = Some r" by (rule kept_sync [OF wf hl])
  show ?case
  proof (cases "length (sy_queue r) \<le> i")
    case True
    then show ?thesis using wake_scan.simps [of q mx i s] r scan_end [OF wf _ r True] wf hl by auto
  next
    case False
    then have len: "i < length (sy_queue r)" by simp
    obtain wr s' n where w: "y_waits s (fst (sy_queue r ! i)) = Some wr" "wake_thread (w_thread wr) s = Some (s', n)" "wf_sync xo xs s'"
        "woken (w_thread wr) n s s'" by (rule scan_entry [OF wf r len])
    note sc = scan_step [OF wf _ r len w(1,4)] and dr = woken_waiting [OF w(4)]
    have hl': "kept_alive xo xs q s'" by (rule kept_lowered [OF w(3) dr(2) hl])
    have step: "wake_scan q mx i s =
        (if n = 0 then wake_scan q mx (i + 1) s' else if mx = 1 then Some s' else wake_scan q (if mx \<noteq> 0 then mx - 1 else mx) 0 s')"
      by (subst wake_scan.simps) (use False in \<open>simp add: r w(1,2)\<close>)
    consider "n = 0" "s' = s" | "n \<noteq> 0" "mx = 1" | "n \<noteq> 0" "mx \<noteq> 1" using w(4) by (auto simp: woken_def)
    then show ?thesis
    proof cases
      case 1
      have "\<exists>s'. wake_scan q mx (i + 1) s = Some s' \<and> wf_sync xo xs s' \<and> kept_alive xo xs q s' \<and> lowered (waiting s) s s' \<and> (scan_ok q mx (i + 1) s \<longrightarrow> settled s')"
        by (rule IH [of s "i + 1" mx]) (use r len wf hl in auto)
      then show ?thesis using 1 step sc(1) by auto
    next
      case 2
      then show ?thesis using step w(3) dr hl' sc(3) by auto
    next
      case 3
      have "card (dom (y_waits s')) < card (dom (y_waits s))" using w(4) 3 by (simp add: woken_def)
      then obtain s'' where s'': "wake_scan q (if mx \<noteq> 0 then mx - 1 else mx) 0 s' = Some s''" "wf_sync xo xs s''" "kept_alive xo xs q s''"
          "lowered (waiting s') s' s''" "scan_ok q (if mx \<noteq> 0 then mx - 1 else mx) 0 s' \<longrightarrow> settled s''"
        using IH [of s' 0 "if mx \<noteq> 0 then mx - 1 else mx"] w(3) hl' by auto
      have "lowered (waiting s \<union> waiting s') s s''" by (rule lowered_trans [OF dr(2) s''(4)])
      moreover have "waiting s \<union> waiting s' = waiting s" using dr(1) by blast
      ultimately show ?thesis using step s'' 3 sc(2) by auto
    qed
  qed
qed

end
