(* ===== verification/Sync_Signal.thy ===== *)
theory Sync_Signal
  imports Sync_Scan
begin

text \<open>
  Signaling events, semaphores and mutexes, and the end of a thread that owns mutexes: the operations
  return, keep the invariant and leave no wait that could end.
\<close>

section \<open>Changing a synchronization object\<close>

lemma set_body_wf:
  assumes wf: "wf_sync xo xs s" and r: "y_syncs s q = Some r" and b: "body_ok b" "owned b = owned (sy_body r)"
    and own: "\<forall>u. (\<exists>c ab. b = Mutex_sync (Some u) c ab) \<longleftrightarrow> (\<exists>c ab. sy_body r = Mutex_sync (Some u) c ab)"
    and room: "\<forall>ow c ab. b = Mutex_sync ow c ab \<longrightarrow> (\<exists>ow' c' ab'. sy_body r = Mutex_sync ow' c' ab' \<and> unat c \<le> unat c')"
  shows "wf_sync xo xs (set_sync q (Some (r\<lparr>sy_body := b\<rparr>)) s)"
proof -
  let ?r = "r\<lparr>sy_body := b\<rparr>" and ?E = "wait_entries (y_waits s)"
  let ?s = "set_sync q (Some ?r) s"
  have i: "obj_ok xo ?E s" "syncs_ok xs ?E s" "mutex_ok s" "mutex_room {} s" "wait_ok s" using wf by (simp_all add: wf_sync_def inv_def)
  have "obj_ok xo ?E ?s" by (rule obj_ok_cong [OF i(1)]) (use r in auto)
  moreover have "rec_ok xs ?E (\<lambda>p. sync_at p s) q ?r"
    using syncs_okD(1) [OF i(2) r] b unfolding rec_ok_def by (elim conjE, intro conjI) simp_all
  then have "syncs_ok xs ?E ?s" by (intro syncs_ok_update [OF i(2) r]) simp_all
  moreover have "mutex_ok ?s"
  proof -
    have "(\<exists>c ab. body ?s q' = Some (Mutex_sync (Some u) c ab)) \<longleftrightarrow> (\<exists>c ab. body s q' = Some (Mutex_sync (Some u) c ab))" for q' u
      using own [rule_format, of u] r by (cases "q' = q") simp_all
    then show ?thesis using i(3) unfolding mutex_ok_def by simp
  qed
  moreover have "mutex_room {} ?s"
    unfolding mutex_room_def
  proof (intro allI impI, elim conjE)
    fix q' r' ow c ab assume a: "y_syncs ?s q' = Some r'" "sy_body r' = Mutex_sync ow c ab"
    show "unat c + length (sy_queue r') < 2 ^ 32 + of_bool (q' \<in> {})"
    proof (cases "q' = q")
      case True
      then obtain ow' c' ab' where c': "sy_body r = Mutex_sync ow' c' ab'" "unat c \<le> unat c'" using a room by auto
      then have "unat c' + length (sy_queue r) < 2 ^ 32 + of_bool (q \<in> {})" using i(4) r unfolding mutex_room_def by blast
      then show ?thesis using c'(2) True a(1) by auto
    next
      case False
      then show ?thesis using i(4) a unfolding mutex_room_def by simp
    qed
  qed
  moreover have "wait_ok ?s" using i(5) by (simp add: wait_ok_def)
  ultimately show ?thesis by (simp add: wf_sync_def inv_def)
qed

text \<open>The waits and what they look at, apart from the synchronization objects.\<close>

definition same_waits :: "sync_state \<Rightarrow> sync_state \<Rightarrow> bool" where
  "same_waits s s' \<longleftrightarrow>
     y_waits s' = y_waits s \<and> y_objs s' = y_objs s \<and> y_proc_suspend s' = y_proc_suspend s \<and>
     y_current_time s' = y_current_time s \<and> y_monotonic_time s' = y_monotonic_time s \<and>
     (\<forall>u. \<exists>l. y_threads s' u = t_mutex_list_update (\<lambda>_. l) (y_threads s u))"

lemma same_waits_set_sync [simp]: "same_waits s (set_sync q r s)"
proof -
  have "y_threads s u = t_mutex_list_update (\<lambda>_. t_mutex_list (y_threads s u)) (y_threads s u)" for u by simp
  then show ?thesis unfolding same_waits_def set_sync_simps by blast
qed

lemma same_waits_chk:
  assumes "same_waits s s'"
  shows "chk_with sg t s' = chk_with sg t s"
proof -
  obtain l where l: "y_threads s' t = t_mutex_list_update (\<lambda>_. l) (y_threads s t)" using assms unfolding same_waits_def by blast
  have "is_thread_suspended t s' = is_thread_suspended t s" using assms l by (simp add: is_thread_suspended_def same_waits_def Let_def)
  moreover have "other_status (y_threads s' t) wr now mon = other_status (y_threads s t) wr now mon" for wr now mon
    by (simp add: l other_status_def)
  then have "wait_status (y_threads s' t) wr su sg now mon = wait_status (y_threads s t) wr su sg now mon" for wr su now mon
    by (simp add: l wait_status_def split: option.split)
  ultimately show ?thesis using assms l by (simp add: chk_with_def same_waits_def split: list.split option.split)
qed

lemma same_waits_settled:
  assumes "same_waits s s'" "settled s" "\<And>t p. osig s' t p \<Longrightarrow> osig s t p"
  shows "settled s'"
  unfolding settled_def chk_def same_waits_chk [OF assms(1)]
proof (intro allI)
  fix t
  show "chk_with (osig s' t) t s = None"
    by (rule chk_with_mono [of _ "osig s t"]) (use assms(2,3) in \<open>auto simp: settled_def chk_def\<close>)
qed

lemma same_waits_settled_without:
  assumes "same_waits s s'" "settled s" "\<And>q'. q' \<noteq> q \<Longrightarrow> y_syncs s' q' = y_syncs s q'"
  shows "settled_without q s'"
  unfolding settled_without_def same_waits_chk [OF assms(1)]
proof (intro allI)
  fix t
  have o: "y_objs s' = y_objs s" using assms(1) by (simp add: same_waits_def)
  have "\<forall>p. osig s' t p \<and> sync_at p s' \<noteq> Some q \<longrightarrow> osig s t p"
  proof (intro allI impI, elim conjE)
    fix p assume a: "osig s' t p" "sync_at p s' \<noteq> Some q"
    obtain o' where o': "y_objs s p = Some o'" "ob_sync o' \<noteq> q" using a by (auto simp: osig_def sync_at_def o split: option.splits)
    then show "osig s t p" using a(1) assms(3) [OF o'(2)] by (simp add: osig_def o)
  qed
  then show "chk_with (\<lambda>p. osig s' t p \<and> sync_at p s' \<noteq> Some q) t s = None"
    by (rule chk_with_mono) (use assms(2) in \<open>simp add: settled_def chk_def\<close>)
qed

lemma osig_body:
  assumes "y_syncs s q = Some r" "\<And>u. sig u b \<Longrightarrow> sig u (sy_body r)" "osig (set_sync q (Some (r\<lparr>sy_body := b\<rparr>)) s) t p"
  shows "osig s t p"
  using assms by (auto simp: osig_def split: option.splits if_splits)

lemma kept_same: "y_objs s' = y_objs s \<Longrightarrow> kept_alive xo xs q s' = kept_alive xo xs q s"
  by (simp add: kept_alive_def sync_at_def)

text \<open>\<open>wake_up\<close> after an object has become signaled.\<close>

lemma wake_up_spec:
  assumes "wf_sync xo xs s'" "same_waits s s'" "\<And>q'. q' \<noteq> q \<Longrightarrow> y_syncs s' q' = y_syncs s q'" "kept_alive xo xs q s'"
    "\<And>r. 0 < mx \<Longrightarrow> y_syncs s' q = Some r \<Longrightarrow> counted (sy_body r) \<and> int (level (sy_body r)) \<le> mx"
  shows "\<exists>s''. wake_up q mx s' = Some s'' \<and> wf_sync xo xs s'' \<and> (settled s \<longrightarrow> settled s'') \<and> kept_alive xo xs q s'' \<and> lowered (waiting s') s' s''"
proof -
  have "scan_ok q mx 0 s'" if "settled s"
    using assms(5) same_waits_settled_without [OF assms(2) that assms(3)] by (auto simp: scan_ok_def)
  then show ?thesis unfolding wake_up_def using wake_scan_spec [OF assms(1,4), of mx 0] by blast
qed

section \<open>Events and semaphores\<close>

text \<open>
  After an operation on \<open>q\<close>: the invariant holds, no wait can end if none could before, and threads that
  did not wait are unchanged.
\<close>

definition stable :: "(nat \<Rightarrow> nat) \<Rightarrow> sync_state \<Rightarrow> sync_state \<Rightarrow> bool" where
  "stable xo s s' \<longleftrightarrow>
     (\<forall>p. 0 < xo p \<longrightarrow> sync_at p s' = sync_at p s) \<and>
     (\<forall>q' r'. y_syncs s' q' = Some r' \<longrightarrow> (\<exists>r. y_syncs s q' = Some r \<and> fixed_part (sy_body r') = fixed_part (sy_body r)))"

lemma stable_refl [simp]: "stable xo s s"
  by (simp add: stable_def)

lemma stable_trans:
  assumes "stable xo s s'" "stable xo s' s''"
  shows "stable xo s s''"
proof -
  have "\<exists>r. y_syncs s q = Some r \<and> fixed_part (sy_body r'') = fixed_part (sy_body r)" if a: "y_syncs s'' q = Some r''" for q r''
  proof -
    obtain r' where "y_syncs s' q = Some r'" "fixed_part (sy_body r'') = fixed_part (sy_body r')" using assms(2) a unfolding stable_def by blast
    then show ?thesis using assms(1) unfolding stable_def by fastforce
  qed
  then show ?thesis using assms unfolding stable_def by simp
qed

lemma lowered_stable:
  assumes "wf_sync xo xs s'" "lowered T s s'"
  shows "stable xo s s'"
proof -
  have "\<exists>r. y_syncs s q = Some r \<and> fixed_part (sy_body r') = fixed_part (sy_body r)" if "y_syncs s' q = Some r'" for q r'
    using lowered_syncs [OF assms(2) that] by (auto simp: body_le_def)
  then show ?thesis using lowered_kept_at [OF assms] by (simp add: stable_def)
qed

lemma set_sync_stable: "y_syncs s q = Some r \<Longrightarrow> fixed_part b = fixed_part (sy_body r) \<Longrightarrow> stable xo s (set_sync q (Some (r\<lparr>sy_body := b\<rparr>)) s)"
  by (auto simp: stable_def)

lemma kept_stable: "stable xo s s' \<Longrightarrow> kept_alive xo xs q s \<Longrightarrow> kept_alive xo xs q s'"
  by (auto simp: kept_alive_def stable_def)

definition after_signal :: "(nat \<Rightarrow> nat) \<Rightarrow> (nat \<Rightarrow> nat) \<Rightarrow> nat \<Rightarrow> sync_state \<Rightarrow> sync_state \<Rightarrow> bool" where
  "after_signal xo xs q s s' \<longleftrightarrow>
     wf_sync xo xs s' \<and> (settled s \<longrightarrow> settled s') \<and> kept_alive xo xs q s' \<and> stable xo s s' \<and> (\<forall>u. u \<notin> waiting s \<longrightarrow> y_threads s' u = y_threads s u)"

lemma waiting_same: "same_waits s s' \<Longrightarrow> waiting s' = waiting s"
  unfolding same_waits_def waiting_def by (metis thread_rec.select_convs(1) thread_rec.surjective thread_rec.update_convs(2))

lemma sint_level: "0 < sint (c :: u32) \<Longrightarrow> uint c \<le> sint c"
proof -
  assume a: "0 < sint c"
  have "sint c = uint c - 2 ^ 32 * of_bool (bit (uint c) 31)"
    using take_bit_int_eq_self [of "uint c" 32] unsigned_less [where ?'a = int and w = c]
    by (simp add: sint_uint signed_take_bit_eq_take_bit_minus)
  then show ?thesis using a unsigned_less [where ?'a = int and w = c] by (cases "bit (uint c) 31") simp_all
qed

lemma signal_spec:
  assumes wf: "wf_sync xo xs s" and hl: "kept_alive xo xs q s" and r: "y_syncs s q = Some r"
    and wf1: "wf_sync xo xs (set_sync q (Some (r\<lparr>sy_body := b\<rparr>)) s)" and b: "fixed_part b = fixed_part (sy_body r)" "0 < mx \<Longrightarrow> counted b \<and> int (level b) \<le> mx"
  shows "\<exists>s'. wake_up q mx (set_sync q (Some (r\<lparr>sy_body := b\<rparr>)) s) = Some s' \<and> after_signal xo xs q s s'"
proof -
  let ?s = "set_sync q (Some (r\<lparr>sy_body := b\<rparr>)) s"
  have "kept_alive xo xs q ?s" using hl kept_same [of ?s s] by simp
  then have "\<exists>s'. wake_up q mx ?s = Some s' \<and> wf_sync xo xs s' \<and> (settled s \<longrightarrow> settled s') \<and> kept_alive xo xs q s' \<and> lowered (waiting ?s) ?s s'"
    by (intro wake_up_spec [OF wf1 same_waits_set_sync]) (use b(2) in auto)
  then obtain s' where s': "wake_up q mx ?s = Some s'" "wf_sync xo xs s'" "settled s \<longrightarrow> settled s'" "kept_alive xo xs q s'" "lowered (waiting ?s) ?s s'" by blast
  have w: "waiting ?s = waiting s" by (simp add: waiting_same)
  have "stable xo s s'" by (rule stable_trans [OF set_sync_stable [OF r b(1)] lowered_stable [OF s'(2,5)]])
  then show ?thesis using s' lowered_rest(4) [OF s'(5)] unfolding w after_signal_def by auto
qed

lemma reset_spec:
  assumes wf: "wf_sync xo xs s" and hl: "kept_alive xo xs q s" and r: "y_syncs s q = Some r"
    and wf1: "wf_sync xo xs (set_sync q (Some (r\<lparr>sy_body := b\<rparr>)) s)" and b: "fixed_part b = fixed_part (sy_body r)" "\<And>u. sig u b \<Longrightarrow> sig u (sy_body r)"
  shows "after_signal xo xs q s (set_sync q (Some (r\<lparr>sy_body := b\<rparr>)) s)"
proof -
  let ?s = "set_sync q (Some (r\<lparr>sy_body := b\<rparr>)) s"
  have "settled ?s" if "settled s" by (rule same_waits_settled [OF same_waits_set_sync that]) (rule osig_body [OF r b(2)])
  then show ?thesis using wf1 hl kept_same [of ?s s] set_sync_stable [OF r b(1)] by (simp add: after_signal_def)
qed

lemma event_sync_signal_spec:
  assumes wf: "wf_sync xo xs s" and hl: "kept_alive xo xs q s" and b: "body s q = Some (Event_sync m sg)"
  shows "\<exists>s'. event_sync_signal q v s = Some s' \<and> after_signal xo xs q s s'"
proof -
  obtain r where r: "y_syncs s q = Some r" "sy_body r = Event_sync m sg" using b by auto
  have wf1: "wf_sync xo xs (set_sync q (Some (r\<lparr>sy_body := Event_sync m v\<rparr>)) s)"
    by (rule set_body_wf [OF wf r(1)]) (simp_all add: r(2) body_ok_def owned_def)
  show ?thesis
  proof (cases v)
    case True
    have "\<exists>s'. wake_up q (if m then 0 else 1) (set_sync q (Some (r\<lparr>sy_body := Event_sync m v\<rparr>)) s) = Some s' \<and> after_signal xo xs q s s'"
      by (rule signal_spec [OF wf hl r(1) wf1]) (auto simp: r(2) True split: if_splits)
    then show ?thesis using r True by (simp add: event_sync_signal_def set_body_def)
  next
    case False
    have "after_signal xo xs q s (set_sync q (Some (r\<lparr>sy_body := Event_sync m v\<rparr>)) s)"
      by (rule reset_spec [OF wf hl r(1) wf1]) (simp_all add: r(2) False)
    then show ?thesis using r False by (simp add: event_sync_signal_def set_body_def)
  qed
qed

lemma release_semaphore_spec:
  assumes wf: "wf_sync xo xs s" and hl: "kept_alive xo xs q s" and b: "body s q = Some (Semaphore_sync c m)"
  shows "\<exists>s'. release_semaphore q count s =
             Some (s', c, if c + count < c \<or> m < c + count then Some STATUS_SEMAPHORE_LIMIT_EXCEEDED else None) \<and> after_signal xo xs q s s'"
proof -
  obtain r where r: "y_syncs s q = Some r" "sy_body r = Semaphore_sync c m" using b by auto
  let ?s = "\<lambda>x. set_sync q (Some (r\<lparr>sy_body := Semaphore_sync x m\<rparr>)) s"
  have wf1: "wf_sync xo xs (?s (c + count))" if "\<not> (c + count < c \<or> m < c + count)"
    by (rule set_body_wf [OF wf r(1)]) (use that in \<open>simp_all add: r(2) body_ok_def owned_def not_less\<close>)
  consider "c + count < c \<or> m < c + count" | "\<not> (c + count < c \<or> m < c + count)" "c \<noteq> 0" | "\<not> (c + count < c \<or> m < c + count)" "c = 0" by blast
  then show ?thesis
  proof cases
    case 1
    have "after_signal xo xs q s s" using wf hl by (simp add: after_signal_def)
    then show ?thesis using r 1 by (auto simp: release_semaphore_def)
  next
    case 2
    have "after_signal xo xs q s (?s (c + count))"
      by (rule reset_spec [OF wf hl r(1) wf1 [OF 2(1)]]) (use 2 in \<open>simp_all add: r(2) word_gt_0\<close>)
    then show ?thesis using r 2 by (simp add: release_semaphore_def set_body_def)
  next
    case 3
    have "\<exists>s'. wake_up q (sint count) (?s (c + count)) = Some s' \<and> after_signal xo xs q s s'"
      by (rule signal_spec [OF wf hl r(1) wf1 [OF 3(1)]]) (use 3 in \<open>auto simp: r(2) sint_level\<close>)
    then show ?thesis using r 3 by (auto simp: release_semaphore_def set_body_def)
  qed
qed

section \<open>Mutexes\<close>

lemma fewer_lowered: "fewer s s' \<Longrightarrow> lowered {} s s'"
proof -
  assume l: "fewer s s'"
  have "\<exists>r. y_syncs s q = Some r \<and> body_le (sy_body r') (sy_body r)" if "y_syncs s' q = Some r'" for q r'
    using fewer_syncs [OF l that] by auto
  then show ?thesis using fewer_objs [OF l] fewer_rest [OF l] by (simp add: lowered_def)
qed

lemma fewer_settled:
  assumes "wf_sync xo xs s" "fewer s s'" "settled s"
  shows "settled s'"
  unfolding settled_def chk_def
proof (intro allI)
  fix t
  show "chk_with (osig s' t) t s' = None"
    by (rule lowered_chk_with [OF assms(1) fewer_lowered [OF assms(2)], of _ _ "osig s t"])
      (use lowered_osig [OF fewer_lowered [OF assms(2)]] assms(3) in \<open>auto simp: settled_def chk_def\<close>)
qed

lemma rec_ok_xs: "xs q = xs' q \<Longrightarrow> rec_ok xs E at q r = rec_ok xs' E at q r"
  by (simp only: rec_ok_def)

text \<open>\<open>release_object\<close> on a synchronization object with a reference from elsewhere.\<close>

lemma release_sync_spec:
  assumes wf: "wf_sync xo (xs(q := xs q + 1)) s"
  shows "\<exists>s'. release_sync q s = Some s' \<and> wf_sync xo xs s' \<and> fewer s s'"
proof -
  let ?E = "wait_entries (y_waits s)" and ?xs = "xs(q := xs q + 1)"
  have i: "obj_ok xo ?E s" "syncs_ok ?xs ?E s" "mutex_ok s" "mutex_room {} s" "wait_ok s" using wf by (simp_all add: wf_sync_def inv_def)
  have "y_syncs s q \<noteq> None" using i(2) unfolding syncs_ok_def by (metis Suc_eq_plus1 Zero_not_Suc fun_upd_same)
  then obtain r where r: "y_syncs s q = Some r" by blast
  have k: "sy_refs r = xs q + 1 + of_bool (\<exists>p. sync_at p s = Some q) + of_bool (owned (sy_body r))"
    "distinct (sy_queue r)" "set (sy_queue r) = {(w, i). \<exists>p. (w, i, p) \<in> ?E \<and> sync_at p s = Some q}" "body_ok (sy_body r)"
    using syncs_okD(1) [OF i(2) r] by (simp_all add: rec_ok_def)
  define x where "x = (if sy_refs r > 1 then Some (r\<lparr>sy_refs := sy_refs r - 1\<rparr>) else None)"
  define s' where "s' = set_sync q x s"
  have one: "xs q = 0" "\<And>p. sync_at p s \<noteq> Some q" "\<not> owned (sy_body r)" "sy_queue r = []" if "\<not> 1 < sy_refs r"
  proof -
    have a: "xs q = 0" "\<not> (\<exists>p. sync_at p s = Some q)" "\<not> owned (sy_body r)" using that k(1) by (auto simp: of_bool_def split: if_splits)
    then show "xs q = 0" "\<And>p. sync_at p s \<noteq> Some q" "\<not> owned (sy_body r)" "sy_queue r = []" using k(3) by auto
  qed
  have rel: "release_sync q s = Some s'"
  proof (cases "1 < sy_refs r")
    case False
    then show ?thesis using r k(1) one(3,4) unfolding release_sync_def by (simp add: owned_def s'_def x_def)
  qed (use r in \<open>simp add: release_sync_def s'_def x_def\<close>)
  have "obj_ok xo ?E s'"
  proof -
    have "ob_sync o' \<in> dom (y_syncs s')" if "y_objs s p = Some o'" for p o'
    proof -
      have "ob_sync o' \<in> dom (y_syncs s)" using i(1) that unfolding obj_ok_def by blast
      moreover have "ob_sync o' \<noteq> q" if "\<not> 1 < sy_refs r" using one(2) [OF that, of p] \<open>y_objs s p = Some o'\<close> by (auto simp: sync_at_def)
      ultimately show ?thesis by (auto simp: s'_def x_def domIff)
    qed
    moreover have o: "y_objs s' = y_objs s" by (simp add: s'_def)
    ultimately show ?thesis using i(1) unfolding obj_ok_def o by blast
  qed
  moreover have "syncs_ok xs ?E s'"
  proof -
    have "rec_ok xs ?E (\<lambda>p. sync_at p s) q' r'" if a: "y_syncs s' q' = Some r'" for q' r'
    proof (cases "q' = q")
      case True
      then have "r' = r\<lparr>sy_refs := sy_refs r - 1\<rparr>" "1 < sy_refs r" using a by (auto simp: s'_def x_def split: if_splits)
      then show ?thesis using True k unfolding rec_ok_def by (intro conjI) simp_all
    next
      case False
      then show ?thesis using syncs_okD(1) [OF i(2), of q' r'] a by (simp add: s'_def rec_ok_xs [of xs q' ?xs])
    qed
    moreover have "xs q' + 2 < MAX_REFS" for q' using i(2) unfolding syncs_ok_def by (cases "q' = q") (auto split: if_splits)
    moreover have "xs q' = 0" if "y_syncs s' q' = None" for q'
      using that i(2) one(1) unfolding syncs_ok_def by (cases "q' = q") (auto simp: s'_def x_def split: if_splits)
    ultimately show ?thesis by (simp add: syncs_ok_def s'_def)
  qed
  moreover have "mutex_ok s'"
  proof -
    have "(body s' q' = Some (Mutex_sync (Some t) c ab)) = (body s q' = Some (Mutex_sync (Some t) c ab))" for q' t c ab
      using r k(4) one(3) by (auto simp: s'_def x_def owned_def body_ok_def split: sync_body.splits if_splits)
    then show ?thesis using i(3) unfolding mutex_ok_def by (simp add: s'_def)
  qed
  moreover have l: "fewer s s'" using r by (auto simp: fewer_def s'_def x_def split: if_splits)
  moreover have "wait_ok s'" using i(5) by (simp add: wait_ok_def s'_def)
  moreover have "y_waits s' = y_waits s" by (simp add: s'_def)
  ultimately show ?thesis using rel fewer_room [OF l i(4)] by (simp add: wf_sync_def inv_def)
qed

text \<open>The owner gives up a mutex: the reference of the owner is kept until the waiters are woken up.\<close>

lemma disown_wf:
  fixes ab' :: bool
  assumes wf: "wf_sync xo xs s" and r: "y_syncs s q = Some r" "sy_body r = Mutex_sync (Some t) c ab" and x: "xs q + 3 < MAX_REFS"
  defines "s' \<equiv> set_sync q (Some (r\<lparr>sy_body := Mutex_sync None 0 ab'\<rparr>)) (upd_thread t (t_mutex_list_update (remove1 q)) s)"
  shows "wf_sync xo (xs(q := xs q + 1)) s'"
proof -
  let ?r = "r\<lparr>sy_body := Mutex_sync None 0 ab'\<rparr>" and ?E = "wait_entries (y_waits s)" and ?xs = "xs(q := xs q + 1)"
  have i: "obj_ok xo ?E s" "syncs_ok xs ?E s" "mutex_ok s" "mutex_room {} s" "wait_ok s" using wf by (simp_all add: wf_sync_def inv_def)
  have ys: "y_syncs s' = (y_syncs s)(q \<mapsto> ?r)" "y_objs s' = y_objs s" "y_waits s' = y_waits s" by (simp_all add: s'_def)
  have tu: "t_waits (y_threads s' u) = t_waits (y_threads s u)"
    "t_mutex_list (y_threads s' u) = (if u = t then remove1 q (t_mutex_list (y_threads s u)) else t_mutex_list (y_threads s u))" for u
    by (simp_all add: s'_def)
  have c: "c \<noteq> 0" using syncs_okD(4) [OF i(2) r(1)] r(2) by (simp add: body_ok_def)
  have "obj_ok xo ?E s'" by (rule obj_ok_cong [OF i(1)]) (use r in \<open>auto simp: ys\<close>)
  moreover have "syncs_ok ?xs ?E s'"
  proof -
    have "rec_ok ?xs ?E (\<lambda>p. sync_at p s) q' r'" if a: "y_syncs s' q' = Some r'" for q' r'
    proof (cases "q' = q")
      case True
      then have "r' = ?r" using a by (simp add: ys)
      then show ?thesis using True syncs_okD(1) [OF i(2) r(1)] r(2) c by (simp add: rec_ok_def owned_def body_ok_def)
    next
      case False
      then show ?thesis using syncs_okD(1) [OF i(2), of q' r'] a rec_ok_xs [of xs q' ?xs] by (simp add: ys)
    qed
    moreover have "?xs q' + 2 < MAX_REFS" for q' using i(2) x unfolding syncs_ok_def by (cases "q' = q") auto
    moreover have "?xs q' = 0" if "y_syncs s' q' = None" for q' using that i(2) unfolding syncs_ok_def by (cases "q' = q") (auto simp: ys)
    moreover have "sync_at p s' = sync_at p s" for p by (simp add: sync_at_def ys)
    ultimately show ?thesis unfolding syncs_ok_def by simp
  qed
  moreover have "mutex_ok s'"
    unfolding mutex_ok_def
  proof (intro allI conjI)
    fix u q'
    have m: "distinct (t_mutex_list (y_threads s u))" "q' \<in> set (t_mutex_list (y_threads s u)) \<longleftrightarrow> (\<exists>c ab. body s q' = Some (Mutex_sync (Some u) c ab))"
      using i(3) unfolding mutex_ok_def by blast+
    show "distinct (t_mutex_list (y_threads s' u))" using m(1) by (auto simp: tu)
    show "q' \<in> set (t_mutex_list (y_threads s' u)) \<longleftrightarrow> (\<exists>c ab. body s' q' = Some (Mutex_sync (Some u) c ab))"
      using m r by (cases "q' = q"; cases "u = t") (simp_all add: tu ys)
  qed
  moreover have "mutex_room {} s'"
    using i(4) r unfolding mutex_room_def ys by (auto split: if_splits) force
  moreover have "wait_ok s'" using i(5) by (simp add: wait_ok_def ys tu)
  ultimately show ?thesis by (simp add: wf_sync_def inv_def ys)
qed

lemma disown_same_waits: "same_waits s (set_sync q r (upd_thread t (t_mutex_list_update f) s))"
proof -
  have "\<exists>l. y_threads (upd_thread t (t_mutex_list_update f) s) u = t_mutex_list_update (\<lambda>_. l) (y_threads s u)" for u
    by (cases "y_threads s u") auto
  then show ?thesis by (simp add: same_waits_def)
qed

lemma disown_spec:
  fixes ab' :: bool
  assumes wf: "wf_sync xo xs s" and r: "y_syncs s q = Some r" "sy_body r = Mutex_sync (Some t) c ab" and x: "xs q + 3 < MAX_REFS"
  defines "s1 \<equiv> set_sync q (Some (r\<lparr>sy_body := Mutex_sync None 0 ab'\<rparr>)) (upd_thread t (t_mutex_list_update (remove1 q)) s)"
  shows "\<exists>s2 s'. wake_up q 0 s1 = Some s2 \<and> release_sync q s2 = Some s' \<and> wf_sync xo xs s' \<and> (settled s \<longrightarrow> settled s') \<and> lowered (waiting s) s1 s'"
proof -
  let ?xs = "xs(q := xs q + 1)"
  have "\<exists>s2. wake_up q 0 s1 = Some s2 \<and> wf_sync xo ?xs s2 \<and> (settled s \<longrightarrow> settled s2) \<and> kept_alive xo ?xs q s2 \<and> lowered (waiting s1) s1 s2"
  proof (rule wake_up_spec)
    show "wf_sync xo ?xs s1" unfolding s1_def by (rule disown_wf [OF wf r x])
    show "same_waits s s1" unfolding s1_def by (rule disown_same_waits)
    show "kept_alive xo ?xs q s1" by (simp add: kept_alive_def)
  qed (simp_all add: s1_def)
  then obtain s2 where s2: "wake_up q 0 s1 = Some s2" "wf_sync xo ?xs s2" "settled s \<longrightarrow> settled s2" "lowered (waiting s1) s1 s2" by blast
  obtain s' where s': "release_sync q s2 = Some s'" "wf_sync xo xs s'" "fewer s2 s'" using release_sync_spec [OF s2(2)] by blast
  have "waiting s1 = waiting s" unfolding s1_def by (rule waiting_same [OF disown_same_waits])
  then have "lowered (waiting s) s1 s'" using lowered_trans [OF s2(4) fewer_lowered [OF s'(3)]] by simp
  then show ?thesis using s2(1,3) s'(1,2) fewer_settled [OF s2(2) s'(3)] by blast
qed

text \<open>\<open>do_release\<close>, by a count that the owner holds.\<close>

lemma do_release_spec:
  assumes wf: "wf_sync xo xs s" and b: "body s q = Some (Mutex_sync ow c ab)" and x: "xs q + 3 < MAX_REFS" and count: "ow = Some t \<longrightarrow> count \<le> c"
  shows "\<exists>s'. do_release q t count s = Some (s', if ow = Some t then None else Some STATUS_MUTANT_NOT_OWNED) \<and> wf_sync xo xs s' \<and> (settled s \<longrightarrow> settled s') \<and> stable xo s s' \<and>
           (\<forall>u. u \<notin> waiting s \<and> (u \<noteq> t \<or> ow \<noteq> Some t \<or> c \<noteq> count) \<longrightarrow> y_threads s' u = y_threads s u) \<and>
           (ow = Some t \<and> c = count \<and> t \<notin> waiting s \<longrightarrow> y_threads s' t = t_mutex_list_update (remove1 q) (y_threads s t))"
proof -
  obtain r where r: "y_syncs s q = Some r" "sy_body r = Mutex_sync ow c ab" using b by auto
  have "body_ok (sy_body r)" using wf r(1) syncs_okD(4) by (auto simp: wf_sync_def inv_def)
  then have oc: "ow = None \<longleftrightarrow> c = 0" by (simp add: r(2) body_ok_def)
  consider "ow \<noteq> Some t" | "ow = Some t" "c \<noteq> count" | "ow = Some t" "c = count" by blast
  then show ?thesis
  proof cases
    case 1
    then show ?thesis using r oc wf by (auto simp: do_release_def)
  next
    case 2
    let ?s = "set_sync q (Some (r\<lparr>sy_body := Mutex_sync ow (c - count) ab\<rparr>)) s"
    have n: "c - count \<noteq> 0" "unat (c - count) \<le> unat c" using 2 count by (auto simp: word_le_nat_alt unat_sub)
    have "wf_sync xo xs ?s"
      by (rule set_body_wf [OF wf r(1)]) (use n 2 oc in \<open>simp_all add: r(2) body_ok_def owned_def\<close>)
    moreover have "settled ?s" if "settled s"
      by (rule same_waits_settled [OF same_waits_set_sync that], rule osig_body [OF r(1)]) (use n 2 in \<open>auto simp: r(2)\<close>)
    moreover have "stable xo s ?s" by (rule set_sync_stable [OF r(1)]) (simp add: r(2))
    ultimately show ?thesis using r 2 oc n(1) by (auto simp: do_release_def set_body_def)
  next
    case 3
    let ?s = "set_sync q (Some (r\<lparr>sy_body := Mutex_sync None 0 ab\<rparr>)) (upd_thread t (t_mutex_list_update (remove1 q)) s)"
    obtain s2 s' where s': "wake_up q 0 ?s = Some s2" "release_sync q s2 = Some s'" "wf_sync xo xs s'" "settled s \<longrightarrow> settled s'" "lowered (waiting s) ?s s'"
      using disown_spec [OF wf r(1) _ x, of t c ab ab] r(2) 3 by auto
    have "do_release q t count s = Some (s', None)" using r 3 oc s'(1,2) by (simp add: do_release_def set_body_def)
    moreover have "y_threads s' u = y_threads ?s u" if "u \<notin> waiting s" for u by (rule lowered_rest(4) [OF s'(5) that])
    moreover have "stable xo s ?s" using r by (auto simp: stable_def sync_at_def)
    then have "stable xo s s'" by (rule stable_trans [OF _ lowered_stable [OF s'(3,5)]])
    ultimately show ?thesis using s'(3,4) 3 by auto
  qed
qed

text \<open>
  \<open>abandon_mutexes\<close> for a thread that no longer waits: it gives up all its mutexes, and every thread that
  can get one does.
\<close>

lemma abandon_mutexes_spec:
  assumes "wf_sync xo xs s" "t \<notin> waiting s" "\<forall>q. xs q + 3 < MAX_REFS"
  shows "\<exists>s'. abandon_mutexes t s = Some s' \<and> wf_sync xo xs s' \<and> (settled s \<longrightarrow> settled s') \<and> stable xo s s' \<and>
           t_mutex_list (y_threads s' t) = [] \<and> t \<notin> waiting s'"
  using assms
proof (induction "length (t_mutex_list (y_threads s t))" arbitrary: s rule: less_induct)
  case less
  show ?case
  proof (cases "t_mutex_list (y_threads s t)")
    case Nil
    then show ?thesis using less.prems abandon_mutexes.simps [of t s] by simp
  next
    case (Cons q l)
    have mo: "mutex_ok s" "syncs_ok xs (wait_entries (y_waits s)) s" using less.prems(1) by (simp_all add: wf_sync_def inv_def)
    have "\<exists>c ab. body s q = Some (Mutex_sync (Some t) c ab)" using mo(1) Cons unfolding mutex_ok_def by (metis list.set_intros(1))
    then obtain r c ab where r: "y_syncs s q = Some r" "sy_body r = Mutex_sync (Some t) c ab" by auto
    have c: "c \<noteq> 0" using syncs_okD(4) [OF mo(2) r(1)] r(2) by (simp add: body_ok_def)
    define s1 where "s1 = set_sync q (Some (r\<lparr>sy_body := Mutex_sync (Some t) c True\<rparr>)) s"
    have wf1: "wf_sync xo xs s1"
      unfolding s1_def by (rule set_body_wf [OF less.prems(1) r(1)]) (use c in \<open>auto simp: r(2) body_ok_def owned_def\<close>)
    have st1: "settled s1" if "settled s"
      unfolding s1_def by (rule same_waits_settled [OF same_waits_set_sync that], rule osig_body [OF r(1)]) (use r(2) in auto)
    have t1: "t \<notin> waiting s1" using less.prems(2) by (simp add: s1_def waiting_def)
    obtain s2 where s2: "do_release q t c s1 = Some (s2, None)" "wf_sync xo xs s2" "settled s1 \<longrightarrow> settled s2" "stable xo s1 s2"
        "y_threads s2 t = t_mutex_list_update (remove1 q) (y_threads s1 t)"
      using do_release_spec [OF wf1, of q "Some t" c True t c] less.prems(3) t1 by (auto simp: s1_def)
    have l: "t_mutex_list (y_threads s2 t) = l" "t \<notin> waiting s2" using s2(5) Cons less.prems(2) by (auto simp: s1_def waiting_def)
    then obtain s' where "abandon_mutexes t s2 = Some s'" "wf_sync xo xs s'" "settled s2 \<longrightarrow> settled s'" "stable xo s2 s'" "t_mutex_list (y_threads s' t) = []" "t \<notin> waiting s'"
      using less.hyps [of s2] s2(2) less.prems(3) Cons by auto
    moreover have "abandon_mutexes t s = abandon_mutexes t s2"
      by (subst abandon_mutexes.simps) (use Cons r s2(1) in \<open>simp add: set_body_def s1_def\<close>)
    moreover have "stable xo s s1" unfolding s1_def by (rule set_sync_stable [OF r(1)]) (simp add: r(2))
    ultimately show ?thesis using s2(3,4) st1 stable_trans by (metis (no_types))
  qed
qed

end
