(* ===== verification/Sync_Select.thy ===== *)
theory Sync_Select
  imports Sync_Signal
begin

text \<open>
  The \<open>select\<close> request: starting a wait keeps the invariant.
\<close>

section \<open>References\<close>

lemma fewer_wf:
  assumes "wf_sync xo xs s" "fewer s s'" "inv xo' xs' (wait_entries (y_waits s)) s'"
  shows "wf_sync xo' xs' s'"
proof -
  have "wait_ok s'" using assms(1) fewer_rest [OF assms(2)] by (simp add: wf_sync_def wait_ok_def)
  moreover have "mutex_room {} s'" using assms(1) fewer_room [OF assms(2)] by (simp add: wf_sync_def)
  ultimately show ?thesis using assms(3) fewer_rest(2) [OF assms(2)] by (simp add: wf_sync_def)
qed

lemma release_wobj_wf:
  assumes "wf_sync xo xs s" "0 < xo p"
  shows "\<exists>s'. release_wobj p s = Some s' \<and> wf_sync (xo(p := xo p - 1)) xs s' \<and> fewer s s'"
  using release_wobj_spec [of xo xs "wait_entries (y_waits s)" s p] assms fewer_wf by (metis wf_sync_def)

text \<open>The reference counts leave room for \<open>n\<close> more references to each object.\<close>

definition ref_room :: "nat \<Rightarrow> sync_state \<Rightarrow> bool" where
  "ref_room n s \<longleftrightarrow> (\<forall>p r. y_objs s p = Some r \<longrightarrow> ob_refs r + n \<le> MAX_REFS)"

lemma ref_roomD: "ref_room n s \<Longrightarrow> y_objs s p = Some r \<Longrightarrow> ob_refs r + n \<le> MAX_REFS"
  by (simp add: ref_room_def)

lemma ref_room_mono: "ref_room n s \<Longrightarrow> m \<le> n \<Longrightarrow> ref_room m s"
  unfolding ref_room_def by (meson add_left_mono order_trans)

lemma grab_wobj_some:
  assumes inv: "inv xo xs E s" and r: "y_objs s p = Some r"
  defines "s' \<equiv> set_wobj p (Some (r\<lparr>ob_refs := ob_refs r + 1\<rparr>)) s"
  shows "inv (xo(p := xo p + 1)) xs E s'" "fewer s s'" "y_syncs s' = y_syncs s" "\<forall>p. sync_at p s' = sync_at p s"
proof -
  have oo: "obj_ok xo E s" "syncs_ok xs E s" "mutex_ok s" using inv by (simp_all add: inv_def)
  have yo: "y_objs s' = (y_objs s)(p \<mapsto> r\<lparr>ob_refs := ob_refs r + 1\<rparr>)" "y_syncs s' = y_syncs s" by (simp_all add: s'_def)
  have at: "sync_at p' s' = sync_at p' s" for p' using r by (simp add: sync_at_def yo)
  have all: "\<And>p r. y_objs s p = Some r \<Longrightarrow> ob_sync r \<in> dom (y_syncs s) \<and> ob_refs r = xo p + card {(w, i). (w, i, p) \<in> E} \<and> 0 < ob_refs r"
    "\<And>p. y_objs s p = None \<Longrightarrow> xo p = 0 \<and> (\<forall>w i. (w, i, p) \<notin> E)" "finite E"
    "\<And>p p' r r'. y_objs s p = Some r \<Longrightarrow> y_objs s p' = Some r' \<Longrightarrow> ob_sync r = ob_sync r' \<Longrightarrow> p = p'"
    using oo(1) unfolding obj_ok_def by blast+
  have "ob_sync r' \<in> dom (y_syncs s') \<and> ob_refs r' = (xo(p := xo p + 1)) p' + card {(w, i). (w, i, p') \<in> E} \<and> 0 < ob_refs r'"
    if "y_objs s' p' = Some r'" for p' r'
    using that all(1) [OF r] all(1) [of p' r'] by (cases "p' = p") (auto simp: yo)
  moreover have "(xo(p := xo p + 1)) p' = 0 \<and> (\<forall>w i. (w, i, p') \<notin> E)" if "y_objs s' p' = None" for p'
    using that all(2) [of p'] by (auto simp: yo split: if_splits)
  moreover have "p1 = p2" if "y_objs s' p1 = Some r1" "y_objs s' p2 = Some r2" "ob_sync r1 = ob_sync r2" for p1 p2 r1 r2
    using that all(4) r by (auto simp: yo split: if_splits)
  ultimately have "obj_ok (xo(p := xo p + 1)) E s'" unfolding obj_ok_def using all(3) by blast
  moreover have "syncs_ok xs E s'" using oo(2) by (simp add: syncs_ok_def at yo)
  moreover have "mutex_ok s'" using oo(3) by (simp add: mutex_ok_def s'_def)
  ultimately show "inv (xo(p := xo p + 1)) xs E s'" by (simp add: inv_def)
  show "fewer s s'" "y_syncs s' = y_syncs s" "\<forall>p. sync_at p s' = sync_at p s" using r at yo by (auto simp: fewer_def s'_def)
qed

lemma grab_wobj_inv:
  assumes inv: "inv xo xs E s" and r: "y_objs s p = Some r" and n: "ref_room (Suc n) s"
  shows "\<exists>s'. grab_wobj p s = Some s' \<and> inv (xo(p := xo p + 1)) xs E s' \<and> fewer s s' \<and> y_syncs s' = y_syncs s \<and> (\<forall>p. sync_at p s' = sync_at p s) \<and> ref_room n s'"
proof -
  let ?s = "set_wobj p (Some (r\<lparr>ob_refs := ob_refs r + 1\<rparr>)) s"
  have "grab_wobj p s = Some ?s" using r ref_roomD [OF n r] by (simp add: grab_wobj_def)
  moreover have "ref_room n ?s" using n r unfolding ref_room_def by (auto split: if_splits) fastforce
  ultimately show ?thesis using grab_wobj_some [OF inv r] by blast
qed

text \<open>References of a request to a list of objects.\<close>

definition plus_refs :: "nat list \<Rightarrow> (nat \<Rightarrow> nat) \<Rightarrow> nat \<Rightarrow> nat" where
  "plus_refs ps xo = (\<lambda>p. xo p + count_list ps p)"

lemma plus_refs_simps [simp]: "plus_refs [] xo = xo" "(plus_refs (p # ps) xo)(p := plus_refs (p # ps) xo p - Suc 0) = plus_refs ps xo"
  "plus_refs ps (xo(p := Suc (xo p))) = plus_refs (p # ps) xo" "0 < plus_refs (p # ps) xo p" "plus_refs (rev ps) xo = plus_refs ps xo"
  by (auto simp: plus_refs_def fun_eq_iff)

lemma release_all_spec:
  assumes "wf_sync (plus_refs ps xo) xs s"
  shows "\<exists>s'. release_all ps s = Some s' \<and> wf_sync xo xs s' \<and> fewer s s'"
  using assms
proof (induction ps arbitrary: s)
  case (Cons p ps)
  obtain s1 where s1: "release_wobj p s = Some s1" "wf_sync (plus_refs ps xo) xs s1" "fewer s s1"
    using release_wobj_wf [OF Cons.prems, of p] by auto
  show ?case using Cons.IH [OF s1(2)] s1 fewer_trans by fastforce
qed simp

lemma grab_handles_spec:
  assumes "wf_sync xo xs s" "\<forall>p. Inr p \<in> set hs \<longrightarrow> 0 < xo p" "ref_room (length hs + n) s"
  shows "\<exists>s' ps e. grab_handles hs s = Some (s', ps, e) \<and> wf_sync (plus_refs ps xo) xs s' \<and> fewer s s' \<and> y_syncs s' = y_syncs s \<and>
           (\<forall>p. sync_at p s' = sync_at p s) \<and> ref_room n s' \<and> (e = None \<longrightarrow> hs = map Inr ps)"
  using assms
proof (induction hs arbitrary: s xo)
  case Nil
  then show ?case by simp
next
  case (Cons h hs)
  show ?case
  proof (cases h)
    case (Inl st)
    have "ref_room n s" by (rule ref_room_mono [OF Cons.prems(3)]) simp
    then show ?thesis using Inl Cons.prems(1) by simp
  next
    case (Inr p)
    have inv: "inv xo xs (wait_entries (y_waits s)) s" using Cons.prems(1) by (simp add: wf_sync_def)
    have "y_objs s p \<noteq> None" using inv Cons.prems(2) Inr unfolding inv_def obj_ok_def by fastforce
    then obtain r where r: "y_objs s p = Some r" by blast
    obtain s1 where s1: "grab_wobj p s = Some s1" "inv (xo(p := xo p + 1)) xs (wait_entries (y_waits s)) s1" "fewer s s1" "y_syncs s1 = y_syncs s"
        "\<forall>p. sync_at p s1 = sync_at p s" "ref_room (length hs + n) s1"
      using grab_wobj_inv [OF inv r, of "length hs + n"] Cons.prems(3) by auto
    note wf1 = fewer_wf [OF Cons.prems(1) s1(3,2)]
    have pos: "\<forall>p'. Inr p' \<in> set hs \<longrightarrow> 0 < (xo(p := xo p + 1)) p'" using Cons.prems(2) by simp
    have "plus_refs ps (xo(p := xo p + 1)) = plus_refs (p # ps) xo" for ps by simp
    then obtain s' ps e where s': "grab_handles hs s1 = Some (s', ps, e)" "wf_sync (plus_refs (p # ps) xo) xs s'" "fewer s1 s'" "y_syncs s' = y_syncs s1"
        "\<forall>p. sync_at p s' = sync_at p s1" "ref_room n s'" "e = None \<longrightarrow> hs = map Inr ps"
      using Cons.IH [OF wf1 pos s1(6)] by metis
    then show ?thesis using Inr s1 fewer_trans [OF s1(3) s'(3)] by auto
  qed
qed

section \<open>Entering the queues\<close>

definition queue_room :: "nat \<Rightarrow> sync_state \<Rightarrow> bool" where
  "queue_room n s \<longleftrightarrow> (\<forall>q r ow c ab. y_syncs s q = Some r \<and> sy_body r = Mutex_sync ow c ab \<longrightarrow> unat c + length (sy_queue r) + n < 2 ^ 32)"

lemma queue_room_0: "queue_room 0 s = mutex_room {} s"
  by (simp add: queue_room_def mutex_room_def)

text \<open>Nothing changes but references and queues.\<close>

definition queues_only :: "sync_state \<Rightarrow> sync_state \<Rightarrow> bool" where
  "queues_only s s' \<longleftrightarrow>
     (\<forall>p. sync_at p s' = sync_at p s) \<and> (\<forall>q. body s' q = body s q) \<and> y_threads s' = y_threads s \<and>
     y_proc_suspend s' = y_proc_suspend s \<and> y_current_time s' = y_current_time s \<and> y_monotonic_time s' = y_monotonic_time s"

lemma queues_only_osig:
  assumes "queues_only s s'"
  shows "osig s' t p = osig s t p"
proof -
  have o: "osig s t p = (case sync_at p s of None \<Rightarrow> False | Some q \<Rightarrow> (case body s q of None \<Rightarrow> False | Some b \<Rightarrow> sig t b))" for s
    by (simp add: osig_def sync_at_def split: option.split)
  show ?thesis using assms unfolding o queues_only_def by (cases "sync_at p s") simp_all
qed

lemma queues_only_trans: "queues_only s s' \<Longrightarrow> queues_only s' s'' \<Longrightarrow> queues_only s s''"
  by (simp add: queues_only_def)

lemma enter_queues_spec:
  assumes "inv xo xs (wait_entries (y_waits s)) s" "\<forall>p\<in>set ps. 0 < xo p" "ref_room (length ps) s" "queue_room (length ps) s"
    "y_waits s w = Some wr" "i = length (w_objs wr)"
  shows "\<exists>s'. enter_queues i ps w s = Some s' \<and> inv xo xs (wait_entries (y_waits s')) s' \<and> queue_room 0 s' \<and> queues_only s s' \<and>
           y_waits s' = (y_waits s)(w \<mapsto> wr\<lparr>w_objs := w_objs wr @ ps\<rparr>)"
  using assms
proof (induction ps arbitrary: i s wr)
  case Nil
  then show ?case by (simp add: queues_only_def fun_upd_idem)
next
  case (Cons p ps)
  let ?E = "wait_entries (y_waits s)"
  have ok: "obj_ok xo ?E s" "syncs_ok xs ?E s" using Cons.prems(1) by (simp_all add: inv_def)
  have "y_objs s p \<noteq> None" using ok(1) Cons.prems(2) unfolding obj_ok_def by fastforce
  then obtain o' where o': "y_objs s p = Some o'" by blast
  let ?q = "ob_sync o'"
  have "?q \<in> dom (y_syncs s)" using ok(1) o' unfolding obj_ok_def by blast
  then obtain r where r: "y_syncs s ?q = Some r" by blast
  define s1 where "s1 = set_sync ?q (Some (r\<lparr>sy_queue := sy_queue r @ [(w, i)]\<rparr>)) s"
  have q: "object_sync_add_queue p (w, i) s = Some s1" unfolding s1_def by (rule object_sync_add_queue_eq [OF ok(2) o' r])
  have e: "\<forall>p. (w, i, p) \<notin> ?E" using Cons.prems(5,6) by (simp add: wait_entries_def)
  have i1: "inv (xo(p := xo p - 1)) xs (insert (w, i, p) ?E) s1"
    unfolding s1_def by (rule add_entry [OF Cons.prems(1) e o' r]) (use Cons.prems(2) in simp)
  have o1: "y_objs s1 p = Some o'" "ref_room (Suc (length ps)) s1" using o' Cons.prems(3) by (simp_all add: s1_def ref_room_def)
  obtain s2 where s2: "grab_wobj p s1 = Some s2" "inv xo xs (insert (w, i, p) ?E) s2" "fewer s1 s2" "y_syncs s2 = y_syncs s1"
      "\<forall>p. sync_at p s2 = sync_at p s1" "ref_room (length ps) s2"
    using grab_wobj_inv [OF i1 o1] Cons.prems(2) by auto
  define wr' where "wr' = wr\<lparr>w_objs := w_objs wr @ [p]\<rparr>"
  define s3 where "s3 = set_wait w (Some wr') s2"
  have yw: "y_waits s2 = y_waits s" using fewer_rest(2) [OF s2(3)] by (simp add: s1_def)
  have y3: "y_syncs s3 = y_syncs s1" "y_waits s3 = (y_waits s)(w \<mapsto> wr')" "y_objs s3 = y_objs s2" "y_threads s3 = y_threads s"
    using s2(4) yw fewer_rest [OF s2(3)] by (simp_all add: s3_def s1_def)
  have E3: "wait_entries (y_waits s3) = insert (w, i, p) ?E"
    using Cons.prems(5,6) unfolding wait_entries_def y3 by (auto simp: wr'_def nth_append less_Suc_eq split: if_splits)
  have i3: "inv xo xs (wait_entries (y_waits s3)) s3" unfolding E3 by (rule inv_cong [OF s2(2)]) (simp_all add: s3_def)
  have qr: "queue_room (length ps) s3" 
    unfolding queue_room_def
  proof (intro allI impI, elim conjE)
    fix q' r' ow c ab assume a: "y_syncs s3 q' = Some r'" "sy_body r' = Mutex_sync ow c ab"
    obtain r0 where r0: "y_syncs s q' = Some r0" "sy_body r0 = sy_body r'" "length (sy_queue r') \<le> length (sy_queue r0) + 1"
      using a(1) r by (cases "q' = ?q") (auto simp: y3 s1_def)
    have "unat c + length (sy_queue r0) + length (p # ps) < 2 ^ 32" using Cons.prems(4) r0 a(2) unfolding queue_room_def by metis
    then show "unat c + length (sy_queue r') + length ps < 2 ^ 32" using r0(3) by simp
  qed
  have qo: "queues_only s s3"
    using s2(5) r fewer_rest [OF s2(3)] y3 unfolding queues_only_def by (auto simp: s3_def s1_def)
  have rr: "ref_room (length ps) s3" using s2(6) by (simp add: ref_room_def y3)
  have w3: "y_waits s3 w = Some wr'" "i + 1 = length (w_objs wr')" "\<forall>p\<in>set ps. 0 < xo p" using Cons.prems(2,6) by (simp_all add: y3 wr'_def)
  obtain s' where s': "enter_queues (i + 1) ps w s3 = Some s'" "inv xo xs (wait_entries (y_waits s')) s'" "queue_room 0 s'" "queues_only s3 s'"
      "y_waits s' = (y_waits s3)(w \<mapsto> wr'\<lparr>w_objs := w_objs wr' @ ps\<rparr>)"
    using Cons.IH [OF i3 w3(3) rr qr w3(1,2)] by blast
  have "enter_queues i (p # ps) w s = Some s'" using q s2(1) yw Cons.prems(5) s'(1) by (simp add: s3_def wr'_def)
  moreover have "y_waits s' = (y_waits s)(w \<mapsto> wr\<lparr>w_objs := w_objs wr @ p # ps\<rparr>)" using s'(5) by (simp add: y3 wr'_def)
  ultimately show ?case using s'(2,3) queues_only_trans [OF qo s'(4)] by blast
qed

section \<open>Starting a wait\<close>

text \<open>A new wait of thread \<open>t\<close> on top of its other waits.\<close>

definition new_wait :: "nat \<Rightarrow> nat \<Rightarrow> thread_wait \<Rightarrow> sync_state \<Rightarrow> sync_state \<Rightarrow> bool" where
  "new_wait t w wr s s' \<longleftrightarrow>
     y_waits s' = (y_waits s)(w \<mapsto> wr) \<and> w_thread wr = t \<and> y_threads s' = (y_threads s)(t := t_waits_update (\<lambda>ws. w # ws) (y_threads s t)) \<and>
     y_proc_suspend s' = y_proc_suspend s \<and> y_current_time s' = y_current_time s \<and> y_monotonic_time s' = y_monotonic_time s \<and>
     (\<forall>u p. osig s' u p \<longrightarrow> osig s u p)"

lemma wait_ok_add:
  assumes "wait_ok s" "y_waits s w = None" "y_waits s' = (y_waits s)(w \<mapsto> wr)" "w_thread wr = t"
    "y_threads s' = (y_threads s)(t := t_waits_update (\<lambda>ws. w # ws) (y_threads s t))"
    "length (w_objs wr) \<le> MAXIMUM_WAIT_OBJECTS" "w_select wr = SELECT_WAIT_ALL \<longrightarrow> distinct (w_objs wr)"
  shows "wait_ok s'"
proof -
  have tw: "t_waits (y_threads s' u) = (if u = t then w # t_waits (y_threads s t) else t_waits (y_threads s u))" for u by (simp add: assms(5))
  have d: "distinct (t_waits (y_threads s u))" "w \<notin> set (t_waits (y_threads s u))"
    "\<forall>v\<in>set (t_waits (y_threads s u)). \<exists>r. y_waits s v = Some r \<and> w_thread r = u" for u
    using assms(1,2) unfolding wait_ok_def by fastforce+
  have "v \<in> set (t_waits (y_threads s' (w_thread r))) \<and> length (w_objs r) \<le> MAXIMUM_WAIT_OBJECTS \<and> (w_select r = SELECT_WAIT_ALL \<longrightarrow> distinct (w_objs r))"
    if a: "y_waits s' v = Some r" for v r
  proof (cases "v = w")
    case True
    then show ?thesis using a assms(4,6,7) by (simp add: assms(3) tw)
  next
    case False
    then have "y_waits s v = Some r" using a by (simp add: assms(3))
    then show ?thesis using assms(1) unfolding wait_ok_def tw by auto
  qed
  moreover have "distinct (t_waits (y_threads s' u)) \<and> (\<forall>v\<in>set (t_waits (y_threads s' u)). \<exists>r. y_waits s' v = Some r \<and> w_thread r = u)" for u
    using d [of u] assms(4) by (auto simp: tw assms(3))
  moreover have "finite (dom (y_waits s'))" using assms(1) by (simp add: assms(3) wait_ok_def)
  ultimately show ?thesis unfolding wait_ok_def by blast
qed

lemma wait_on_spec:
  assumes wf: "wf_sync xo xs s" and w: "y_waits s w = None" and ps: "\<forall>p\<in>set ps. 0 < xo p" "length ps \<le> MAXIMUM_WAIT_OBJECTS"
    "op = SELECT_WAIT_ALL \<longrightarrow> distinct ps" and room: "ref_room (length ps) s" "queue_room (length ps) s"
  shows "\<exists>s' wr. wait_on (Some w) t op ps flags when s = Some (s', True) \<and> wf_sync xo xs s' \<and> new_wait t w wr s s' \<and> w_objs wr = ps"
proof -
  define wr where "wr = \<lparr>w_thread = t, w_flags = flags, w_abandoned = False, w_select = op, w_cookie = 0, w_when = when, w_user = False, w_status = 0, w_objs = []\<rparr>"
  define s1 where "s1 = upd_thread t (t_waits_update (\<lambda>ws. w # ws)) (set_wait w (Some wr) s)"
  have inv: "inv xo xs (wait_entries (y_waits s)) s" "wait_ok s" using wf by (simp_all add: wf_sync_def)
  have "wait_entries (y_waits s1) = wait_entries (y_waits s)" using w by (auto simp: wait_entries_def s1_def wr_def split: if_splits)
  then have i1: "inv xo xs (wait_entries (y_waits s1)) s1" using inv_cong [OF inv(1), of s1] by (simp add: s1_def)
  have r1: "ref_room (length ps) s1" "queue_room (length ps) s1" "y_waits s1 w = Some wr" "0 = length (w_objs wr)"
    using room by (simp_all add: ref_room_def queue_room_def s1_def wr_def)
  obtain s' where s': "enter_queues 0 ps w s1 = Some s'" "inv xo xs (wait_entries (y_waits s')) s'" "queue_room 0 s'" "queues_only s1 s'"
      "y_waits s' = (y_waits s1)(w \<mapsto> wr\<lparr>w_objs := w_objs wr @ ps\<rparr>)"
    using enter_queues_spec [OF i1 ps(1) r1] by blast
  let ?wr = "wr\<lparr>w_objs := ps\<rparr>"
  have y': "y_waits s' = (y_waits s)(w \<mapsto> ?wr)" "y_threads s' = (y_threads s)(t := t_waits_update (\<lambda>ws. w # ws) (y_threads s t))"
    using s'(4,5) by (simp_all add: s1_def wr_def queues_only_def)
  have "wait_ok s'" by (rule wait_ok_add [OF inv(2) w y'(1) _ y'(2)]) (use ps in \<open>simp_all add: wr_def\<close>)
  then have "wf_sync xo xs s'" using s'(2,3) by (simp add: wf_sync_def queue_room_0)
  moreover have "osig s' u p = osig s u p" for u p using queues_only_osig [OF s'(4)] osig_cong [of s1 s] by (simp add: s1_def)
  then have "new_wait t w ?wr s s'" using y' s'(4) by (simp add: new_wait_def wr_def queues_only_def s1_def)
  moreover have "wait_on (Some w) t op ps flags when s = Some (s', True)"
    using s'(1) y'(2) by (simp add: wait_on_def s1_def wr_def Let_def)
  ultimately show ?thesis by (auto simp: wr_def)
qed

end
