(* ===== verification/Sync_Ops.thy ===== *)
theory Sync_Ops
  imports Sync_Select
begin

text \<open>
  The operations as a whole: \<open>select\<close>, signaling an object by its handle, and timeouts keep the invariant.
\<close>

section \<open>Starting a wait on handles\<close>

text \<open>What an operation may assume of the handles of a request: the table refers to their objects.\<close>

definition handles_ok :: "(nat \<Rightarrow> nat) \<Rightarrow> handle_obj list \<Rightarrow> bool" where
  "handles_ok xo hs \<longleftrightarrow> (\<forall>p. Inr p \<in> set hs \<longrightarrow> 0 < xo p) \<and> (\<forall>st. Inl st \<in> set hs \<longrightarrow> st \<noteq> STATUS_SUCCESS)"

text \<open>Counters are far from their bounds.\<close>

definition roomy :: "sync_state \<Rightarrow> bool" where
  "roomy s \<longleftrightarrow> ref_room (2 * MAXIMUM_WAIT_OBJECTS) s \<and> queue_room MAXIMUM_WAIT_OBJECTS s"

lemma queue_room_mono: "queue_room n s \<Longrightarrow> m \<le> n \<Longrightarrow> queue_room m s"
  unfolding queue_room_def by (meson add_left_mono order_le_less_trans)

lemma new_wait_less:
  assumes "fewer s s1" "new_wait t w wr s1 s2" "fewer s2 s3"
  shows "new_wait t w wr s s3"
proof -
  note l1 = fewer_rest [OF assms(1)] and l3 = fewer_rest [OF assms(3)]
  have "osig s u p" if "osig s3 u p" for u p
    using lowered_osig [OF fewer_lowered [OF assms(3)] that] assms(2) lowered_osig [OF fewer_lowered [OF assms(1)]] unfolding new_wait_def by blast
  then show ?thesis using assms(2) l1 l3 unfolding new_wait_def by simp
qed

lemma wait_on_handles_spec:
  assumes wf: "wf_sync xo xs s" and hs: "handles_ok xo hs" "length hs \<le> MAXIMUM_WAIT_OBJECTS" "op = SELECT_WAIT_ALL \<longrightarrow> distinct hs"
    and room: "roomy s" and mem: "\<forall>w. mem = Some w \<longrightarrow> y_waits s w = None"
  shows "\<exists>s' ok st. wait_on_handles mem t op hs flags when s = Some (s', ok, st) \<and> wf_sync xo xs s' \<and> (\<not> ok \<longrightarrow> fewer s s') \<and>
           (ok \<longrightarrow> (\<exists>w wr. new_wait t w wr s s' \<and> length (w_objs wr) = length hs))"
proof -
  have rr: "ref_room (length hs + length hs) s" 
    by (rule ref_room_mono [of "2 * MAXIMUM_WAIT_OBJECTS"]) (use room hs(2) in \<open>simp_all add: roomy_def\<close>)
  obtain s1 ps e where s1: "grab_handles hs s = Some (s1, ps, e)" "wf_sync (plus_refs ps xo) xs s1" "fewer s s1" "y_syncs s1 = y_syncs s"
      "ref_room (length hs) s1" "e = None \<longrightarrow> hs = map Inr ps"
    using grab_handles_spec [OF wf _ rr] hs(1) by (auto simp: handles_ok_def)
  have "\<exists>s2 ok. (if e = None then wait_on mem t op ps flags when s1 else Some (s1, False)) = Some (s2, ok) \<and> wf_sync (plus_refs ps xo) xs s2 \<and>
      (\<not> ok \<longrightarrow> s2 = s1) \<and> (ok \<longrightarrow> (\<exists>w wr. new_wait t w wr s1 s2 \<and> length (w_objs wr) = length hs))"
  proof (cases "e = None \<and> mem \<noteq> None")
    case True
    then obtain w where w: "mem = Some w" by blast
    have h: "hs = map Inr ps" using True s1(6) by simp
    have pos: "\<forall>p\<in>set ps. 0 < plus_refs ps xo p" using hs(1) unfolding h handles_ok_def plus_refs_def by auto
    have d: "op = SELECT_WAIT_ALL \<longrightarrow> distinct ps" using hs(3) unfolding h by (auto simp: distinct_map)
    have "queue_room (length ps) s1" using room hs(2) queue_room_mono unfolding h roomy_def by (auto simp: queue_room_def s1(4))
    moreover have "y_waits s1 w = None" using mem w fewer_rest(2) [OF s1(3)] by simp
    ultimately obtain s2 wr where "wait_on (Some w) t op ps flags when s1 = Some (s2, True)" "wf_sync (plus_refs ps xo) xs s2" "new_wait t w wr s1 s2" "w_objs wr = ps"
      using wait_on_spec [OF s1(2) _ pos _ d, of w t flags "when"] hs(2) s1(5) h by auto
    then show ?thesis using True w h by auto
  next
    case False
    then show ?thesis using s1(2) by (auto simp: wait_on_def)
  qed
  then obtain s2 ok where s2: "(if e = None then wait_on mem t op ps flags when s1 else Some (s1, False)) = Some (s2, ok)"
      "wf_sync (plus_refs ps xo) xs s2" "\<not> ok \<longrightarrow> s2 = s1" "ok \<longrightarrow> (\<exists>w wr. new_wait t w wr s1 s2 \<and> length (w_objs wr) = length hs)" by blast
  obtain s3 where s3: "release_all (rev ps) s2 = Some s3" "wf_sync xo xs s3" "fewer s2 s3"
    using release_all_spec [of "rev ps" xo xs s2] s2(2) by auto
  have "wait_on_handles mem t op hs flags when s =
      Some (s3, ok, case e of Some st \<Rightarrow> st | None \<Rightarrow> if ok then STATUS_SUCCESS else STATUS_NO_MEMORY)"
    using s1(1) s2(1) s3(1) hs(2) by (simp add: wait_on_handles_def)
  moreover have "fewer s s3" if "\<not> ok" using that s2(3) fewer_trans [OF s1(3)] s3(3) by simp
  moreover have "\<exists>w wr. new_wait t w wr s s3 \<and> length (w_objs wr) = length hs" if ok
    using that s2(4) new_wait_less [OF s1(3) _ s3(3)] by blast
  ultimately show ?thesis using s3(2) by blast
qed

section \<open>The end of a request\<close>

lemma set_wait_wf:
  assumes wf: "wf_sync xo xs s" and wr: "y_waits s w = Some wr" "w_thread wr' = w_thread wr" "w_objs wr' = w_objs wr" "w_select wr' = w_select wr"
  shows "wf_sync xo xs (set_wait w (Some wr') s)"
proof -
  let ?s = "set_wait w (Some wr') s"
  have "wait_entries (y_waits ?s) = wait_entries (y_waits s)" using wr by (auto simp: wait_entries_def split: if_splits)
  then have "inv xo xs (wait_entries (y_waits ?s)) ?s" using inv_cong [of xo xs "wait_entries (y_waits s)" s ?s] wf by (simp add: wf_sync_def)
  moreover have "mutex_room {} ?s" by (rule mutex_room_cong [of _ s]) (use wf in \<open>simp_all add: wf_sync_def\<close>)
  moreover have "wait_ok ?s"
  proof -
    have i: "finite (dom (y_waits s))"
      "\<And>v r. y_waits s v = Some r \<Longrightarrow> v \<in> set (t_waits (y_threads s (w_thread r))) \<and> length (w_objs r) \<le> MAXIMUM_WAIT_OBJECTS \<and> (w_select r = SELECT_WAIT_ALL \<longrightarrow> distinct (w_objs r))"
      "\<And>t. distinct (t_waits (y_threads s t))" "\<And>t v. v \<in> set (t_waits (y_threads s t)) \<Longrightarrow> \<exists>r. y_waits s v = Some r \<and> w_thread r = t"
      using wf unfolding wf_sync_def wait_ok_def by blast+
    have "\<exists>r. y_waits ?s v = Some r \<and> w_thread r = t" if "v \<in> set (t_waits (y_threads s t))" for t v
      using i(4) [OF that] wr by (cases "v = w") auto
    moreover have "v \<in> set (t_waits (y_threads s (w_thread r))) \<and> length (w_objs r) \<le> MAXIMUM_WAIT_OBJECTS \<and> (w_select r = SELECT_WAIT_ALL \<longrightarrow> distinct (w_objs r))"
      if "y_waits ?s v = Some r" for v r
      using that i(2) [of v] wr by (cases "v = w") auto
    moreover have "finite (dom (y_waits ?s))" using i(1) by simp
    ultimately show ?thesis using i(3) unfolding wait_ok_def set_wait_simps(4) by blast
  qed
  ultimately show ?thesis by (simp add: wf_sync_def)
qed

lemma finish_select_spec:
  assumes wf: "wf_sync xo xs s" and tw: "t_waits (y_threads s t) = w # ws"
  shows "\<exists>s' d st. finish_select timer_ok t cookie s = Some (s', d, st) \<and> wf_sync xo xs s' \<and>
           (d \<longrightarrow> lowered {t} s s' \<and> t_waits (y_threads s' t) = ws) \<and>
           (\<not> d \<longrightarrow> chk t s = None \<and> (\<exists>wr wr'. y_waits s w = Some wr \<and> wr' = wr\<lparr>w_user := w_when wr \<noteq> TIMEOUT_INFINITE, w_cookie := cookie\<rparr> \<and> s' = set_wait w (Some wr') s))"
proof -
  obtain wr where wr: "y_waits s w = Some wr" "w_thread wr = t" by (rule wf_sync_head [OF wf tw])
  show ?thesis
  proof (cases "chk t s")
    case None
    then have c: "check_wait t s = Some (s, None)" using check_wait_eq [OF wf tw] by auto
    show ?thesis
    proof (cases "w_when wr \<noteq> TIMEOUT_INFINITE \<and> \<not> timer_ok")
      case True
      have "ready t wr STATUS_NO_MEMORY s" using wf_sync_wait(1) [OF wf wr(1)] by (simp add: ready_def eaten_def MAXIMUM_WAIT_OBJECTS_def)
      then obtain s' st' where "end_wait t STATUS_NO_MEMORY s = Some (s', st')" "wf_sync xo xs s'" "lowered {t} s s'" "t_waits (y_threads s' t) = ws"
        using end_wait_spec [OF wf tw wr(1)] by blast
      moreover from this have "finish_select timer_ok t cookie s = Some (s', True, STATUS_NO_MEMORY)" using True c tw wr(1) by (simp add: finish_select_def)
      ultimately show ?thesis by blast
    next
      case False
      have "wf_sync xo xs (set_wait w (Some (wr\<lparr>w_user := w_when wr \<noteq> TIMEOUT_INFINITE, w_cookie := cookie\<rparr>)) s)"
        by (rule set_wait_wf [OF wf wr(1)]) simp_all
      then show ?thesis using c tw wr(1) None False by (auto simp: finish_select_def)
    qed
  next
    case (Some st)
    obtain s1 where s1: "check_wait t s = Some (s1, Some st)" "thread_only t s s1"
      using check_wait_eq [OF wf tw] Some by fastforce
    obtain s' st' where "end_wait t st s1 = Some (s', st')" "wf_sync xo xs s'" "lowered {t} s s'" "t_waits (y_threads s' t) = ws"
      using end_wait_step [OF wf tw wr(1) Some s1(2)] by blast
    then show ?thesis using s1(1) by (auto simp: finish_select_def)
  qed
qed

section \<open>Signaling an object\<close>

text \<open>The \<open>signal\<close> operation of an object that the caller refers to: on an error nothing changes.\<close>

definition obj_signal :: "nat \<Rightarrow> nat \<Rightarrow> sync_rec \<Rightarrow> u32 \<Rightarrow> sync_state \<Rightarrow> (sync_state \<times> status option) option" where
  "obj_signal t p r access s =
     (case sy_body r of Event_sync _ _ \<Rightarrow> event_signal p access s
      | Semaphore_sync _ _ \<Rightarrow> semaphore_signal p access s
      | Mutex_sync _ _ _ \<Rightarrow> mutex_signal t p access s)"

lemma obj_signal_spec:
  assumes wf: "wf_sync xo xs s" and x: "0 < xo p" "\<forall>q. xs q + 3 < MAX_REFS" and at: "sync_at p s = Some q" and r: "y_syncs s q = Some r"
  shows "\<exists>s' e. obj_signal t p r access s = Some (s', e) \<and> wf_sync xo xs s' \<and> (settled s \<longrightarrow> settled s') \<and>
           (\<forall>st. e = Some st \<longrightarrow> s' = s \<and> st \<noteq> STATUS_SUCCESS)"
proof -
  have hl: "kept_alive xo xs q s" using x(1) at by (auto simp: kept_alive_def)
  show ?thesis
  proof (cases "sy_body r")
    case (Event_sync m sg)
    then show ?thesis using event_sync_signal_spec [OF wf hl, of m sg True] r at wf
      by (auto simp: obj_signal_def event_signal_def after_signal_def)
  next
    case (Semaphore_sync c m)
    then obtain s' where s': "release_semaphore q 1 s = Some (s', c, if c + 1 < c \<or> m < c + 1 then Some STATUS_SEMAPHORE_LIMIT_EXCEEDED else None)"
        "after_signal xo xs q s s'"
      using release_semaphore_spec [OF wf hl, of c m 1] r by auto
    have "s' = s" if "c + 1 < c \<or> m < c + 1" using s'(1) that r Semaphore_sync by (auto simp: release_semaphore_def)
    then show ?thesis using Semaphore_sync s' at wf by (auto simp: obj_signal_def semaphore_signal_def after_signal_def)
  next
    case (Mutex_sync ow c ab)
    have ok: "body_ok (sy_body r)" using wf r syncs_okD(4) by (auto simp: wf_sync_def inv_def)
    have "1 \<le> c" if "ow = Some t" using ok that unfolding Mutex_sync by (auto simp: body_ok_def word_le_nat_alt unat_gt_0 Suc_le_eq)
    then obtain s' where s': "do_release q t 1 s = Some (s', if ow = Some t then None else Some STATUS_MUTANT_NOT_OWNED)" "wf_sync xo xs s'" "settled s \<longrightarrow> settled s'"
      using do_release_spec [OF wf, of q ow c ab t 1] r x(2) Mutex_sync by auto
    have "s' = s" if "ow \<noteq> Some t" using s'(1) that r Mutex_sync by (auto simp: do_release_def)
    then show ?thesis using Mutex_sync s' at wf by (auto simp: obj_signal_def mutex_signal_def)
  qed
qed

lemma signal_object_spec:
  assumes wf: "wf_sync xo xs s" and h: "handles_ok xo [obj]" and x: "\<forall>q. xs q + 3 < MAX_REFS" and room: "ref_room 1 s"
  shows "\<exists>s' e. signal_object t obj access s = Some (s', e) \<and> wf_sync xo xs s' \<and> (settled s \<longrightarrow> settled s') \<and>
           (\<forall>st. e = Some st \<longrightarrow> fewer s s' \<and> st \<noteq> STATUS_SUCCESS)"
proof (cases obj)
  case (Inl st)
  then show ?thesis using wf h by (simp add: signal_object_def handles_ok_def)
next
  case (Inr p)
  have inv: "inv xo xs (wait_entries (y_waits s)) s" using wf by (simp add: wf_sync_def)
  have "y_objs s p \<noteq> None" using inv h Inr unfolding inv_def obj_ok_def handles_ok_def by fastforce
  then obtain o' where o': "y_objs s p = Some o'" by blast
  obtain s1 where s1: "grab_wobj p s = Some s1" "inv (xo(p := xo p + 1)) xs (wait_entries (y_waits s)) s1" "fewer s s1" "\<forall>p. sync_at p s1 = sync_at p s"
    using grab_wobj_inv [OF inv o', of 0] room by auto
  let ?xo = "xo(p := xo p + 1)"
  have wf1: "wf_sync ?xo xs s1" by (rule fewer_wf [OF wf s1(3,2)])
  have at: "sync_at p s1 = Some (ob_sync o')" using s1(4) o' by (simp add: sync_at_def)
  have hl: "kept_alive ?xo xs (ob_sync o') s1" using at by (auto simp: kept_alive_def intro!: exI [of _ p])
  obtain r where r: "y_syncs s1 (ob_sync o') = Some r" by (rule kept_sync [OF wf1 hl])
  obtain s2 e where s2: "obj_signal t p r access s1 = Some (s2, e)" "wf_sync ?xo xs s2" "settled s1 \<longrightarrow> settled s2"
      "\<forall>st. e = Some st \<longrightarrow> s2 = s1 \<and> st \<noteq> STATUS_SUCCESS"
    using obj_signal_spec [OF wf1 _ x at r, of t access] by auto
  obtain s3 where s3: "release_wobj p s2 = Some s3" "wf_sync (?xo(p := ?xo p - 1)) xs s3" "fewer s2 s3"
    using release_wobj_wf [OF s2(2), of p] by auto
  have "signal_object t obj access s = Some (s3, e)"
    using Inr s1(1) at r s2(1) s3(1) by (simp add: signal_object_def obj_signal_def)
  moreover have "?xo(p := ?xo p - 1) = xo" by simp
  moreover have "settled s \<longrightarrow> settled s3" using fewer_settled [OF wf s1(3)] s2(3) fewer_settled [OF s2(2) s3(3)] by blast
  moreover have "fewer s s3" if "e = Some st" for st using s2(4) that fewer_trans [OF s1(3)] s3(3) by auto
  ultimately show ?thesis using s3(2) s2(4) by auto
qed

section \<open>Select\<close>

text \<open>The current thread goes on with the wait it has just started, if there is one.\<close>

lemma new_wait_top: "new_wait t w wr s s' \<Longrightarrow> t_waits (y_threads s' t) = w # t_waits (y_threads s t) \<and> y_waits s' w = Some wr"
  by (simp add: new_wait_def)

lemma signal_and_wait_spec:
  assumes wf: "wf_sync xo xs s" and h: "\<forall>h a. signal = Some (h, a) \<longrightarrow> handles_ok xo [h]" and x: "\<forall>q. xs q + 3 < MAX_REFS" and room: "ref_room 1 s"
    and nw: "new_wait t w wr s0 s" "length (w_objs wr) = 1"
  shows "\<exists>s' d st.
      (case signal of None \<Rightarrow> finish_select timer_ok t cookie s
       | Some (h, access) \<Rightarrow>
           do {
             (s, e) \<leftarrow> signal_object t h access s;
             (case e of Some st \<Rightarrow> do { (s, st') \<leftarrow> end_wait t st s; Some (s, True, st) }
              | None \<Rightarrow>
                  if t_waits (y_threads s t) = [] then Some (s, True, STATUS_SUCCESS)
                  else finish_select timer_ok t cookie s)
           }) = Some (s', d, st) \<and> wf_sync xo xs s'"
proof (cases signal)
  case None
  then show ?thesis using finish_select_spec [OF wf] new_wait_top [OF nw(1)] by fastforce
next
  case (Some ha)
  obtain h a where ha: "ha = (h, a)" by fastforce
  obtain s1 e where s1: "signal_object t h a s = Some (s1, e)" "wf_sync xo xs s1" "\<forall>st. e = Some st \<longrightarrow> fewer s s1 \<and> st \<noteq> STATUS_SUCCESS"
    using signal_object_spec [OF wf _ x room, of h t a] h Some ha by auto
  show ?thesis
  proof (cases e)
    case None
    show ?thesis
    proof (cases "t_waits (y_threads s1 t)")
      case Nil
      then show ?thesis using Some ha s1 None by auto
    next
      case (Cons v vs)
      then show ?thesis using Some ha s1 None finish_select_spec [OF s1(2) Cons, of timer_ok cookie] by auto
    qed
  next
    case (Some st)
    have l: "fewer s s1" "unat st \<noteq> 0" using s1(3) Some by (auto simp: unsigned_eq_0_iff)
    have top: "t_waits (y_threads s1 t) = w # t_waits (y_threads s0 t)" "y_waits s1 w = Some wr"
      using new_wait_top [OF nw(1)] fewer_rest [OF l(1)] by simp_all
    have "ready t wr st s1" using l(2) nw(2) by (simp add: ready_def eaten_def)
    then obtain s2 st' where "end_wait t st s1 = Some (s2, st')" "wf_sync xo xs s2" using end_wait_spec [OF s1(2) top] by blast
    then show ?thesis using \<open>signal = Some ha\<close> ha s1(1) Some by auto
  qed
qed

text \<open>The objects of a request: the handles that refer to objects, without repetition in a wait for all.\<close>

fun select_ok :: "(nat \<Rightarrow> nat) \<Rightarrow> select_op \<Rightarrow> bool" where
  "select_ok xo Sel_none \<longleftrightarrow> True"
| "select_ok xo (Sel_wait hs) \<longleftrightarrow> handles_ok xo hs"
| "select_ok xo (Sel_wait_all hs) \<longleftrightarrow> handles_ok xo hs \<and> distinct hs"
| "select_ok xo (Sel_signal_and_wait h sg) \<longleftrightarrow> handles_ok xo [h] \<and> (\<forall>g a. sg = Some (g, a) \<longrightarrow> handles_ok xo [g])"

text \<open>Wait on handles, then go on with \<open>k\<close>.\<close>

lemma select_handles:
  assumes wf: "wf_sync xo xs s" and hs: "handles_ok xo hs" "length hs \<le> MAXIMUM_WAIT_OBJECTS" "op = SELECT_WAIT_ALL \<longrightarrow> distinct hs"
    and room: "roomy s" and mem: "\<forall>w. mem = Some w \<longrightarrow> y_waits s w = None"
    and k: "\<And>s1 w wr. wf_sync xo xs s1 \<Longrightarrow> new_wait t w wr s s1 \<Longrightarrow> length (w_objs wr) = length hs \<Longrightarrow> \<exists>s' d st. k s1 = Some (s', d, st) \<and> wf_sync xo xs s'"
  shows "\<exists>s' d st. do { (s, ok, st) \<leftarrow> wait_on_handles mem t op hs flags when s; if \<not> ok then Some (s, True, st) else k s } = Some (s', d, st) \<and> wf_sync xo xs s'"
proof -
  obtain s1 ok st where s1: "wait_on_handles mem t op hs flags when s = Some (s1, ok, st)" "wf_sync xo xs s1"
      "ok \<longrightarrow> (\<exists>w wr. new_wait t w wr s s1 \<and> length (w_objs wr) = length hs)"
    using wait_on_handles_spec [OF wf hs room mem] by blast
  show ?thesis
  proof (cases ok)
    case True
    then obtain w wr where "new_wait t w wr s s1" "length (w_objs wr) = length hs" using s1(3) by blast
    then show ?thesis using k [OF s1(2)] s1(1) True by auto
  qed (use s1 in auto)
qed

lemma finish_new_wait:
  assumes "wf_sync xo xs s1" "new_wait t w wr s s1"
  shows "\<exists>s' d st. finish_select timer_ok t cookie s1 = Some (s', d, st) \<and> wf_sync xo xs s'"
  using finish_select_spec [OF assms(1)] new_wait_top [OF assms(2)] by blast

lemma new_wait_refs:
  assumes wf: "wf_sync xo xs s" "wf_sync xo xs s1" and nw: "new_wait t w wr s s1" and room: "ref_room (n + length (w_objs wr)) s"
    and small: "n + length (w_objs wr) \<le> MAX_REFS"
  shows "ref_room n s1"
  unfolding ref_room_def
proof (intro allI impI)
  fix p r1 assume r1: "y_objs s1 p = Some r1"
  let ?E = "wait_entries (y_waits s)" and ?E1 = "wait_entries (y_waits s1)"
  let ?A = "{(v, i). (v, i, p) \<in> ?E}" and ?B = "(\<lambda>i. (w, i)) ` {..<length (w_objs wr)}"
  have o: "obj_ok xo ?E s" "obj_ok xo ?E1 s1" using wf by (simp_all add: wf_sync_def inv_def)
  have "finite ?E" using o(1) by (simp add: obj_ok_def)
  then have fin: "finite ?A" by (rule finite_subset [OF _ finite_imageI [of ?E "\<lambda>(w, i, p). (w, i)"], rotated]) force
  have "{(v, i). (v, i, p) \<in> ?E1} \<subseteq> ?A \<union> ?B" using nw by (auto simp: new_wait_def wait_entries_def split: if_splits)
  then have "card {(v, i). (v, i, p) \<in> ?E1} \<le> card (?A \<union> ?B)" using fin by (intro card_mono) auto
  also have "\<dots> \<le> card ?A + card ?B" by (rule card_Un_le)
  also have "card ?B \<le> length (w_objs wr)" using card_image_le [of "{..<length (w_objs wr)}" "\<lambda>i. (w, i)"] by simp
  finally have "ob_refs r1 \<le> xo p + card ?A + length (w_objs wr)" using o(2) r1 unfolding obj_ok_def by fastforce
  moreover have "xo p + card ?A + (n + length (w_objs wr)) \<le> MAX_REFS"
  proof (cases "y_objs s p")
    case None
    then have "xo p = 0" "?A = {}" using o(1) unfolding obj_ok_def by blast+
    then show ?thesis using small by (simp only: card.empty)
  next
    case (Some r)
    have "ob_refs r = xo p + card ?A" using o(1) Some unfolding obj_ok_def by blast
    then show ?thesis using ref_roomD [OF room Some] by simp
  qed
  ultimately show "ob_refs r1 + n \<le> MAX_REFS" by linarith
qed

text \<open>\<open>select_on\<close> returns and keeps the invariant.\<close>

lemma select_on_spec:
  assumes wf: "wf_sync xo xs s" and x: "\<forall>q. xs q + 3 < MAX_REFS" and room: "roomy s" and mem: "\<forall>w. mem = Some w \<longrightarrow> y_waits s w = None"
    and op: "select_ok xo op"
  shows "\<exists>s' d st. select_on mem timer_ok t op cookie flags when s = Some (s', d, st) \<and> wf_sync xo xs s'"
proof (cases op)
  case Sel_none
  show ?thesis
  proof (cases mem)
    case None
    then show ?thesis using Sel_none wf by (auto simp: select_on_def wait_on_def)
  next
    case (Some w)
    have r: "ref_room (length ([] :: nat list)) s" "queue_room (length ([] :: nat list)) s"
      using room ref_room_mono queue_room_mono unfolding roomy_def by (metis le0 list.size(3))+
    obtain s1 wr where s1: "wait_on (Some w) t SELECT_NONE [] flags when s = Some (s1, True)" "wf_sync xo xs s1" "new_wait t w wr s s1"
      using wait_on_spec [OF wf _ _ _ _ r, of w SELECT_NONE t flags "when"] mem Some by auto
    then show ?thesis using Sel_none Some finish_new_wait [OF s1(2,3)] by (simp add: select_on_def)
  qed
next
  case (Sel_wait hs)
  show ?thesis
  proof (cases "length hs \<le> MAXIMUM_WAIT_OBJECTS")
    case True
    have "\<exists>s' d st. do { (s, ok, st) \<leftarrow> wait_on_handles mem t SELECT_WAIT hs flags when s; if \<not> ok then Some (s, True, st) else finish_select timer_ok t cookie s } =
        Some (s', d, st) \<and> wf_sync xo xs s'"
      by (rule select_handles [OF wf _ True _ room mem]) (use op Sel_wait finish_new_wait in auto)
    then show ?thesis using Sel_wait True by (simp add: select_on_def)
  qed (use Sel_wait wf in \<open>auto simp: select_on_def\<close>)
next
  case (Sel_wait_all hs)
  show ?thesis
  proof (cases "length hs \<le> MAXIMUM_WAIT_OBJECTS")
    case True
    have "\<exists>s' d st. do { (s, ok, st) \<leftarrow> wait_on_handles mem t SELECT_WAIT_ALL hs flags when s; if \<not> ok then Some (s, True, st) else finish_select timer_ok t cookie s } =
        Some (s', d, st) \<and> wf_sync xo xs s'"
      by (rule select_handles [OF wf _ True _ room mem]) (use op Sel_wait_all finish_new_wait in auto)
    then show ?thesis using Sel_wait_all True by (simp add: select_on_def)
  qed (use Sel_wait_all wf in \<open>auto simp: select_on_def\<close>)
next
  case (Sel_signal_and_wait h sg)
  have one: "length [h] \<le> MAXIMUM_WAIT_OBJECTS" by (simp add: MAXIMUM_WAIT_OBJECTS_def)
  have rr: "ref_room (1 + 1) s" by (rule ref_room_mono [of "2 * MAXIMUM_WAIT_OBJECTS"]) (use room in \<open>simp_all add: roomy_def MAXIMUM_WAIT_OBJECTS_def\<close>)
  show ?thesis
    unfolding select_on_def Sel_signal_and_wait select_op.case
  proof (rule select_handles [OF wf _ one _ room mem])
    fix s1 w wr assume n: "wf_sync xo xs s1" "new_wait t w wr s s1" "length (w_objs wr) = length [h]"
    have "ref_room 1 s1" by (rule new_wait_refs [OF wf n(1,2)]) (use rr n(3) in \<open>simp_all add: MAX_REFS_def\<close>)
    then show "\<exists>s' d st.
      (case sg of None \<Rightarrow> finish_select timer_ok t cookie s1
       | Some (h, access) \<Rightarrow>
           do {
             (s, e) \<leftarrow> signal_object t h access s1;
             (case e of Some st \<Rightarrow> do { (s, st') \<leftarrow> end_wait t st s; Some (s, True, st) }
              | None \<Rightarrow>
                  if t_waits (y_threads s t) = [] then Some (s, True, STATUS_SUCCESS)
                  else finish_select timer_ok t cookie s)
           }) = Some (s', d, st) \<and> wf_sync xo xs s'"
      by (intro signal_and_wait_spec [OF n(1) _ x _ n(2)]) (use op Sel_signal_and_wait n(3) in simp_all)
  qed (use op Sel_signal_and_wait in simp_all)
qed

section \<open>Timeouts\<close>

lemma thread_timeout_spec:
  assumes wf: "wf_sync xo xs s" and r: "y_waits s w = Some r" "w_cookie r \<noteq> 0"
  shows "\<exists>s'. thread_timeout w s = Some s' \<and> wf_sync xo xs s'"
proof -
  let ?t = "w_thread r" and ?r = "r\<lparr>w_user := False\<rparr>"
  let ?s = "set_wait w (Some ?r) s"
  have wf1: "wf_sync xo xs ?s" by (rule set_wait_wf [OF wf r(1)]) simp_all
  show ?thesis
  proof (cases "t_waits (y_threads s ?t) \<noteq> [] \<and> hd (t_waits (y_threads s ?t)) = w \<and> \<not> is_thread_suspended ?t ?s")
    case True
    then have tw: "t_waits (y_threads ?s ?t) = w # tl (t_waits (y_threads s ?t))" by (cases "t_waits (y_threads s ?t)") auto
    have "ready ?t ?r STATUS_TIMEOUT ?s" using wf_sync_wait(1) [OF wf r(1)] by (simp add: ready_def eaten_def MAXIMUM_WAIT_OBJECTS_def)
    then obtain s1 st where s1: "end_wait ?t STATUS_TIMEOUT ?s = Some (s1, st)" "wf_sync xo xs s1"
      using end_wait_spec [OF wf1 tw, of ?r STATUS_TIMEOUT] by auto
    obtain s2 n where "wake_thread ?t (send_thread_wakeup ?t (w_cookie r) STATUS_TIMEOUT s1) = Some (s2, n)" "wf_sync xo xs s2"
      using wake_thread_spec [OF thread_only_wf [OF thread_only_wakeup [of ?t s1 "w_cookie r" STATUS_TIMEOUT] s1(2)]] by blast
    then show ?thesis using r True s1(1) by (simp add: thread_timeout_def)
  next
    case False
    then show ?thesis using r(1) wf1 by (auto simp: thread_timeout_def Let_def)
  qed
qed

end
