(* ===== verification/Sync_Steps.thy ===== *)
theory Sync_Steps
  imports Sync_Ops
begin

text \<open>
  The requests on events, semaphores and mutexes, and the server as a transition system: requests,
  timeouts, ends of threads and the passing of time, in any order.
\<close>

section \<open>Requests\<close>

text \<open>A request on an object that it refers to; it drops the reference at the end.\<close>

lemma request_end:
  assumes "wf_sync (xo(p := xo p + 1)) xs s1" "settled s \<longrightarrow> settled s1"
  shows "\<exists>s'. release_wobj p s1 = Some s' \<and> wf_sync xo xs s' \<and> (settled s \<longrightarrow> settled s')"
proof -
  let ?xo = "xo(p := xo p + 1)"
  obtain s' where s': "release_wobj p s1 = Some s'" "wf_sync (?xo(p := ?xo p - 1)) xs s'" "fewer s1 s'"
    using release_wobj_wf [OF assms(1), of p] by auto
  have "?xo(p := ?xo p - 1) = xo" by simp
  then show ?thesis using s' assms(2) fewer_settled [OF assms(1) s'(3)] by auto
qed

lemma request_sync:
  assumes "wf_sync (xo(p := xo p + 1)) xs s"
  obtains q r where "sync_at p s = Some q" "y_syncs s q = Some r" "kept_alive (xo(p := xo p + 1)) xs q s"
proof -
  have ok: "obj_ok (xo(p := xo p + 1)) (wait_entries (y_waits s)) s" using assms by (simp add: wf_sync_def inv_def)
  have "y_objs s p \<noteq> None" using ok unfolding obj_ok_def by (metis Suc_eq_plus1 Zero_not_Suc fun_upd_same)
  then obtain o' where o': "y_objs s p = Some o'" by blast
  then have k: "kept_alive (xo(p := xo p + 1)) xs (ob_sync o') s" by (auto simp: kept_alive_def sync_at_def intro!: exI [of _ p])
  obtain r where "y_syncs s (ob_sync o') = Some r" by (rule kept_sync [OF assms k])
  then show thesis using that [OF _ _ k] o' by (simp add: sync_at_def)
qed

lemma stable_event:
  assumes "stable xo s s'" "body s q = Some (Event_sync m sg)" "y_syncs s' q = Some r'"
  shows "\<exists>sg'. body s' q = Some (Event_sync m sg')"
proof -
  obtain r where "y_syncs s q = Some r" "fixed_part (sy_body r') = fixed_part (sy_body r)" using assms(1,3) unfolding stable_def by blast
  then have "\<exists>sg'. sy_body r' = Event_sync m sg'" using assms(2) by (cases "sy_body r'") auto
  then show ?thesis using assms(3) by auto
qed

lemma req_event_op_spec:
  assumes wf: "wf_sync (xo(p := xo p + 1)) xs s" and at: "sync_at p s = Some q" "body s q = Some (Event_sync m sg)"
  shows "\<exists>s' e. req_event_op (Inr p) op s = Some (s', e) \<and> wf_sync xo xs s' \<and> (settled s \<longrightarrow> settled s')"
proof -
  let ?xo = "xo(p := xo p + 1)"
  have step: "\<exists>s2 sg'. event_sync_signal q v s1 = Some s2 \<and> wf_sync ?xo xs s2 \<and> (settled s1 \<longrightarrow> settled s2) \<and> sync_at p s2 = Some q \<and> body s2 q = Some (Event_sync m sg')"
    if w: "wf_sync ?xo xs s1" "sync_at p s1 = Some q" "body s1 q = Some (Event_sync m sg1)" for s1 sg1 v
  proof -
    have k: "kept_alive ?xo xs q s1" using w(2) by (auto simp: kept_alive_def intro!: exI [of _ p])
    obtain s2 where s2: "event_sync_signal q v s1 = Some s2" "after_signal ?xo xs q s1 s2" using event_sync_signal_spec [OF w(1) k w(3)] by blast
    have wf2: "wf_sync ?xo xs s2" "kept_alive ?xo xs q s2" "sync_at p s2 = Some q" using s2(2) w(2) by (simp_all add: after_signal_def stable_def)
    obtain r2 where r2: "y_syncs s2 q = Some r2" by (rule kept_sync [OF wf2(1,2)])
    have "\<exists>sg'. body s2 q = Some (Event_sync m sg')" using stable_event [of ?xo s1 s2] s2(2) w(3) r2 by (simp add: after_signal_def)
    then show ?thesis using s2 wf2 by (auto simp: after_signal_def)
  qed
  obtain r where r: "y_syncs s q = Some r" "sy_body r = Event_sync m sg" using at(2) by auto
  have head: "req_event_op (Inr p) op s =
      do {
        (s, e) \<leftarrow>
          (case op of
             PULSE_EVENT \<Rightarrow> do { s \<leftarrow> set_event p s; s \<leftarrow> reset_event p s; Some (s, Inr sg) }
           | SET_EVENT \<Rightarrow> do { s \<leftarrow> set_event p s; Some (s, Inr sg) }
           | RESET_EVENT \<Rightarrow> do { s \<leftarrow> reset_event p s; Some (s, Inr sg) }
           | Other_event_op \<Rightarrow> Some (s, Inl STATUS_INVALID_PARAMETER));
        s \<leftarrow> release_wobj p s;
        Some (s, e)
      }"
    using r at(1) by (simp add: req_event_op_def event_sync_signaled_def)
  obtain s1 sg1 where s1: "event_sync_signal q True s = Some s1" "wf_sync ?xo xs s1" "settled s \<longrightarrow> settled s1" "sync_at p s1 = Some q" "body s1 q = Some (Event_sync m sg1)"
    using step [OF wf at] by blast
  obtain s2 where s2: "event_sync_signal q False s = Some s2" "wf_sync ?xo xs s2" "settled s \<longrightarrow> settled s2" using step [OF wf at] by blast
  obtain s3 where s3: "event_sync_signal q False s1 = Some s3" "wf_sync ?xo xs s3" "settled s \<longrightarrow> settled s3" using step [OF s1(2,4,5)] s1(3) by blast
  show ?thesis
    unfolding head using at(1) s1(1,4) s2(1) s3(1) request_end [OF s1(2,3)] request_end [OF s2(2,3)] request_end [OF s3(2,3)] request_end [OF wf, of s]
    by (cases op) (auto simp: set_event_def reset_event_def)
qed

lemma req_release_semaphore_spec:
  assumes wf: "wf_sync (xo(p := xo p + 1)) xs s" and at: "sync_at p s = Some q" "body s q = Some (Semaphore_sync c m)"
  shows "\<exists>s' e. req_release_semaphore (Inr p) count s = Some (s', Inr (c, e)) \<and> wf_sync xo xs s' \<and> (settled s \<longrightarrow> settled s')"
proof -
  have k: "kept_alive (xo(p := xo p + 1)) xs q s" using at(1) by (auto simp: kept_alive_def intro!: exI [of _ p])
  obtain s1 e where s1: "release_semaphore q count s = Some (s1, c, e)" "wf_sync (xo(p := xo p + 1)) xs s1" "settled s \<longrightarrow> settled s1"
    using release_semaphore_spec [OF wf k at(2), of count] by (auto simp: after_signal_def)
  then show ?thesis using at(1) request_end [OF s1(2,3)] by (auto simp: req_release_semaphore_def)
qed

lemma req_release_mutex_spec:
  assumes wf: "wf_sync (xo(p := xo p + 1)) xs s" and x: "\<forall>q. xs q + 3 < MAX_REFS"
    and at: "sync_at p s = Some q" "body s q = Some (Mutex_sync ow c ab)"
  shows "\<exists>s' e. req_release_mutex t (Inr p) s = Some (s', Inr (c, e)) \<and> wf_sync xo xs s' \<and> (settled s \<longrightarrow> settled s')"
proof -
  obtain r where r: "y_syncs s q = Some r" "sy_body r = Mutex_sync ow c ab" using at(2) by auto
  have "body_ok (sy_body r)" using wf r(1) syncs_okD(4) by (auto simp: wf_sync_def inv_def)
  then have "ow = Some t \<longrightarrow> 1 \<le> c" unfolding r(2) by (auto simp: body_ok_def word_le_nat_alt unat_gt_0 Suc_le_eq)
  then obtain s1 e where s1: "do_release q t 1 s = Some (s1, e)" "wf_sync (xo(p := xo p + 1)) xs s1" "settled s \<longrightarrow> settled s1"
    using do_release_spec [OF wf at(2), of t 1] x by blast
  then show ?thesis using at(1) r request_end [OF s1(2,3)] by (auto simp: req_release_mutex_def)
qed

section \<open>Suspending and killing threads\<close>

lemma lowered_chk:
  assumes "wf_sync xo xs s" "lowered T s s'" "t \<notin> T" "chk t s = None"
  shows "chk t s' = None"
  unfolding chk_def
  by (rule lowered_chk_with [OF assms(1,2,3), of _ "osig s t"]) (use lowered_osig [OF assms(2)] assms(4) in \<open>auto simp: chk_def\<close>)

lemma resume_thread_spec:
  assumes wf: "wf_sync xo xs s"
  shows "\<exists>s'. resume_thread t s = Some (s', t_suspend (y_threads s t)) \<and> wf_sync xo xs s' \<and> (settled s \<longrightarrow> settled s')"
proof (cases "t_suspend (y_threads s t) > 0")
  case True
  define s1 where "s1 = upd_thread t (t_suspend_update (\<lambda>n. n - 1)) s"
  have o1: "thread_only t s s1" by (simp add: thread_only_def s1_def)
  have wf1: "wf_sync xo xs s1" by (rule thread_only_wf [OF o1 wf])
  have others: "chk u s1 = None" if "settled s" "u \<noteq> t" for u
    by (rule lowered_chk [OF wf thread_only_lowered [OF o1]]) (use that in \<open>auto simp: settled_def\<close>)
  show ?thesis
  proof (cases "is_thread_suspended t s1")
    case su: True
    have "chk t s1 = None" if "settled s"
    proof -
      have "is_thread_suspended t s" using su True by (simp add: is_thread_suspended_def s1_def Let_def split: if_splits)
      moreover have "chk t s = None" using that by (simp add: settled_def)
      ultimately show ?thesis using su by (auto simp: chk_def chk_with_def wait_status_def s1_def split: list.splits option.splits if_splits)
    qed
    then have "settled s \<longrightarrow> settled s1" using others unfolding settled_def [of s1] by metis
    then show ?thesis using True su wf1 by (simp add: resume_thread_def s1_def)
  next
    case False
    obtain s2 n where s2: "wake_thread t s1 = Some (s2, n)" "wf_sync xo xs s2" "woken t n s1 s2" by (rule wake_thread_spec [OF wf1])
    have "lowered {t} s1 s2" "chk t s2 = None" using s2(3) by (simp_all add: woken_def)
    then have "settled s \<longrightarrow> settled s2" using others lowered_chk [OF wf1, of "{t}" s2] unfolding settled_def [of s2] by (metis singletonD)
    then show ?thesis using True False s2(1,2) by (simp add: resume_thread_def s1_def)
  qed
next
  case False
  then show ?thesis using wf by (simp add: resume_thread_def)
qed

lemma end_waits_spec:
  assumes "wf_sync xo xs s"
  shows "\<exists>s'. end_waits t s = Some s' \<and> wf_sync xo xs s' \<and> lowered {t} s s' \<and> t \<notin> waiting s'"
  using assms
proof (induction "length (t_waits (y_threads s t))" arbitrary: s rule: less_induct)
  case less
  show ?case
  proof (cases "t_waits (y_threads s t)")
    case Nil
    then show ?thesis using less.prems end_waits.simps [of t s] by (simp add: waiting_def)
  next
    case (Cons w ws)
    obtain wr where wr: "y_waits s w = Some wr" by (rule wf_sync_head [OF less.prems Cons])
    have "ready t wr STATUS_THREAD_IS_TERMINATING s" using wf_sync_wait(1) [OF less.prems wr] by (simp add: ready_def eaten_def MAXIMUM_WAIT_OBJECTS_def)
    then obtain s1 st where s1: "end_wait t STATUS_THREAD_IS_TERMINATING s = Some (s1, st)" "wf_sync xo xs s1" "lowered {t} s s1" "t_waits (y_threads s1 t) = ws"
      using end_wait_spec [OF less.prems Cons wr] by blast
    obtain s' where s': "end_waits t s1 = Some s'" "wf_sync xo xs s'" "lowered {t} s1 s'" "t \<notin> waiting s'"
      using less.hyps [OF _ s1(2)] s1(4) Cons by auto
    have "end_waits t s = Some s'" by (subst end_waits.simps) (use Cons s1(1) s'(1) in simp)
    then show ?thesis using s' lowered_trans [OF s1(3) s'(3)] by auto
  qed
qed

text \<open>\<open>kill_thread\<close>: the thread no longer waits and owns no mutex, and all threads that can go on do.\<close>

lemma kill_thread_spec:
  assumes wf: "wf_sync xo xs s" and x: "\<forall>q. xs q + 3 < MAX_REFS" and q: "kept_alive xo xs q s" "body s q = Some (Event_sync m sg)"
  shows "\<exists>s'. kill_thread t q exit_code s = Some s' \<and> wf_sync xo xs s' \<and> (settled s \<longrightarrow> settled s') \<and>
           t_waits (y_threads s' t) = [] \<and> t_mutex_list (y_threads s' t) = []"
proof -
  have "\<exists>s1. (if t_waits (y_threads s t) \<noteq> [] then do { s \<leftarrow> end_waits t s; Some (send_thread_wakeup t 0 exit_code s) } else Some s) = Some s1 \<and>
      wf_sync xo xs s1 \<and> lowered {t} s s1 \<and> t \<notin> waiting s1"
  proof (cases "t_waits (y_threads s t) = []")
    case False
    obtain s1 where s1: "end_waits t s = Some s1" "wf_sync xo xs s1" "lowered {t} s s1" "t \<notin> waiting s1" using end_waits_spec [OF wf] by blast
    let ?s = "send_thread_wakeup t 0 exit_code s1"
    have o: "thread_only t s1 ?s" by simp
    have "t \<notin> waiting ?s" using o s1(4) by (simp add: thread_only_def waiting_def)
    then show ?thesis using False s1(1) thread_only_wf [OF o s1(2)] lowered_trans [OF s1(3) thread_only_lowered [OF o]] by simp
  qed (use wf in \<open>simp add: waiting_def\<close>)
  then obtain s1 where s1: "(if t_waits (y_threads s t) \<noteq> [] then do { s \<leftarrow> end_waits t s; Some (send_thread_wakeup t 0 exit_code s) } else Some s) = Some s1"
      "wf_sync xo xs s1" "lowered {t} s s1" "t \<notin> waiting s1" by blast
  have "chk t s1 = None" using s1(4) by (simp add: waiting_def chk_def chk_with_def)
  then have st1: "settled s \<longrightarrow> settled s1" using lowered_chk [OF wf s1(3)] unfolding settled_def by (metis singletonD)
  obtain s2 where s2: "abandon_mutexes t s1 = Some s2" "wf_sync xo xs s2" "settled s1 \<longrightarrow> settled s2" "stable xo s1 s2" "t_mutex_list (y_threads s2 t) = []" "t \<notin> waiting s2"
    using abandon_mutexes_spec [OF s1(2,4) x] by blast
  have sb: "stable xo s s2" by (rule stable_trans [OF lowered_stable [OF s1(2,3)] s2(4)])
  have k: "kept_alive xo xs q s2" by (rule kept_stable [OF sb q(1)])
  obtain r2 where r2: "y_syncs s2 q = Some r2" by (rule kept_sync [OF s2(2) k])
  obtain sg' where "body s2 q = Some (Event_sync m sg')" using stable_event [OF sb q(2) r2] by blast
  then obtain s' where s': "event_sync_signal q True s2 = Some s'" "after_signal xo xs q s2 s'" using event_sync_signal_spec [OF s2(2) k] by blast
  have "kill_thread t q exit_code s = Some s'" unfolding kill_thread_def s1(1) using s2(1) s'(1) by simp
  moreover have "y_threads s' t = y_threads s2 t" using s'(2) s2(6) by (simp add: after_signal_def)
  ultimately show ?thesis using s'(2) s2(3,5,6) st1 by (auto simp: after_signal_def waiting_def)
qed

section \<open>Transitions\<close>

text \<open>
  A request on an object has found it through a handle of the table, which grabs a reference.  The
  server refuses a select with cookie 0, so waits with a timer have another one.  Between requests time
  passes, and asynchronous calls arrive.
\<close>

inductive sync_step :: "(nat \<Rightarrow> nat) \<Rightarrow> sync_state \<Rightarrow> sync_state \<Rightarrow> bool" for xo where
  Select: "roomy s \<Longrightarrow> \<forall>w. mem = Some w \<longrightarrow> y_waits s w = None \<Longrightarrow> select_ok xo op \<Longrightarrow>
    select_on mem timer_ok t op cookie flags when s = Some (s', d, st) \<Longrightarrow> sync_step xo s s'"
| Event_op: "0 < xo p \<Longrightarrow> grab_wobj p s = Some s1 \<Longrightarrow> sync_at p s = Some q \<Longrightarrow> body s q = Some (Event_sync m sg) \<Longrightarrow>
    req_event_op (Inr p) eop s1 = Some (s', res) \<Longrightarrow> sync_step xo s s'"
| Release_semaphore: "0 < xo p \<Longrightarrow> grab_wobj p s = Some s1 \<Longrightarrow> sync_at p s = Some q \<Longrightarrow> body s q = Some (Semaphore_sync c mx) \<Longrightarrow>
    req_release_semaphore (Inr p) count s1 = Some (s', prev) \<Longrightarrow> sync_step xo s s'"
| Release_mutex: "0 < xo p \<Longrightarrow> grab_wobj p s = Some s1 \<Longrightarrow> sync_at p s = Some q \<Longrightarrow> body s q = Some (Mutex_sync ow n ab) \<Longrightarrow>
    req_release_mutex t (Inr p) s1 = Some (s', prev) \<Longrightarrow> sync_step xo s s'"
| Timeout: "y_waits s w = Some r \<Longrightarrow> w_cookie r \<noteq> 0 \<Longrightarrow> thread_timeout w s = Some s' \<Longrightarrow> sync_step xo s s'"
| Suspend: "suspend_thread ok t s = (s', old, e) \<Longrightarrow> sync_step xo s s'"
| Resume: "resume_thread t s = Some (s', old) \<Longrightarrow> sync_step xo s s'"
| Kill: "0 < xo p \<Longrightarrow> sync_at p s = Some q \<Longrightarrow> body s q = Some (Event_sync m sg) \<Longrightarrow> kill_thread t q exit_code s = Some s' \<Longrightarrow> sync_step xo s s'"
| Time: "sync_step xo s (s\<lparr>y_current_time := now, y_monotonic_time := mon\<rparr>)"
| Apc: "sync_step xo s (upd_thread t (\<lambda>th. th\<lparr>t_system_apc := sys, t_user_apc := usr\<rparr>) s)"

lemma grab_wobj_wf:
  assumes "wf_sync xo xs s" "grab_wobj p s = Some s1"
  shows "wf_sync (xo(p := xo p + 1)) xs s1" "sync_at p' s1 = sync_at p' s" "y_syncs s1 = y_syncs s" "fewer s s1"
proof -
  have inv: "inv xo xs (wait_entries (y_waits s)) s" using assms(1) by (simp add: wf_sync_def)
  obtain r where r: "y_objs s p = Some r" "s1 = set_wobj p (Some (r\<lparr>ob_refs := ob_refs r + 1\<rparr>)) s"
    using assms(2) by (auto simp: grab_wobj_def split: option.splits if_splits)
  note g = grab_wobj_some [OF inv r(1), folded r(2)]
  then show "sync_at p' s1 = sync_at p' s" "y_syncs s1 = y_syncs s" "fewer s s1" by simp_all
  show "wf_sync (xo(p := xo p + 1)) xs s1" by (rule fewer_wf [OF assms(1) g(2,1)])
qed

abbreviation no_refs :: "nat \<Rightarrow> nat" where
  "no_refs \<equiv> \<lambda>_. 0"

lemma no_refs_room: "\<forall>q. no_refs q + 3 < MAX_REFS"
  by (simp add: MAX_REFS_def)

lemma suspend_thread_only: "suspend_thread ok t s = (s', old, e) \<Longrightarrow> thread_only t s s'"
  unfolding suspend_thread_def stop_thread_def thread_only_def Let_def by (auto split: if_splits)

text \<open>Every step keeps the invariant.\<close>

lemma sync_step_keeps:
  assumes "sync_step xo s s'" "wf_sync xo no_refs s"
  shows "wf_sync xo no_refs s'"
  using assms
proof (cases rule: sync_step.cases)
  case (Select mem op timer_ok t cookie flags "when" d st)
  then show ?thesis using select_on_spec [OF assms(2) no_refs_room Select(1,2,3), of timer_ok t cookie flags "when"] by auto
next
  case (Event_op p s1 q m sg eop res)
  note g = grab_wobj_wf [OF assms(2) Event_op(2)]
  show ?thesis using req_event_op_spec [OF g(1), of q m sg eop] Event_op g by auto
next
  case (Release_semaphore p s1 q c mx count prev)
  note g = grab_wobj_wf [OF assms(2) Release_semaphore(2)]
  show ?thesis using req_release_semaphore_spec [OF g(1), of q c mx count] Release_semaphore g by auto
next
  case (Release_mutex p s1 q ow n ab t prev)
  note g = grab_wobj_wf [OF assms(2) Release_mutex(2)]
  show ?thesis using req_release_mutex_spec [OF g(1) no_refs_room, of q ow n ab t] Release_mutex g by auto
next
  case (Timeout w r)
  then show ?thesis using thread_timeout_spec [OF assms(2) Timeout(1,2)] by auto
next
  case (Suspend ok t old e)
  show ?thesis by (rule thread_only_wf [OF suspend_thread_only [OF Suspend] assms(2)])
next
  case (Resume t old)
  then show ?thesis using resume_thread_spec [OF assms(2), of t] by auto
next
  case (Kill p q m sg t exit_code)
  then have "kept_alive xo no_refs q s" by (auto simp: kept_alive_def)
  then show ?thesis using kill_thread_spec [OF assms(2) no_refs_room _ Kill(3), of t exit_code] Kill(4) by auto
next
  case (Time now mon)
  then show ?thesis using wf_sync_cong [OF assms(2)] by simp
next
  case (Apc t sys usr)
  show ?thesis unfolding Apc by (rule wf_sync_cong [OF assms(2)]) simp_all
qed

interpretation sy: transition_invariant "sync_step xo" "wf_sync xo no_refs" for xo
  by unfold_locales (rule sync_step_keeps)

end
