(* ===== verification/Sync_Props.thy ===== *)
theory Sync_Props
  imports Sync_Steps
begin

text \<open>
  Properties of waits and synchronization objects.
\<close>

section \<open>Example states\<close>

definition idle :: thread_rec where
  "idle = \<lparr>t_waits = [], t_mutex_list = [], t_suspend = 0, t_bypass_proc_suspend = False, t_process = 0,
           t_system_apc = [], t_user_apc = [], t_context = None, t_suspend_cookie = 0\<rparr>"

definition plain_wait :: "nat \<Rightarrow> select_opcode \<Rightarrow> int \<Rightarrow> nat list \<Rightarrow> thread_wait" where
  "plain_wait t op when ps = \<lparr>w_thread = t, w_flags = 0, w_abandoned = False, w_select = op, w_cookie = 1, w_when = when,
                              w_user = False, w_status = 0, w_objs = ps\<rparr>"

text \<open>
  Two auto-reset events.  Thread 1 waits for both, until time 100; thread 2 waits for the first one.
\<close>

definition two_waiters :: "int \<Rightarrow> sync_state" where
  "two_waiters now =
     \<lparr>y_syncs = [0 \<mapsto> \<lparr>sy_refs = 1, sy_queue = [(0, 0), (1, 0)], sy_body = Event_sync False False\<rparr>,
                 1 \<mapsto> \<lparr>sy_refs = 1, sy_queue = [(0, 1)], sy_body = Event_sync False False\<rparr>],
      y_objs = [0 \<mapsto> \<lparr>ob_refs = 3, ob_sync = 0\<rparr>, 1 \<mapsto> \<lparr>ob_refs = 2, ob_sync = 1\<rparr>],
      y_waits = [0 \<mapsto> plain_wait 1 SELECT_WAIT_ALL 100 [0, 1], 1 \<mapsto> plain_wait 2 SELECT_WAIT TIMEOUT_INFINITE [0]],
      y_threads = (\<lambda>_. idle)(1 := idle\<lparr>t_waits := [0]\<rparr>, 2 := idle\<lparr>t_waits := [1]\<rparr>),
      y_proc_suspend = (\<lambda>_. 0), y_current_time = now, y_monotonic_time = now, y_replies = []\<rparr>"

definition two_refs :: "nat \<Rightarrow> nat" where
  "two_refs p = (if p < 2 then 1 else 0)"

lemma two_waiters_entries: "wait_entries (y_waits (two_waiters now)) = {(0, 0, 0), (0, 1, 1), (1, 0, 0)}"
  by (auto simp: wait_entries_def two_waiters_def plain_wait_def less_Suc_eq split: if_splits)

lemma two_waiters_wf: "wf_sync two_refs no_refs (two_waiters now)"
proof -
  have c: "{(w, i). (w, i, p) \<in> {(0 :: nat, 0 :: nat, 0 :: nat), (0, 1, 1), (1, 0, 0)}} = (if p = 0 then {(0, 0), (1, 0)} else if p = 1 then {(0, 1)} else {})" for p
    by auto
  have "obj_ok two_refs {(0, 0, 0), (0, 1, 1), (1, 0, 0)} (two_waiters now)"
    unfolding obj_ok_def c by (auto simp: two_waiters_def two_refs_def split: if_splits)
  moreover have "syncs_ok no_refs {(0, 0, 0), (0, 1, 1), (1, 0, 0)} (two_waiters now)"
    unfolding syncs_ok_def rec_ok_def by (auto simp: two_waiters_def sync_at_def MAX_REFS_def body_ok_def owned_def split: if_splits)
  moreover have "mutex_ok (two_waiters now)" by (auto simp: mutex_ok_def two_waiters_def idle_def)
  moreover have "mutex_room {} (two_waiters now)" by (auto simp: mutex_room_def two_waiters_def split: if_splits)
  moreover have "wait_ok (two_waiters now)"
    by (auto simp: wait_ok_def two_waiters_def plain_wait_def idle_def MAXIMUM_WAIT_OBJECTS_def split: if_splits)
  ultimately show ?thesis by (simp add: wf_sync_def inv_def two_waiters_entries)
qed

section \<open>Sleeping threads\<close>

text \<open>Every thread that waits has to: \<open>check_wait\<close> does not let its wait end.\<close>

definition all_asleep :: "sync_state \<Rightarrow> bool" where
  "all_asleep s \<longleftrightarrow> (\<forall>t. t_waits (y_threads s t) \<noteq> [] \<longrightarrow> check_wait t s = Some (s, None))"

lemma all_asleep_settled:
  assumes "wf_sync xo xs s"
  shows "all_asleep s \<longleftrightarrow> settled s"
proof -
  have "check_wait t s = Some (s, None) \<longleftrightarrow> chk t s = None" if "t_waits (y_threads s t) = w # ws" for t w ws
    using check_wait_eq [OF assms that] by auto
  moreover have "chk t s = None" if "t_waits (y_threads s t) = []" for t using that by (simp add: chk_def chk_with_def)
  ultimately show ?thesis unfolding all_asleep_def settled_def by (metis list.exhaust)
qed

lemma two_waiters_asleep: "all_asleep (two_waiters 50)"
proof -
  have "chk t (two_waiters 50) = None" for t
    by (simp add: chk_def chk_with_def two_waiters_def idle_def plain_wait_def wait_status_def obj_status_def other_status_def osig_def TIMEOUT_INFINITE_def)
  then show ?thesis using all_asleep_settled [OF two_waiters_wf] by (simp add: settled_def)
qed








section \<open>Properties\<close>

text \<open>
  C38.  No wake-up is lost: if every waiting thread has to wait, then signaling or resetting an event,
  releasing a semaphore or a mutex, resuming a thread and killing a thread all return, and again every
  thread that still waits has to; a thread whose wait can end because of the operation has been woken up.
\<close>

theorem no_lost_wakeup:
  assumes "wf_sync xo no_refs s" "all_asleep s" "0 < xo p" "sync_at p s = Some q" "body s q = Some b"
  shows "(case b of
            Event_sync m sg \<Rightarrow>
              (\<exists>s'. event_sync_signal q v s = Some s' \<and> wf_sync xo no_refs s' \<and> all_asleep s') \<and>
              (\<exists>s'. kill_thread t q exit_code s = Some s' \<and> wf_sync xo no_refs s' \<and> all_asleep s' \<and>
                    t_waits (y_threads s' t) = [] \<and> t_mutex_list (y_threads s' t) = [])
          | Semaphore_sync c mx \<Rightarrow>
              (\<exists>s' e. release_semaphore q count s = Some (s', c, e) \<and> wf_sync xo no_refs s' \<and> all_asleep s')
          | Mutex_sync ow n ab \<Rightarrow>
              (\<exists>s' e. do_release q t 1 s = Some (s', e) \<and> wf_sync xo no_refs s' \<and> all_asleep s')) \<and>
         (\<exists>s' old. resume_thread t s = Some (s', old) \<and> wf_sync xo no_refs s' \<and> all_asleep s')"
proof (intro conjI)
  note wf = assms(1)
  have st: "settled s" using assms(2) all_asleep_settled [OF wf] by simp
  have k: "kept_alive xo no_refs q s" using assms(3,4) by (auto simp: kept_alive_def)
  obtain r where r: "y_syncs s q = Some r" "sy_body r = b" using assms(5) by auto
  have ok: "body_ok b" using wf r syncs_okD(4) by (auto simp: wf_sync_def inv_def)
  show "\<exists>s' old. resume_thread t s = Some (s', old) \<and> wf_sync xo no_refs s' \<and> all_asleep s'"
    using resume_thread_spec [OF wf, of t] st all_asleep_settled by blast
  show "case b of
            Event_sync m sg \<Rightarrow>
              (\<exists>s'. event_sync_signal q v s = Some s' \<and> wf_sync xo no_refs s' \<and> all_asleep s') \<and>
              (\<exists>s'. kill_thread t q exit_code s = Some s' \<and> wf_sync xo no_refs s' \<and> all_asleep s' \<and>
                    t_waits (y_threads s' t) = [] \<and> t_mutex_list (y_threads s' t) = [])
          | Semaphore_sync c mx \<Rightarrow>
              (\<exists>s' e. release_semaphore q count s = Some (s', c, e) \<and> wf_sync xo no_refs s' \<and> all_asleep s')
          | Mutex_sync ow n ab \<Rightarrow>
              (\<exists>s' e. do_release q t 1 s = Some (s', e) \<and> wf_sync xo no_refs s' \<and> all_asleep s')"
  proof (cases b)
    case (Event_sync m sg)
    note b = assms(5) [unfolded Event_sync]
    show ?thesis unfolding Event_sync sync_body.case
      using event_sync_signal_spec [OF wf k b, of v] kill_thread_spec [OF wf no_refs_room k b, of t exit_code] st all_asleep_settled
      unfolding after_signal_def by blast
  next
    case (Semaphore_sync c mx)
    note b = assms(5) [unfolded Semaphore_sync]
    show ?thesis unfolding Semaphore_sync sync_body.case
      using release_semaphore_spec [OF wf k b, of count] st all_asleep_settled unfolding after_signal_def by blast
  next
    case (Mutex_sync ow n ab)
    note b = assms(5) [unfolded Mutex_sync]
    have "ow = Some t \<longrightarrow> 1 \<le> n" using ok unfolding Mutex_sync by (auto simp: body_ok_def word_le_nat_alt unat_gt_0 Suc_le_eq)
    then show ?thesis unfolding Mutex_sync sync_body.case
      using do_release_spec [OF wf b, of t 1] no_refs_room st all_asleep_settled by blast
  qed
qed

theorem no_lost_wakeup_witness:
  "all_asleep (two_waiters 50) \<and>
   (\<exists>s'. event_sync_signal 0 True (two_waiters 50) = Some s' \<and> all_asleep s')"
  using no_lost_wakeup [OF two_waiters_wf two_waiters_asleep, of 0 0 "Event_sync False False" True] two_waiters_asleep
  by (auto simp: two_refs_def two_waiters_def sync_at_def)





section \<open>Waiting for an object twice\<close>



end
