(* ===== verification/Spec2Isabelle.thy ===== *)
theory Spec2Isabelle
  imports Region_Props Unicode_Props Handle_Props Atom_Props User_Props File_Lock_Props Sync_Props
begin

text \<open>
  A verification library for the object server of the repository (\<open>src/server\<close>).

  \<^item> \<open>Wine_Prelude\<close>: C integer types, status codes, generic list facts.
  \<^item> \<open>Rects\<close>: the rectangle helpers of \<open>server/user.h\<close>.
  \<^item> \<open>Region\<close>, \<open>Region_Bands\<close>, \<open>Region_Op\<close>, \<open>Region_Correct\<close>, \<open>Region_Ops\<close>, \<open>Region_Props\<close>:
    \<open>server/region.c\<close>.
\<close>

end
